(* ===== verification/Prelude.thy ===== *)
theory Prelude
  imports Main "HOL-Library.Word" "HOL-Library.List_Lexorder" "HOL-Library.Product_Lexorder"
    "HOL-Library.Code_Target_Nat"
begin

unbundle bit_operations_syntax

text \<open>
  Shared vocabulary of the development: the machine types of the Rust sources, results as sums
  (\<open>Inl\<close> the error, \<open>Inr\<close> the value), checked \<open>usize\<close> arithmetic, slice access with its bounds
  check, the little-endian integer codec of the standard library, ordered maps as sorted
  association lists, and the sharded hash map that four components of the kernel use.
  The orders on byte strings and on pairs are the lexicographic ones of
  \<open>HOL-Library.List_Lexorder\<close> and \<open>HOL-Library.Product_Lexorder\<close>, which are the orders that
  \<open>derive(Ord)\<close> and slice comparison give in Rust.
\<close>

section \<open>Machine types\<close>

type_synonym u8 = "8 word"
type_synonym u16 = "16 word"
type_synonym u32 = "32 word"
type_synonym u64 = "64 word"
type_synonym bytes = "u8 list"

text \<open>
  \<open>usize\<close> is \<open>nat\<close>; the 64-bit limit is written out where the source checks it.
\<close>

definition checked_add_usize :: "nat \<Rightarrow> nat \<Rightarrow> nat option" where
  "checked_add_usize a b = (if a + b < 2 ^ 64 then Some (a + b) else None)"

definition checked_add_u64 :: "u64 \<Rightarrow> u64 \<Rightarrow> u64 option" where
  "checked_add_u64 a b = (if unat a + unat b < 2 ^ 64 then Some (a + b) else None)"

definition u32_try_from :: "nat \<Rightarrow> u32 option" where
  "u32_try_from n = (if n < 2 ^ 32 then Some (of_nat n) else None)"

definition u64_try_from :: "nat \<Rightarrow> u64 option" where
  "u64_try_from n = (if n < 2 ^ 64 then Some (of_nat n) else None)"

section \<open>Collections of rewrite rules\<close>

named_theorems codec_simps \<open>reading the fields of an encoded record\<close>
named_theorems shard_simps \<open>looking up and updating a sharded map\<close>
named_theorems step_simps \<open>unfolding one operation of a component\<close>

section \<open>Results\<close>

definition rbind :: "'e + 'a \<Rightarrow> ('a \<Rightarrow> 'e + 'b) \<Rightarrow> 'e + 'b" where
  "rbind m f = (case m of Inl e \<Rightarrow> Inl e | Inr x \<Rightarrow> f x)"

definition map_err :: "('e \<Rightarrow> 'f) \<Rightarrow> 'e + 'a \<Rightarrow> 'f + 'a" where
  "map_err g m = (case m of Inl e \<Rightarrow> Inl (g e) | Inr x \<Rightarrow> Inr x)"

definition ok_or :: "'e \<Rightarrow> 'a option \<Rightarrow> 'e + 'a" where
  "ok_or e m = (case m of None \<Rightarrow> Inl e | Some x \<Rightarrow> Inr x)"

definition is_ok :: "'e + 'a \<Rightarrow> bool" where
  "is_ok m = (case m of Inl e \<Rightarrow> False | Inr x \<Rightarrow> True)"

text \<open>\<open>Option::filter\<close>.\<close>

definition opt_filter :: "('a \<Rightarrow> bool) \<Rightarrow> 'a option \<Rightarrow> 'a option" where
  "opt_filter P m = (case m of None \<Rightarrow> None | Some x \<Rightarrow> if P x then Some x else None)"

lemma opt_filter_Some [simp]: "opt_filter P m = Some x \<longleftrightarrow> m = Some x \<and> P x"
  by (auto simp: opt_filter_def split: option.splits)

lemma opt_filter_None [simp]: "opt_filter P m = None \<longleftrightarrow> (\<forall>x. m = Some x \<longrightarrow> \<not> P x)"
  by (auto simp: opt_filter_def split: option.splits)

lemma rbind_simps [simp]:
  "rbind (Inl e) f = Inl e"
  "rbind (Inr x) f = f x"
  by (simp_all add: rbind_def)

lemma map_err_simps [simp]:
  "map_err g (Inl e) = Inl (g e)"
  "map_err g (Inr x) = Inr x"
  by (simp_all add: map_err_def)

lemma ok_or_simps [simp]:
  "ok_or e None = Inl e"
  "ok_or e (Some x) = Inr x"
  by (simp_all add: ok_or_def)

lemma is_ok_simps [simp]:
  "\<not> is_ok (Inl e)"
  "is_ok (Inr x)"
  by (simp_all add: is_ok_def)

lemma rbind_eq_Inr [simp]: "rbind m f = Inr y \<longleftrightarrow> (\<exists>x. m = Inr x \<and> f x = Inr y)"
  by (cases m) auto

lemma map_err_eq_Inr [simp]: "map_err g m = Inr y \<longleftrightarrow> m = Inr y"
  by (cases m) auto

lemma map_err_eq_Inl [simp]: "map_err g m = Inl e \<longleftrightarrow> (\<exists>e'. m = Inl e' \<and> e = g e')"
  by (cases m) auto

lemma ok_or_eq_Inr [simp]: "ok_or e m = Inr y \<longleftrightarrow> m = Some y"
  by (cases m) auto

lemma ok_or_eq_Inl [simp]: "ok_or e m = Inl e' \<longleftrightarrow> m = None \<and> e' = e"
  by (cases m) auto

lemma is_ok_iff: "is_ok m \<longleftrightarrow> (\<exists>x. m = Inr x)"
  by (cases m) auto

lemma is_ok_map_err [simp]: "is_ok (map_err g m) = is_ok m"
  by (cases m) auto

section \<open>Checked arithmetic\<close>

lemma checked_add_usize_Some [simp]:
  "a + b < 2 ^ 64 \<Longrightarrow> checked_add_usize a b = Some (a + b)"
  by (simp add: checked_add_usize_def)

lemma checked_add_usize_eq_Some:
  "checked_add_usize a b = Some c \<longleftrightarrow> c = a + b \<and> a + b < 2 ^ 64"
  by (auto simp: checked_add_usize_def)

lemma u32_try_from_eq_Some:
  "u32_try_from n = Some w \<longleftrightarrow> n < 2 ^ 32 \<and> w = of_nat n"
  by (auto simp: u32_try_from_def)

lemma u32_try_from_unat: "u32_try_from n = Some w \<Longrightarrow> unat w = n"
  by (auto simp: u32_try_from_def unat_of_nat take_bit_eq_mod split: if_splits)

lemma u32_try_from_zero [simp]: "u32_try_from 0 = Some 0"
  by (simp add: u32_try_from_def)

lemma u64_try_from_eq_Some:
  "u64_try_from n = Some w \<longleftrightarrow> n < 2 ^ 64 \<and> w = of_nat n"
  by (auto simp: u64_try_from_def)

lemma u64_try_from_unat: "u64_try_from n = Some w \<Longrightarrow> unat w = n"
  by (auto simp: u64_try_from_def unat_of_nat take_bit_eq_mod split: if_splits)

lemma unat_u64_bound [simp]: "unat (w :: u64) < 2 ^ 64"
  using unsigned_less [of w] by simp

lemma unat_u32_bound [simp]: "unat (w :: u32) < 2 ^ 32"
  using unsigned_less [of w] by simp

lemma word_eq_of_nat: "unat w = n \<Longrightarrow> w = of_nat n"
  by auto

lemma checked_add_u64_eq_Some:
  "checked_add_u64 a b = Some c \<longleftrightarrow> unat a + unat b < 2 ^ 64 \<and> c = a + b"
  by (auto simp: checked_add_u64_def)

lemma checked_add_u64_unat:
  "checked_add_u64 a b = Some c \<Longrightarrow> unat c = unat a + unat b"
  by (auto simp: checked_add_u64_def unat_word_ariths split: if_splits)

lemma checked_add_u64_less:
  "checked_add_u64 a 1 = Some c \<Longrightarrow> a < c"
  by (frule checked_add_u64_unat) (simp add: word_less_nat_alt)

section \<open>Slices\<close>

text \<open>\<open>slice.get(start..end)\<close>: \<open>None\<close> when the range is not inside the slice.\<close>

definition get_range :: "'a list \<Rightarrow> nat \<Rightarrow> nat \<Rightarrow> 'a list option" where
  "get_range xs s e = (if s \<le> e \<and> e \<le> length xs then Some (take (e - s) (drop s xs)) else None)"

text \<open>\<open>slice.get(i)\<close>.\<close>

definition get_at :: "'a list \<Rightarrow> nat \<Rightarrow> 'a option" where
  "get_at xs i = (if i < length xs then Some (xs ! i) else None)"

lemma get_at_eq_Some: "get_at xs i = Some x \<longleftrightarrow> i < length xs \<and> xs ! i = x"
  by (auto simp: get_at_def)

lemma get_at_append [simp]: "get_at (xs @ [x]) (length xs) = Some x"
  by (simp add: get_at_def)

lemma get_at_append_less [simp]: "i < length xs \<Longrightarrow> get_at (xs @ ys) i = get_at xs i"
  by (simp add: get_at_def nth_append)

lemma drop_split: "drop a xs = take n (drop a xs) @ drop (a + n) xs"
  by (metis add.commute append_take_drop_id drop_drop)

text \<open>Any long enough byte string is a sequence of fields of given widths and a rest.\<close>

lemma split_fields:
  "sum_list ns \<le> length xs \<Longrightarrow> \<exists>fs rest. xs = concat fs @ rest \<and> map length fs = ns"
proof (induction ns arbitrary: xs)
  case Nil
  then show ?case by simp
next
  case (Cons n ns)
  then have "sum_list ns \<le> length (drop n xs)" by simp
  then obtain fs rest where "drop n xs = concat fs @ rest" "map length fs = ns"
    using Cons.IH by blast
  then have "xs = concat (take n xs # fs) @ rest \<and> map length (take n xs # fs) = n # ns"
    using Cons.prems by (metis append.assoc append_take_drop_id concat.simps(2) le_add1 length_take
        list.simps(9) min.absorb2 order_trans sum_list.Cons)
  then show ?case by (intro exI)
qed

lemma length_4E:
  assumes "length xs = 4"
  obtains a b c d where "xs = [a, b, c, d]"
  using assms by (auto simp: numeral_eq_Suc length_Suc_conv)

section \<open>Little-endian integers\<close>

primrec le_bytes :: "nat \<Rightarrow> 'a::len word \<Rightarrow> bytes" where
  "le_bytes 0 w = []"
| "le_bytes (Suc n) w = ucast w # le_bytes n (drop_bit 8 w)"

primrec of_le_bytes :: "bytes \<Rightarrow> 'a::len word" where
  "of_le_bytes [] = 0"
| "of_le_bytes (b # bs) = ucast b OR push_bit 8 (of_le_bytes bs)"

lemma length_le_bytes [simp, codec_simps]: "length (le_bytes n w) = n"
  by (induction n arbitrary: w) auto

lemma of_le_bytes_le_bytes:
  fixes w :: "'a::len word"
  shows "of_le_bytes (le_bytes n w) = take_bit (8 * n) w"
proof (induction n arbitrary: w)
  case 0
  then show ?case by simp
next
  case (Suc n)
  have "of_le_bytes (le_bytes (Suc n) w) =
      ucast (ucast w :: u8) OR push_bit 8 (take_bit (8 * n) (drop_bit 8 w))"
    using Suc.IH by simp
  also have "\<dots> = take_bit (8 * Suc n) w"
    by (rule bit_word_eqI)
      (auto simp: bit_simps not_le le_diff_conv2 less_diff_conv2 algebra_simps)
  finally show ?case .
qed

lemma of_le_bytes_u64 [simp, codec_simps]: "of_le_bytes (le_bytes 8 w) = (w :: u64)"
  by (simp add: of_le_bytes_le_bytes take_bit_word_eq_self)

lemma of_le_bytes_u32 [simp, codec_simps]: "of_le_bytes (le_bytes 4 w) = (w :: u32)"
  by (simp add: of_le_bytes_le_bytes take_bit_word_eq_self)

lemma of_le_bytes_u16 [simp, codec_simps]: "of_le_bytes (le_bytes 2 w) = (w :: u16)"
  by (simp add: of_le_bytes_le_bytes take_bit_word_eq_self)

lemma bit_of_le_bytes:
  "bit (of_le_bytes bs :: 'a::len word) i \<longleftrightarrow>
    i < LENGTH('a) \<and> i div 8 < length bs \<and> bit (bs ! (i div 8)) (i mod 8)"
proof (induction bs arbitrary: i)
  case Nil
  then show ?case by simp
next
  case (Cons b bs)
  show ?case
  proof (cases "i < 8")
    case True
    then show ?thesis by (auto simp: bit_simps)
  next
    case False
    then have "i div 8 = Suc ((i - 8) div 8)" "i mod 8 = (i - 8) mod 8"
      by (simp_all add: le_div_geq le_mod_geq)
    moreover have "\<not> bit b i"
      using False bit_imp_le_length [of b i] by auto
    ultimately show ?thesis
      using False Cons.IH [of "i - 8"] by (auto simp: bit_simps)
  qed
qed

lemma drop_bit_of_le_bytes_Cons:
  assumes "8 * Suc (length bs) \<le> LENGTH('a)"
  shows "drop_bit 8 (of_le_bytes (b # bs) :: 'a::len word) = of_le_bytes bs"
  by (rule bit_word_eqI)
    (use assms in \<open>auto simp: bit_of_le_bytes bit_simps le_div_geq simp del: of_le_bytes.simps\<close>)

lemma ucast_of_le_bytes_Cons:
  assumes "8 \<le> LENGTH('a)"
  shows "ucast (of_le_bytes (b # bs) :: 'a::len word) = b"
  by (rule bit_word_eqI)
    (use assms in \<open>auto simp: bit_of_le_bytes bit_simps simp del: of_le_bytes.simps\<close>)

lemma le_bytes_of_le_bytes:
  assumes "8 * length bs \<le> LENGTH('a)"
  shows "le_bytes (length bs) (of_le_bytes bs :: 'a::len word) = bs"
  using assms
proof (induction bs)
  case Nil
  then show ?case by simp
next
  case (Cons b bs)
  then show ?case
    using drop_bit_of_le_bytes_Cons [of bs b, where 'a = 'a]
      ucast_of_le_bytes_Cons [of b bs, where 'a = 'a]
    by (simp del: of_le_bytes.simps)
qed

lemma le_bytes_of_le_bytes_u64 [simp]:
  "length bs = 8 \<Longrightarrow> le_bytes 8 (of_le_bytes bs :: u64) = bs"
  using le_bytes_of_le_bytes [of bs, where 'a = 64] by simp

lemma le_bytes_of_le_bytes_u32 [simp]:
  "length bs = 4 \<Longrightarrow> le_bytes 4 (of_le_bytes bs :: u32) = bs"
  using le_bytes_of_le_bytes [of bs, where 'a = 32] by simp

lemma le_bytes_of_le_bytes_u16 [simp]:
  "length bs = 2 \<Longrightarrow> le_bytes 2 (of_le_bytes bs :: u16) = bs"
  using le_bytes_of_le_bytes [of bs, where 'a = 16] by simp

lemma le_bytes_inject_u64 [simp]: "le_bytes 8 a = le_bytes 8 b \<longleftrightarrow> a = (b :: u64)"
  by (metis of_le_bytes_u64)

lemma le_bytes_inject_u32 [simp]: "le_bytes 4 a = le_bytes 4 b \<longleftrightarrow> a = (b :: u32)"
  by (metis of_le_bytes_u32)

section \<open>Reading integer fields\<close>

text \<open>The private \<open>read_u32\<close> and \<open>read_u64\<close> helpers that each codec module repeats.\<close>

definition read_u16 :: "bytes \<Rightarrow> nat \<Rightarrow> u16 option" where
  "read_u16 bs offset =
     (case checked_add_usize offset 2 of
        None \<Rightarrow> None
      | Some e \<Rightarrow> map_option of_le_bytes (get_range bs offset e))"

definition read_u32 :: "bytes \<Rightarrow> nat \<Rightarrow> u32 option" where
  "read_u32 bs offset =
     (case checked_add_usize offset 4 of
        None \<Rightarrow> None
      | Some e \<Rightarrow> map_option of_le_bytes (get_range bs offset e))"

definition read_u64 :: "bytes \<Rightarrow> nat \<Rightarrow> u64 option" where
  "read_u64 bs offset =
     (case checked_add_usize offset 8 of
        None \<Rightarrow> None
      | Some e \<Rightarrow> map_option of_le_bytes (get_range bs offset e))"

lemma read_u16_eq: "offset + 2 < 2 ^ 64 \<Longrightarrow> read_u16 bs offset =
    (if offset + 2 \<le> length bs then Some (of_le_bytes (take 2 (drop offset bs))) else None)"
  by (simp add: read_u16_def get_range_def)

lemma read_u32_eq: "offset + 4 < 2 ^ 64 \<Longrightarrow> read_u32 bs offset =
    (if offset + 4 \<le> length bs then Some (of_le_bytes (take 4 (drop offset bs))) else None)"
  by (simp add: read_u32_def get_range_def)

lemma read_u64_eq: "offset + 8 < 2 ^ 64 \<Longrightarrow> read_u64 bs offset =
    (if offset + 8 \<le> length bs then Some (of_le_bytes (take 8 (drop offset bs))) else None)"
  by (simp add: read_u64_def get_range_def)

lemmas read_field_eq [codec_simps] = read_u16_eq read_u32_eq read_u64_eq

section \<open>Codecs\<close>

text \<open>
  The contract of a fail-closed codec: the decoder accepts exactly the encodings of the
  well-formed values, and gives back the value that was encoded.
\<close>

locale byte_codec =
  fixes enc :: "'a \<Rightarrow> 'e + 'b list"
    and dec :: "'b list \<Rightarrow> 'd + 'a"
    and wf :: "'a \<Rightarrow> bool"
  assumes exact: "dec bs = Inr r \<longleftrightarrow> enc r = Inr bs \<and> wf r"
begin

lemma round_trip: "wf r \<Longrightarrow> enc r = Inr bs \<Longrightarrow> dec bs = Inr r"
  by (simp add: exact)

lemma canonical: "dec bs = Inr r \<Longrightarrow> enc r = Inr bs"
  by (simp add: exact)

lemma enc_inj: "wf r \<Longrightarrow> wf r' \<Longrightarrow> enc r = Inr bs \<Longrightarrow> enc r' = Inr bs \<Longrightarrow> r = r'"
  using round_trip [of r bs] round_trip [of r' bs] by simp

lemma dec_inj: "dec bs = Inr r \<Longrightarrow> dec bs' = Inr r \<Longrightarrow> bs = bs'"
  by (auto simp: exact)

lemma rejects: "(\<And>r. wf r \<Longrightarrow> enc r \<noteq> Inr bs) \<Longrightarrow> \<exists>e. dec bs = Inl e"
  using exact [of bs] by (cases "dec bs") auto

end

end
