(* ===== verification/Sharded_Map.thy ===== *)
theory Sharded_Map
  imports Prelude
begin

text \<open>
  The sharded hash map shape of the kernel: an array of independently locked \<open>HashMap\<close>s, the shard
  of a key chosen by a fixed function of the key.  The status table, the write-intent table, the
  page-dependency table and the translation table all have it.  A shard carries the poison flag of
  its lock, because the sources turn a poisoned lock into an error or, where they say so, look
  through the poison.  Reading an array of shards through its shard function gives one flat map,
  and the update lemmas below are the laws of that flat map, for every shard function.
\<close>

record ('k, 'v) shard =
  poisoned :: bool
  entries :: "'k \<rightharpoonup> 'v"

type_synonym ('k, 'v) shards = "nat \<Rightarrow> ('k, 'v) shard"

definition sm_new :: "('k, 'v) shards" where
  "sm_new = (\<lambda>_. \<lparr>poisoned = False, entries = Map.empty\<rparr>)"

definition sm_get :: "('k \<Rightarrow> nat) \<Rightarrow> ('k, 'v) shards \<Rightarrow> 'k \<rightharpoonup> 'v" where
  "sm_get sh t k = entries (t (sh k)) k"

definition sm_set :: "('k \<Rightarrow> nat) \<Rightarrow> 'k \<Rightarrow> 'v option \<Rightarrow> ('k, 'v) shards \<Rightarrow> ('k, 'v) shards" where
  "sm_set sh k v t = t(sh k := (t (sh k))\<lparr>entries := (entries (t (sh k)))(k := v)\<rparr>)"

definition sm_poisoned :: "('k \<Rightarrow> nat) \<Rightarrow> ('k, 'v) shards \<Rightarrow> 'k \<Rightarrow> bool" where
  "sm_poisoned sh t k = poisoned (t (sh k))"

lemma sm_get_new [simp, shard_simps]: "sm_get sh sm_new = Map.empty"
  by (rule ext) (simp add: sm_get_def sm_new_def)

lemma poisoned_new [simp, shard_simps]: "\<not> poisoned (sm_new i)"
  by (simp add: sm_new_def)

lemma sm_poisoned_new [simp, shard_simps]: "\<not> sm_poisoned sh sm_new k"
  by (simp add: sm_poisoned_def sm_new_def)

lemma sm_get_set [simp, shard_simps]:
  "sm_get sh (sm_set sh k v t) k' = (if k' = k then v else sm_get sh t k')"
  by (simp add: sm_get_def sm_set_def)

lemma sm_get_set_fun: "sm_get sh (sm_set sh k v t) = (sm_get sh t)(k := v)"
  by (rule ext) simp

lemma sm_poisoned_set [simp, shard_simps]:
  "sm_poisoned sh (sm_set sh k v t) k' = sm_poisoned sh t k'"
  by (simp add: sm_poisoned_def sm_set_def)

lemma sm_get_poison [simp, shard_simps]: "sm_get sh (t(i := (t i)\<lparr>poisoned := b\<rparr>)) = sm_get sh t"
  by (rule ext) (simp add: sm_get_def)

lemma sm_set_set [simp, shard_simps]: "sm_set sh k v (sm_set sh k w t) = sm_set sh k v t"
  by (simp add: sm_set_def)

lemma sm_set_id: "sm_get sh t k = v \<Longrightarrow> sm_set sh k v t = t"
  by (auto simp: sm_set_def sm_get_def)

lemma sm_set_commute: "k \<noteq> k' \<Longrightarrow> sm_set sh k v (sm_set sh k' w t) = sm_set sh k' w (sm_set sh k v t)"
  by (auto simp: sm_set_def fun_upd_twist)

text \<open>
  An entry that is in the wrong shard is invisible; a table is well placed when there is none.
  Every table starts well placed and every update keeps it so.
\<close>

definition sm_placed :: "('k \<Rightarrow> nat) \<Rightarrow> ('k, 'v) shards \<Rightarrow> bool" where
  "sm_placed sh t \<longleftrightarrow> (\<forall>i k. k \<in> dom (entries (t i)) \<longrightarrow> sh k = i)"

lemma sm_placed_new [simp]: "sm_placed sh sm_new"
  by (simp add: sm_placed_def sm_new_def)

lemma sm_placed_set [simp]: "sm_placed sh t \<Longrightarrow> sm_placed sh (sm_set sh k v t)"
  by (auto simp: sm_placed_def sm_set_def split: if_splits)

lemma sm_placed_eqI:
  assumes "sm_placed sh t" "sm_placed sh t'" "\<And>k. sm_get sh t k = sm_get sh t' k"
    and "\<And>i. poisoned (t i) = poisoned (t' i)"
  shows "t = t'"
proof
  fix i
  have "entries (t i) k = entries (t' i) k" for k
  proof (cases "sh k = i")
    case True
    then show ?thesis using assms(3) [of k] by (simp add: sm_get_def)
  next
    case False
    then have "k \<notin> dom (entries (t i))" "k \<notin> dom (entries (t' i))"
      using assms(1,2) unfolding sm_placed_def by blast+
    then show ?thesis by (auto simp: dom_def)
  qed
  then show "t i = t' i"
    using assms(4) [of i] by (cases "t i", cases "t' i") auto
qed

end
