(* ===== verification/Ids.thy ===== *)
theory Ids
  imports Prelude
begin

text \<open>
  Identities of the kernel: the numeric newtypes of \<open>vnext/ids.rs\<close> and \<open>storage/format.rs\<close>, the
  packed log position \<open>Lsn\<close>, and the authority class of a storage object (\<open>vnext/object.rs\<close>).
  A newtype over \<open>u64\<close> is a synonym of the 64-bit word type, whose order is the derived one.
\<close>

type_synonym TxnId = u64
type_synonym CommitSeq = u64
type_synonym VersionId = u64
type_synonym StorageObjectId = u64
type_synonym PageId = u64
type_synonym Lsn = u64

record PageKey =
  pk_object :: StorageObjectId
  pk_page :: PageId

type_synonym FrameId = nat
type_synonym FrameIncarnation = u64
type_synonym StoreIncarnation = bytes

record FrameRef =
  fr_frame :: FrameId
  fr_incarnation :: FrameIncarnation

definition frame_incarnation_new :: "u64 \<Rightarrow> FrameIncarnation option" where
  "frame_incarnation_new v = (if v = 0 then None else Some v)"

function store_incarnation_scan :: "bytes \<Rightarrow> nat \<Rightarrow> bool" where
  "store_incarnation_scan bs index =
     (if index < length bs then
        if bs ! index \<noteq> 0 then True else store_incarnation_scan bs (index + 1)
      else False)"
  by pat_completeness auto
termination by (relation "measure (\<lambda>(bs, index). length bs - index)") auto

declare store_incarnation_scan.simps [simp del]

definition store_incarnation_from_bytes :: "bytes \<Rightarrow> StoreIncarnation option" where
  "store_incarnation_from_bytes bs = (if store_incarnation_scan bs 0 then Some bs else None)"

datatype ObjectAuthority = Authoritative | Derived

definition requires_commit_recovery :: "ObjectAuthority \<Rightarrow> bool" where
  "requires_commit_recovery a = (case a of Authoritative \<Rightarrow> True | Derived \<Rightarrow> False)"

record StorageObjectDescriptor =
  sod_id :: StorageObjectId
  sod_authority :: ObjectAuthority

record CommitPosition =
  cp_csn :: CommitSeq
  cp_lsn :: Lsn

definition LSN_MAX_OFFSET :: u64 where "LSN_MAX_OFFSET = 0xffffffff"

definition lsn_from_wal_position :: "u64 \<Rightarrow> u64 \<Rightarrow> Lsn option" where
  "lsn_from_wal_position segment offset =
     (if segment > 0xffffffff \<or> offset > LSN_MAX_OFFSET then None
      else Some (push_bit 32 segment OR offset))"

definition lsn_segment :: "Lsn \<Rightarrow> u64" where
  "lsn_segment lsn = drop_bit 32 lsn"

definition lsn_offset :: "Lsn \<Rightarrow> u64" where
  "lsn_offset lsn = lsn AND LSN_MAX_OFFSET"

lemma store_incarnation_scan_iff:
  "store_incarnation_scan bs i \<longleftrightarrow> (\<exists>j. i \<le> j \<and> j < length bs \<and> bs ! j \<noteq> 0)"
proof (induction bs i rule: store_incarnation_scan.induct)
  case (1 bs i)
  show ?case
  proof (cases "i < length bs \<and> bs ! i = 0")
    case True
    then have "store_incarnation_scan bs i = store_incarnation_scan bs (i + 1)"
      by (subst store_incarnation_scan.simps) simp
    also have "\<dots> \<longleftrightarrow> (\<exists>j. i + 1 \<le> j \<and> j < length bs \<and> bs ! j \<noteq> 0)" using 1 True by simp
    also have "\<dots> \<longleftrightarrow> (\<exists>j. i \<le> j \<and> j < length bs \<and> bs ! j \<noteq> 0)"
      using True by (metis Suc_eq_plus1 Suc_leD Suc_leI le_neq_implies_less)
    finally show ?thesis .
  next
    case False
    then show ?thesis by (subst store_incarnation_scan.simps) auto
  qed
qed

lemma le_u32_max_iff: "(x :: u64) \<le> 0xffffffff \<longleftrightarrow> take_bit 32 x = x"
proof -
  have "unat x \<le> 4294967295 \<longleftrightarrow> take_bit 32 (unat x) = unat x"
    by (auto simp: take_bit_nat_eq_self_iff)
  also have "\<dots> \<longleftrightarrow> unat (take_bit 32 x) = unat x"
    by (simp add: unsigned_take_bit_eq)
  finally show ?thesis
    by (simp add: word_le_nat_alt word_unat_eq_iff)
qed

lemma LSN_MAX_OFFSET_mask: "LSN_MAX_OFFSET = mask 32"
  by (simp add: LSN_MAX_OFFSET_def mask_eq_exp_minus_1)

lemma lsn_position_fields:
  assumes "lsn_from_wal_position segment offset = Some lsn"
  shows "lsn_segment lsn = segment" "lsn_offset lsn = offset"
proof -
  have lsn: "lsn = push_bit 32 segment OR offset"
    and s: "take_bit 32 segment = segment" and off: "take_bit 32 offset = offset"
    using assms by (auto simp: lsn_from_wal_position_def LSN_MAX_OFFSET_def not_less le_u32_max_iff
        split: if_splits)
  have bs: "bit segment i \<Longrightarrow> i < 32" for i by (metis s bit_take_bit_iff)
  have bo: "bit offset i \<Longrightarrow> i < 32" for i by (metis off bit_take_bit_iff)
  show "lsn_segment lsn = segment"
    by (rule bit_word_eqI) (auto simp: lsn_segment_def lsn bit_simps dest: bs bo)
  show "lsn_offset lsn = offset"
    by (rule bit_word_eqI) (auto simp: lsn_offset_def lsn LSN_MAX_OFFSET_mask bit_simps dest: bs bo)
qed

lemma lsn_position_complete: "lsn_from_wal_position (lsn_segment lsn) (lsn_offset lsn) = Some lsn"
proof -
  have "take_bit 32 (lsn_segment lsn) = lsn_segment lsn" "take_bit 32 (lsn_offset lsn) = lsn_offset lsn"
    by (rule bit_word_eqI; auto simp: lsn_segment_def lsn_offset_def LSN_MAX_OFFSET_mask bit_simps
        dest: bit_imp_le_length)+
  moreover have "push_bit 32 (lsn_segment lsn) OR lsn_offset lsn = lsn"
    by (rule bit_word_eqI) (auto simp: lsn_segment_def lsn_offset_def LSN_MAX_OFFSET_mask bit_simps)
  ultimately show ?thesis
    by (simp add: lsn_from_wal_position_def LSN_MAX_OFFSET_def not_less le_u32_max_iff)
qed

lemma lsn_unat:
  assumes "lsn_from_wal_position segment offset = Some lsn"
  shows "unat lsn = unat segment * 2 ^ 32 + unat offset \<and> unat offset < 2 ^ 32"
proof -
  have "lsn = push_bit 32 segment OR offset" and so: "segment \<le> 0xffffffff" "offset \<le> 0xffffffff"
    using assms by (auto simp: lsn_from_wal_position_def LSN_MAX_OFFSET_def split: if_splits)
  moreover have "push_bit 32 segment AND offset = 0"
    using so(2) by (intro bit_word_eqI) (auto simp: le_u32_max_iff bit_simps, metis bit_take_bit_iff not_le)
  ultimately have "lsn = push_bit 32 segment + offset"
    by (simp add: disjunctive_add_eq_or [symmetric])
  moreover have "unat segment \<le> 4294967295" "unat offset \<le> 4294967295"
    using so by (simp_all add: word_le_nat_alt)
  ultimately show ?thesis
    by (simp add: push_bit_eq_mult unat_word_ariths)
qed

end
