(* ===== verification/Mvcc.thy ===== *)
theory Mvcc
  imports Sharded_Map Ids
begin

text \<open>
  Model of \<open>crates/seerdb/src/vnext/mvcc.rs\<close>: the compact MVCC record envelope with its
  little-endian codec, and the transaction-status table through which one status publication makes
  every record of a transaction visible together.
\<close>

section \<open>Records\<close>


datatype RecordOwner = Transaction TxnId | Frozen CommitSeq

record InstallIdentity =
  ii_txn_id :: TxnId
  ii_ordinal :: u32

datatype MvccValue = Inline bytes | Tombstone

record MvccRecord =
  rec_owner :: RecordOwner
  rec_undo_head :: "VersionId option"
  rec_install_identity :: "InstallIdentity option"
  rec_value :: MvccValue

datatype MvccCodecError =
    Mvcc_Malformed
  | Mvcc_UnsupportedFormat
  | Mvcc_ReservedOwner
  | Mvcc_ReservedInstallTransaction
  | Mvcc_InstallOwnerMismatch TxnId TxnId
  | Mvcc_ValueTooLarge

definition RECORD_MAGIC :: bytes where "RECORD_MAGIC = [0x4f, 0x4d, 0x56, 0x31]"
definition RECORD_VERSION :: u8 where "RECORD_VERSION = 2"
definition RECORD_HEADER_SIZE :: nat where "RECORD_HEADER_SIZE = 40"
definition OWNER_TRANSACTION :: u8 where "OWNER_TRANSACTION = 1"
definition OWNER_FROZEN :: u8 where "OWNER_FROZEN = 2"
definition VALUE_INLINE :: u8 where "VALUE_INLINE = 1"
definition VALUE_TOMBSTONE :: u8 where "VALUE_TOMBSTONE = 2"

lemmas mvcc_consts = RECORD_MAGIC_def RECORD_VERSION_def RECORD_HEADER_SIZE_def
  OWNER_TRANSACTION_def OWNER_FROZEN_def VALUE_INLINE_def VALUE_TOMBSTONE_def

definition mvcc_new :: "RecordOwner \<Rightarrow> VersionId option \<Rightarrow> MvccValue \<Rightarrow> MvccRecord" where
  "mvcc_new owner undo_head v =
     \<lparr>rec_owner = owner, rec_undo_head = undo_head, rec_install_identity = None, rec_value = v\<rparr>"

definition mvcc_installed :: "TxnId \<Rightarrow> u32 \<Rightarrow> VersionId option \<Rightarrow> MvccValue \<Rightarrow> MvccRecord" where
  "mvcc_installed txn_id ordinal undo_head v =
     \<lparr>rec_owner = Transaction txn_id, rec_undo_head = undo_head,
      rec_install_identity = Some \<lparr>ii_txn_id = txn_id, ii_ordinal = ordinal\<rparr>, rec_value = v\<rparr>"

definition mvcc_with_install_identity ::
  "RecordOwner \<Rightarrow> VersionId option \<Rightarrow> InstallIdentity \<Rightarrow> MvccValue \<Rightarrow> MvccRecord" where
  "mvcc_with_install_identity owner undo_head identity v =
     \<lparr>rec_owner = owner, rec_undo_head = undo_head, rec_install_identity = Some identity,
      rec_value = v\<rparr>"

definition has_install_identity :: "MvccRecord \<Rightarrow> InstallIdentity \<Rightarrow> bool" where
  "has_install_identity r identity =
     (case rec_install_identity r of
        None \<Rightarrow> False
      | Some existing \<Rightarrow> ii_txn_id existing = ii_txn_id identity \<and>
                         ii_ordinal existing = ii_ordinal identity)"

section \<open>The record codec\<close>

fun owner_fields :: "RecordOwner \<Rightarrow> u8 \<times> u64" where
  "owner_fields (Transaction txn) = (OWNER_TRANSACTION, txn)"
| "owner_fields (Frozen csn) = (OWNER_FROZEN, csn)"

fun value_fields :: "MvccValue \<Rightarrow> u8 \<times> bytes" where
  "value_fields (Inline v) = (VALUE_INLINE, v)"
| "value_fields Tombstone = (VALUE_TOMBSTONE, [])"

definition install_fields :: "MvccRecord \<Rightarrow> MvccCodecError + u64 \<times> u32" where
  "install_fields r =
     (case rec_install_identity r of
        None \<Rightarrow> Inr (0, 0)
      | Some identity \<Rightarrow>
          if ii_txn_id identity = 0 then Inl Mvcc_ReservedInstallTransaction
          else case rec_owner r of
            Transaction owner \<Rightarrow>
              if owner \<noteq> ii_txn_id identity
              then Inl (Mvcc_InstallOwnerMismatch owner (ii_txn_id identity))
              else Inr (ii_txn_id identity, ii_ordinal identity)
          | Frozen _ \<Rightarrow> Inr (ii_txn_id identity, ii_ordinal identity))"

definition undo_field :: "VersionId option \<Rightarrow> u64" where
  "undo_field u = (case u of None \<Rightarrow> 0 | Some v \<Rightarrow> v)"

definition mvcc_to_bytes :: "MvccRecord \<Rightarrow> MvccCodecError + bytes" where
  "mvcc_to_bytes r =
     (let (owner_kind, owner_id) = owner_fields (rec_owner r) in
      if owner_id = 0 then Inl Mvcc_ReservedOwner
      else rbind (install_fields r) (\<lambda>(install_txn, install_ordinal).
        let (value_kind, v) = value_fields (rec_value r) in
        rbind (ok_or Mvcc_ValueTooLarge (u32_try_from (length v))) (\<lambda>value_len.
        rbind (ok_or Mvcc_ValueTooLarge (checked_add_usize RECORD_HEADER_SIZE (length v))) (\<lambda>_.
        Inr (RECORD_MAGIC @ [RECORD_VERSION, owner_kind, value_kind, 0]
             @ le_bytes 8 owner_id @ le_bytes 8 (undo_field (rec_undo_head r))
             @ le_bytes 8 install_txn @ le_bytes 4 install_ordinal
             @ le_bytes 4 value_len @ v)))))"

definition decode_owner :: "u8 \<Rightarrow> u64 \<Rightarrow> MvccCodecError + RecordOwner" where
  "decode_owner kind raw =
     (if kind = OWNER_TRANSACTION then Inr (Transaction raw)
      else if kind = OWNER_FROZEN then Inr (Frozen raw)
      else Inl Mvcc_UnsupportedFormat)"

definition decode_install :: "RecordOwner \<Rightarrow> u64 \<Rightarrow> u32 \<Rightarrow> MvccCodecError + InstallIdentity option" where
  "decode_install owner txn_raw ordinal =
     rbind (if txn_raw = 0 then if ordinal \<noteq> 0 then Inl Mvcc_Malformed else Inr None
            else Inr (Some \<lparr>ii_txn_id = txn_raw, ii_ordinal = ordinal\<rparr>)) (\<lambda>install_identity.
     case (owner, install_identity) of
       (Transaction owner_txn, Some identity) \<Rightarrow>
         if owner_txn \<noteq> ii_txn_id identity
         then Inl (Mvcc_InstallOwnerMismatch owner_txn (ii_txn_id identity))
         else Inr install_identity
     | _ \<Rightarrow> Inr install_identity)"

definition decode_value :: "u8 \<Rightarrow> nat \<Rightarrow> bytes \<Rightarrow> MvccCodecError + MvccValue" where
  "decode_value kind value_len body =
     (if kind = VALUE_INLINE then Inr (Inline body)
      else if kind = VALUE_TOMBSTONE then
        if value_len = 0 then Inr Tombstone else Inl Mvcc_Malformed
      else Inl Mvcc_UnsupportedFormat)"

definition mvcc_from_bytes :: "bytes \<Rightarrow> MvccCodecError + MvccRecord" where
  "mvcc_from_bytes bs =
     (if length bs < RECORD_HEADER_SIZE \<or> take 4 bs \<noteq> RECORD_MAGIC then Inl Mvcc_Malformed
      else if bs ! 4 \<noteq> RECORD_VERSION \<or> bs ! 7 \<noteq> 0 then Inl Mvcc_UnsupportedFormat
      else rbind (ok_or Mvcc_Malformed (read_u64 bs 8)) (\<lambda>owner_raw.
        if owner_raw = 0 then Inl Mvcc_ReservedOwner
        else rbind (decode_owner (bs ! 5) owner_raw) (\<lambda>owner.
        rbind (ok_or Mvcc_Malformed (read_u64 bs 16)) (\<lambda>undo_raw.
        rbind (ok_or Mvcc_Malformed (read_u64 bs 24)) (\<lambda>install_txn_raw.
        rbind (ok_or Mvcc_Malformed (read_u32 bs 32)) (\<lambda>install_ordinal.
        rbind (decode_install owner install_txn_raw install_ordinal) (\<lambda>install_identity.
        rbind (ok_or Mvcc_Malformed (read_u32 bs 36)) (\<lambda>value_len_raw.
        rbind (ok_or Mvcc_Malformed (checked_add_usize RECORD_HEADER_SIZE (unat value_len_raw)))
          (\<lambda>expected.
        if expected \<noteq> length bs then Inl Mvcc_Malformed
        else rbind (decode_value (bs ! 6) (unat value_len_raw) (drop RECORD_HEADER_SIZE bs)) (\<lambda>v.
        Inr \<lparr>rec_owner = owner,
             rec_undo_head = (if undo_raw \<noteq> 0 then Some undo_raw else None),
             rec_install_identity = install_identity, rec_value = v\<rparr>))))))))))"

section \<open>The transaction-status table\<close>

datatype TransactionStatus = Active | Committed CommitSeq | Aborted

datatype RecordVisibility = Vis_Visible | Vis_Active | Vis_Aborted | Vis_NewerCommit CommitSeq

datatype StatusTableError =
    Status_ReservedTxn
  | Status_ReservedCommitSeq
  | Status_DuplicateTxn TxnId
  | Status_UnknownTxn TxnId
  | Status_InvalidTransition TxnId TransactionStatus TransactionStatus
  | Status_ConflictingRecovery TxnId TransactionStatus TransactionStatus
  | Status_Poisoned nat

type_synonym TransactionStatusTable = "(TxnId, TransactionStatus) shards"

definition STATUS_SHARDS :: nat where "STATUS_SHARDS = 64"

definition status_shard :: "TxnId \<Rightarrow> nat" where
  "status_shard txn = unat (txn AND of_nat (STATUS_SHARDS - 1))"

definition status_new :: TransactionStatusTable where
  "status_new = sm_new"

definition status_begin ::
  "TransactionStatusTable \<Rightarrow> TxnId \<Rightarrow> (StatusTableError + unit) \<times> TransactionStatusTable" where
  "status_begin t txn =
     (if txn = 0 then (Inl Status_ReservedTxn, t)
      else let shard = status_shard txn in
        if poisoned (t shard) then (Inl (Status_Poisoned shard), t)
        else if txn \<in> dom (entries (t shard)) then (Inl (Status_DuplicateTxn txn), t)
        else (Inr (), sm_set status_shard txn (Some Active) t))"

definition status_transition ::
  "TransactionStatusTable \<Rightarrow> TxnId \<Rightarrow> TransactionStatus \<Rightarrow>
     (StatusTableError + unit) \<times> TransactionStatusTable" where
  "status_transition t txn next_status =
     (if txn = 0 then (Inl Status_ReservedTxn, t)
      else let shard = status_shard txn in
        if poisoned (t shard) then (Inl (Status_Poisoned shard), t)
        else case entries (t shard) txn of
          None \<Rightarrow> (Inl (Status_UnknownTxn txn), t)
        | Some status \<Rightarrow>
            if status \<noteq> Active then (Inl (Status_InvalidTransition txn status next_status), t)
            else (Inr (), sm_set status_shard txn (Some next_status) t))"

definition status_commit ::
  "TransactionStatusTable \<Rightarrow> TxnId \<Rightarrow> CommitSeq \<Rightarrow>
     (StatusTableError + unit) \<times> TransactionStatusTable" where
  "status_commit t txn csn =
     (if csn = 0 then (Inl Status_ReservedCommitSeq, t)
      else status_transition t txn (Committed csn))"

definition status_abort ::
  "TransactionStatusTable \<Rightarrow> TxnId \<Rightarrow> (StatusTableError + unit) \<times> TransactionStatusTable" where
  "status_abort t txn = status_transition t txn Aborted"

definition status_recover ::
  "TransactionStatusTable \<Rightarrow> TxnId \<Rightarrow> TransactionStatus \<Rightarrow>
     (StatusTableError + unit) \<times> TransactionStatusTable" where
  "status_recover t txn recovered =
     (let shard = status_shard txn in
      if poisoned (t shard) then (Inl (Status_Poisoned shard), t)
      else case entries (t shard) txn of
        None \<Rightarrow> (Inr (), sm_set status_shard txn (Some recovered) t)
      | Some existing \<Rightarrow>
          if existing = recovered then (Inr (), t)
          else (Inl (Status_ConflictingRecovery txn existing recovered), t))"

definition status_recover_committed ::
  "TransactionStatusTable \<Rightarrow> TxnId \<Rightarrow> CommitSeq \<Rightarrow>
     (StatusTableError + unit) \<times> TransactionStatusTable" where
  "status_recover_committed t txn csn =
     (if txn = 0 then (Inl Status_ReservedTxn, t)
      else if csn = 0 then (Inl Status_ReservedCommitSeq, t)
      else status_recover t txn (Committed csn))"

definition status_recover_aborted ::
  "TransactionStatusTable \<Rightarrow> TxnId \<Rightarrow> (StatusTableError + unit) \<times> TransactionStatusTable" where
  "status_recover_aborted t txn =
     (if txn = 0 then (Inl Status_ReservedTxn, t) else status_recover t txn Aborted)"

definition status_status ::
  "TransactionStatusTable \<Rightarrow> TxnId \<Rightarrow> StatusTableError + TransactionStatus option" where
  "status_status t txn =
     (let shard = status_shard txn in
      if poisoned (t shard) then Inl (Status_Poisoned shard)
      else Inr (entries (t shard) txn))"

definition status_visibility ::
  "TransactionStatusTable \<Rightarrow> RecordOwner \<Rightarrow> TxnId option \<Rightarrow> CommitSeq \<Rightarrow>
     StatusTableError + RecordVisibility" where
  "status_visibility t owner reader snapshot =
     (case owner of
        Frozen csn \<Rightarrow> Inr (if csn \<le> snapshot then Vis_Visible else Vis_NewerCommit csn)
      | Transaction txn \<Rightarrow>
          if reader = Some txn then Inr Vis_Visible
          else rbind (status_status t txn) (\<lambda>found.
            rbind (ok_or (Status_UnknownTxn txn) found) (\<lambda>status.
            case status of
              Active \<Rightarrow> Inr Vis_Active
            | Aborted \<Rightarrow> Inr Vis_Aborted
            | Committed csn \<Rightarrow>
                Inr (if csn \<le> snapshot then Vis_Visible else Vis_NewerCommit csn))))"

text \<open>
  The mutating operations as one type of calls, so that a history of the table is a list of calls.
\<close>

datatype StatusCall =
    Call_begin TxnId
  | Call_commit TxnId CommitSeq
  | Call_abort TxnId
  | Call_recover_committed TxnId CommitSeq
  | Call_recover_aborted TxnId

fun status_call ::
  "StatusCall \<Rightarrow> TransactionStatusTable \<Rightarrow> (StatusTableError + unit) \<times> TransactionStatusTable" where
  "status_call (Call_begin txn) t = status_begin t txn"
| "status_call (Call_commit txn csn) t = status_commit t txn csn"
| "status_call (Call_abort txn) t = status_abort t txn"
| "status_call (Call_recover_committed txn csn) t = status_recover_committed t txn csn"
| "status_call (Call_recover_aborted txn) t = status_recover_aborted t txn"

definition status_run :: "StatusCall list \<Rightarrow> TransactionStatusTable \<Rightarrow> TransactionStatusTable" where
  "status_run calls t = fold (\<lambda>c t. snd (status_call c t)) calls t"

section \<open>The codec is exact\<close>

text \<open>The byte layout of an encoded record, as a function of its fields.\<close>

definition mvcc_layout :: "u8 \<Rightarrow> u8 \<Rightarrow> u64 \<Rightarrow> u64 \<Rightarrow> u64 \<Rightarrow> u32 \<Rightarrow> u32 \<Rightarrow> bytes \<Rightarrow> bytes" where
  "mvcc_layout ok vk owner undo itxn iord vlen body =
     RECORD_MAGIC @ [RECORD_VERSION, ok, vk, 0] @ le_bytes 8 owner @ le_bytes 8 undo
       @ le_bytes 8 itxn @ le_bytes 4 iord @ le_bytes 4 vlen @ body"

lemma mvcc_to_bytes_layout:
  "mvcc_to_bytes r = Inr bs \<longleftrightarrow>
     (\<exists>ok owner itxn iord vk body.
        owner_fields (rec_owner r) = (ok, owner) \<and> owner \<noteq> 0 \<and> install_fields r = Inr (itxn, iord) \<and>
        value_fields (rec_value r) = (vk, body) \<and> length body < 2 ^ 32 \<and>
        bs = mvcc_layout ok vk owner (undo_field (rec_undo_head r)) itxn iord
               (of_nat (length body)) body)"
  by (cases "owner_fields (rec_owner r)"; cases "value_fields (rec_value r)"; cases "install_fields r")
    (auto simp: mvcc_to_bytes_def mvcc_layout_def u32_try_from_eq_Some checked_add_usize_eq_Some
      RECORD_HEADER_SIZE_def)

lemma mvcc_layout_fields:
  "length (mvcc_layout ok vk owner undo itxn iord vlen body) = 40 + length body"
  "take 4 (mvcc_layout ok vk owner undo itxn iord vlen body) = RECORD_MAGIC"
  "mvcc_layout ok vk owner undo itxn iord vlen body ! 4 = RECORD_VERSION"
  "mvcc_layout ok vk owner undo itxn iord vlen body ! 5 = ok"
  "mvcc_layout ok vk owner undo itxn iord vlen body ! 6 = vk"
  "mvcc_layout ok vk owner undo itxn iord vlen body ! 7 = 0"
  "read_u64 (mvcc_layout ok vk owner undo itxn iord vlen body) 8 = Some owner"
  "read_u64 (mvcc_layout ok vk owner undo itxn iord vlen body) 16 = Some undo"
  "read_u64 (mvcc_layout ok vk owner undo itxn iord vlen body) 24 = Some itxn"
  "read_u32 (mvcc_layout ok vk owner undo itxn iord vlen body) 32 = Some iord"
  "read_u32 (mvcc_layout ok vk owner undo itxn iord vlen body) 36 = Some vlen"
  "drop 40 (mvcc_layout ok vk owner undo itxn iord vlen body) = body"
  by (simp_all add: mvcc_layout_def RECORD_MAGIC_def codec_simps)

lemma mvcc_from_bytes_layout:
  "mvcc_from_bytes (mvcc_layout ok vk owner undo itxn iord vlen body) =
     (if owner = 0 then Inl Mvcc_ReservedOwner
      else rbind (decode_owner ok owner) (\<lambda>ow.
        rbind (decode_install ow itxn iord) (\<lambda>ii.
        if unat vlen \<noteq> length body then Inl Mvcc_Malformed
        else rbind (decode_value vk (unat vlen) body) (\<lambda>v.
        Inr \<lparr>rec_owner = ow, rec_undo_head = (if undo \<noteq> 0 then Some undo else None),
             rec_install_identity = ii, rec_value = v\<rparr>))))"
proof -
  have "checked_add_usize 40 (unat vlen) = Some (40 + unat vlen)"
    using unat_u32_bound [of vlen] by (simp add: checked_add_usize_def)
  then show ?thesis
    by (simp add: mvcc_from_bytes_def mvcc_layout_fields RECORD_HEADER_SIZE_def cong: if_cong)
qed

lemma mvcc_layout_complete:
  assumes "40 \<le> length bs" "take 4 bs = RECORD_MAGIC" "bs ! 4 = RECORD_VERSION" "bs ! 7 = 0"
  obtains owner undo itxn iord vlen where
    "bs = mvcc_layout (bs ! 5) (bs ! 6) owner undo itxn iord vlen (drop 40 bs)"
proof -
  have "sum_list [4, 4, 8, 8, 8, 4, 4] \<le> length bs" using assms(1) by simp
  from split_fields [OF this] obtain f1 f2 f3 f4 f5 f6 f7 rest where
    bs: "bs = f1 @ f2 @ f3 @ f4 @ f5 @ f6 @ f7 @ rest" and
    len: "length f1 = 4" "length f2 = 4" "length f3 = 8" "length f4 = 8" "length f5 = 8"
      "length f6 = 4" "length f7 = 4"
    by (auto simp: map_eq_Cons_conv)
  from len(2) obtain a b c d where f2: "f2 = [a, b, c, d]" by (rule length_4E)
  have "bs = mvcc_layout (bs ! 5) (bs ! 6) (of_le_bytes f3) (of_le_bytes f4) (of_le_bytes f5)
      (of_le_bytes f6) (of_le_bytes f7) (drop 40 bs)"
    using assms(2-4) len by (simp add: bs f2 mvcc_layout_def nth_append)
  then show thesis by (rule that)
qed
lemma decode_owner_iff: "decode_owner kind raw = Inr ow \<longleftrightarrow> owner_fields ow = (kind, raw)"
  by (cases ow) (auto simp: decode_owner_def mvcc_consts)

lemma decode_value_iff:
  "decode_value kind (length body) body = Inr v \<longleftrightarrow> value_fields v = (kind, body)"
  by (cases v) (auto simp: decode_value_def mvcc_consts)

lemma decode_install_iff:
  "decode_install (rec_owner r) itxn iord = Inr (rec_install_identity r) \<longleftrightarrow>
     install_fields r = Inr (itxn, iord)"
  by (cases "rec_owner r"; cases "rec_install_identity r"; cases "the (rec_install_identity r)")
    (auto simp: decode_install_def install_fields_def split: if_splits)

lemma undo_field_iff:
  "(if raw \<noteq> 0 then Some raw else None) = u \<longleftrightarrow> undo_field u = raw \<and> u \<noteq> Some 0"
  by (cases u) (auto simp: undo_field_def)

lemma mvcc_from_bytes_accepts:
  assumes "mvcc_from_bytes bs = Inr r"
  shows "40 \<le> length bs" "take 4 bs = RECORD_MAGIC" "bs ! 4 = RECORD_VERSION" "bs ! 7 = 0"
  using assms by (auto simp: mvcc_from_bytes_def RECORD_HEADER_SIZE_def split: if_splits)

lemma mvcc_from_bytes_layout_iff:
  "mvcc_from_bytes (mvcc_layout ok vk owner undo itxn iord vlen body) = Inr r \<longleftrightarrow>
     owner \<noteq> 0 \<and> owner_fields (rec_owner r) = (ok, owner) \<and> install_fields r = Inr (itxn, iord) \<and>
     unat vlen = length body \<and> value_fields (rec_value r) = (vk, body) \<and>
     undo_field (rec_undo_head r) = undo \<and> rec_undo_head r \<noteq> Some 0"
  unfolding mvcc_from_bytes_layout decode_owner_iff [symmetric] decode_install_iff [symmetric]
    decode_value_iff [symmetric] undo_field_iff [symmetric]
  by (cases r) auto

lemma mvcc_codec_exact:
  "mvcc_from_bytes bs = Inr r \<longleftrightarrow> mvcc_to_bytes r = Inr bs \<and> rec_undo_head r \<noteq> Some 0"
proof
  assume dec: "mvcc_from_bytes bs = Inr r"
  obtain owner undo itxn iord vlen where
    bs: "bs = mvcc_layout (bs ! 5) (bs ! 6) owner undo itxn iord vlen (drop 40 bs)"
    using mvcc_layout_complete [OF mvcc_from_bytes_accepts [OF dec]] .
  have fields: "owner \<noteq> 0 \<and> owner_fields (rec_owner r) = (bs ! 5, owner) \<and>
      install_fields r = Inr (itxn, iord) \<and> unat vlen = length (drop 40 bs) \<and>
      value_fields (rec_value r) = (bs ! 6, drop 40 bs) \<and>
      undo_field (rec_undo_head r) = undo \<and> rec_undo_head r \<noteq> Some 0"
    unfolding mvcc_from_bytes_layout_iff [symmetric] using dec by (simp flip: bs)
  then have "vlen = of_nat (length (drop 40 bs))" "length (drop 40 bs) < 2 ^ 32"
    using unat_u32_bound [of vlen] by (simp_all add: word_eq_of_nat)
  then show "mvcc_to_bytes r = Inr bs \<and> rec_undo_head r \<noteq> Some 0"
    using fields bs unfolding mvcc_to_bytes_layout by blast
next
  assume "mvcc_to_bytes r = Inr bs \<and> rec_undo_head r \<noteq> Some 0"
  then show "mvcc_from_bytes bs = Inr r"
    by (auto simp: mvcc_to_bytes_layout mvcc_from_bytes_layout_iff unat_of_nat take_bit_eq_mod)
qed

interpretation mvcc_codec: byte_codec mvcc_to_bytes mvcc_from_bytes "\<lambda>r. rec_undo_head r \<noteq> Some 0"
  by unfold_locales (rule mvcc_codec_exact)

section \<open>The status table as one map\<close>

text \<open>
  The operations read and write one shard; \<open>status_of\<close> reads the table as one map from
  transactions to statuses.
\<close>

abbreviation status_of :: "TransactionStatusTable \<Rightarrow> TxnId \<rightharpoonup> TransactionStatus" where
  "status_of \<equiv> sm_get status_shard"

abbreviation status_lost :: "TransactionStatusTable \<Rightarrow> TxnId \<Rightarrow> bool" where
  "status_lost \<equiv> sm_poisoned status_shard"

lemma status_shard_bound: "status_shard txn < STATUS_SHARDS"
proof -
  have "txn AND 63 \<le> 63" by (rule word_and_le1)
  then show ?thesis by (simp add: status_shard_def STATUS_SHARDS_def word_le_nat_alt)
qed

lemma status_transition_eq [step_simps]:
  "status_transition t txn next_status =
     (if txn = 0 then (Inl Status_ReservedTxn, t)
      else if status_lost t txn then (Inl (Status_Poisoned (status_shard txn)), t)
      else case status_of t txn of
          None \<Rightarrow> (Inl (Status_UnknownTxn txn), t)
        | Some status \<Rightarrow>
            if status \<noteq> Active then (Inl (Status_InvalidTransition txn status next_status), t)
            else (Inr (), sm_set status_shard txn (Some next_status) t))"
  by (simp add: status_transition_def sm_get_def sm_poisoned_def Let_def)

lemma status_begin_eq [step_simps]:
  "status_begin t txn =
     (if txn = 0 then (Inl Status_ReservedTxn, t)
      else if status_lost t txn then (Inl (Status_Poisoned (status_shard txn)), t)
      else if status_of t txn \<noteq> None then (Inl (Status_DuplicateTxn txn), t)
      else (Inr (), sm_set status_shard txn (Some Active) t))"
  by (auto simp: status_begin_def sm_get_def sm_poisoned_def Let_def dom_def)

lemma status_recover_eq [step_simps]:
  "status_recover t txn recovered =
     (if status_lost t txn then (Inl (Status_Poisoned (status_shard txn)), t)
      else case status_of t txn of
        None \<Rightarrow> (Inr (), sm_set status_shard txn (Some recovered) t)
      | Some existing \<Rightarrow>
          if existing = recovered then (Inr (), t)
          else (Inl (Status_ConflictingRecovery txn existing recovered), t))"
  by (simp add: status_recover_def sm_get_def sm_poisoned_def Let_def)

lemma status_status_eq [step_simps]:
  "status_status t txn =
     (if status_lost t txn then Inl (Status_Poisoned (status_shard txn))
      else Inr (status_of t txn))"
  by (simp add: status_status_def sm_get_def sm_poisoned_def Let_def)

lemmas status_ops = status_commit_def status_abort_def status_recover_committed_def
  status_recover_aborted_def step_simps

text \<open>A failing call leaves the table as it was, and no call poisons a shard.\<close>

lemma status_call_error: "status_call c t = (Inl e, t') \<Longrightarrow> t' = t"
  by (cases c) (auto simp: status_ops split: if_splits option.splits)

lemma status_call_lost [simp]: "status_lost (snd (status_call c t)) txn = status_lost t txn"
  by (cases c) (auto simp: status_ops split: option.splits)

lemma status_run_Nil [simp]: "status_run [] t = t"
  by (simp add: status_run_def)

lemma status_run_Cons [simp]: "status_run (c # cs) t = status_run cs (snd (status_call c t))"
  by (simp add: status_run_def)

lemma status_run_lost [simp]: "status_lost (status_run cs t) txn = status_lost t txn"
  by (induction cs arbitrary: t) auto

text \<open>
  How the status of one transaction may change: it is registered, by a live begin or by recovery,
  and an active one is decided.  A decision is final.
\<close>

inductive status_evolves :: "TransactionStatus option \<Rightarrow> TransactionStatus option \<Rightarrow> bool" where
  keep: "status_evolves s s"
| register: "status_evolves None (Some s)"
| decide: "status_evolves (Some Active) (Some s)"

inductive_simps status_evolves_from_Some: "status_evolves (Some d) s"
inductive_cases status_evolves_cases: "status_evolves s s'"

lemma status_evolves_trans: "status_evolves a b \<Longrightarrow> status_evolves b c \<Longrightarrow> status_evolves a c"
  by (auto elim!: status_evolves_cases intro: status_evolves.intros)

lemma status_call_evolves: "status_evolves (status_of t txn) (status_of (snd (status_call c t)) txn)"
  by (cases c)
    (auto simp: status_ops intro: status_evolves.intros split: option.splits)

lemma status_run_evolves: "status_evolves (status_of t txn) (status_of (status_run cs t) txn)"
proof (induction cs arbitrary: t)
  case Nil
  then show ?case by (simp add: status_evolves.keep)
next
  case (Cons c cs)
  then show ?case
    using status_evolves_trans [OF status_call_evolves [of t txn c]] by simp
qed

text \<open>The commit sequences that a history may publish.\<close>

fun call_csn :: "StatusCall \<Rightarrow> CommitSeq option" where
  "call_csn (Call_commit txn csn) = Some csn"
| "call_csn (Call_recover_committed txn csn) = Some csn"
| "call_csn _ = None"

lemma status_call_new_csn:
  assumes "status_of (snd (status_call c t)) txn = Some (Committed csn)"
    and "status_of t txn \<noteq> Some (Committed csn)"
  shows "call_csn c = Some csn"
  using assms by (cases c) (auto simp: status_ops split: if_splits option.splits)

text \<open>A snapshot accepts an owner when its status is a commit at or below the snapshot.\<close>

definition accepts :: "TransactionStatus option \<Rightarrow> CommitSeq \<Rightarrow> bool" where
  "accepts s snapshot = (case s of Some (Committed csn) \<Rightarrow> csn \<le> snapshot | _ \<Rightarrow> False)"

lemma accepts_call:
  assumes "\<forall>csn. call_csn c = Some csn \<longrightarrow> snapshot < csn"
  shows "accepts (status_of (snd (status_call c t)) txn) snapshot = accepts (status_of t txn) snapshot"
proof (cases "status_of (snd (status_call c t)) txn = status_of t txn")
  case False
  have "\<not> accepts (status_of t txn) snapshot"
    using status_call_evolves [of t txn c] False
    by (auto simp: accepts_def status_evolves_from_Some split: option.splits TransactionStatus.splits)
  moreover have "\<not> accepts (status_of (snd (status_call c t)) txn) snapshot"
    using False assms status_call_new_csn [of c t txn]
    by (force simp: accepts_def split: option.splits TransactionStatus.splits)
  ultimately show ?thesis by simp
qed simp

lemma accepts_run:
  assumes "\<forall>c \<in> set cs. \<forall>csn. call_csn c = Some csn \<longrightarrow> snapshot < csn"
  shows "accepts (status_of (status_run cs t) txn) snapshot = accepts (status_of t txn) snapshot"
  using assms by (induction cs arbitrary: t) (auto simp: accepts_call)

lemma status_visibility_accepts:
  assumes "reader \<noteq> Some txn"
  shows "status_visibility t (Transaction txn) reader snapshot = Inr Vis_Visible \<longleftrightarrow>
    \<not> status_lost t txn \<and> accepts (status_of t txn) snapshot"
  using assms
  by (auto simp: status_visibility_def step_simps accepts_def
      split: if_splits option.splits TransactionStatus.splits)

lemma status_visibility_defined:
  "(\<exists>v. status_visibility t (Transaction txn) reader snapshot = Inr v) \<longleftrightarrow>
    reader = Some txn \<or> (\<not> status_lost t txn \<and> status_of t txn \<noteq> None)"
  by (cases "status_of t txn"; cases "the (status_of t txn)")
    (auto simp: status_visibility_def step_simps)

section \<open>The contract of a status authority\<close>

text \<open>
  What the visibility frontier relies on: statuses only evolve, and a successful live or recovered
  commit leaves the transaction committed at the given sequence.
\<close>

locale status_authority =
  fixes get :: "'t \<Rightarrow> TxnId \<Rightarrow> TransactionStatus option"
    and call :: "StatusCall \<Rightarrow> 't \<Rightarrow> ('e + unit) \<times> 't"
  assumes call_evolves: "status_evolves (get t txn) (get (snd (call c t)) txn)"
    and commit_published: "call (Call_commit txn csn) t = (Inr u, t') \<Longrightarrow> get t' txn = Some (Committed csn)"
    and recovered_published:
      "call (Call_recover_committed txn csn) t = (Inr u, t') \<Longrightarrow> get t' txn = Some (Committed csn)"
begin

lemma committed_stays:
  "get t txn = Some (Committed csn) \<Longrightarrow> get (snd (call c t)) txn = Some (Committed csn)"
  using call_evolves [of t txn c] by (simp add: status_evolves_from_Some)

lemma published:
  assumes "call c t = (Inr u, t')" "call_csn c = Some csn"
  shows "\<exists>txn. get t' txn = Some (Committed csn)"
  using assms by (cases c) (fastforce dest: commit_published recovered_published)+

lemma published_stays:
  assumes "\<exists>txn. get t txn = Some (Committed csn)"
  shows "\<exists>txn. get (snd (call c t)) txn = Some (Committed csn)"
  using assms committed_stays by blast

end

interpretation status_table: status_authority status_of status_call
proof
  show "status_evolves (status_of t txn) (status_of (snd (status_call c t)) txn)" for t txn c
    by (rule status_call_evolves)
  show "status_call (Call_commit txn csn) t = (Inr u, t') \<Longrightarrow> status_of t' txn = Some (Committed csn)"
    for txn csn t u t'
    by (auto simp: status_ops split: if_splits option.splits)
  show "status_call (Call_recover_committed txn csn) t = (Inr u, t') \<Longrightarrow>
      status_of t' txn = Some (Committed csn)" for txn csn t u t'
    by (auto simp: status_ops split: if_splits option.splits)
qed

section \<open>An abstract status map\<close>

text \<open>
  The specification of the table: a map from transactions to statuses with the five calls on it.
  Poison does not occur in it; the refinement is stated for tables without a poisoned shard.
\<close>

definition decide_spec ::
  "TxnId \<Rightarrow> TransactionStatus \<Rightarrow> (TxnId \<rightharpoonup> TransactionStatus) \<Rightarrow> (TxnId \<rightharpoonup> TransactionStatus) option" where
  "decide_spec txn s m = (if txn \<noteq> 0 \<and> m txn = Some Active then Some (m(txn \<mapsto> s)) else None)"

definition recover_spec ::
  "TxnId \<Rightarrow> TransactionStatus \<Rightarrow> (TxnId \<rightharpoonup> TransactionStatus) \<Rightarrow> (TxnId \<rightharpoonup> TransactionStatus) option" where
  "recover_spec txn s m = (if txn \<noteq> 0 \<and> m txn \<in> {None, Some s} then Some (m(txn \<mapsto> s)) else None)"

fun call_spec ::
  "StatusCall \<Rightarrow> (TxnId \<rightharpoonup> TransactionStatus) \<Rightarrow> (TxnId \<rightharpoonup> TransactionStatus) option" where
  "call_spec (Call_begin txn) m = (if txn \<noteq> 0 \<and> m txn = None then Some (m(txn \<mapsto> Active)) else None)"
| "call_spec (Call_commit txn csn) m = (if csn \<noteq> 0 then decide_spec txn (Committed csn) m else None)"
| "call_spec (Call_abort txn) m = decide_spec txn Aborted m"
| "call_spec (Call_recover_committed txn csn) m =
     (if csn \<noteq> 0 then recover_spec txn (Committed csn) m else None)"
| "call_spec (Call_recover_aborted txn) m = recover_spec txn Aborted m"

section \<open>Properties\<close>

text \<open>
  C1.  The MVCC record codec is exact: \<open>from_bytes\<close> accepts a byte string exactly when it is the
  encoding that \<open>to_bytes\<close> gives of a record whose undo link is not the reserved version 0, and it
  returns that record.  So decoding inverts encoding, every accepted byte string is canonical, and
  everything else is rejected.
\<close>
theorem mvcc_record_codec_exact:
  "mvcc_from_bytes bs = Inr r \<longleftrightarrow> mvcc_to_bytes r = Inr bs \<and> rec_undo_head r \<noteq> Some 0"
  by (rule mvcc_codec.exact)

text \<open>
  C17.  The 64-shard status table refines one abstract map of statuses: for a table with no poisoned
  shard every call succeeds exactly when the abstract call is defined, the table then reads as
  the abstract result, and a rejected call leaves the table unchanged.
\<close>
theorem status_table_refines_map:
  assumes "\<And>i. \<not> poisoned (t i)"
  shows "case call_spec c (status_of t) of
      None \<Rightarrow> \<exists>e. status_call c t = (Inl e, t)
    | Some m \<Rightarrow> \<exists>t'. status_call c t = (Inr (), t') \<and> status_of t' = m \<and> (\<forall>i. \<not> poisoned (t' i))"
proof -
  have "\<not> status_lost t txn" for txn
    using assms by (simp add: sm_poisoned_def)
  moreover have "\<not> poisoned (sm_set status_shard k v t i)" for k v i
    using assms by (simp add: sm_set_def)
  moreover have "status_of t txn = v \<Longrightarrow> (status_of t)(txn := v) = status_of t" for txn v
    by auto
  ultimately show ?thesis
    using assms
    by (cases c) (auto simp: status_ops decide_spec_def recover_spec_def sm_get_set_fun
        split: option.splits)
qed

theorem status_table_refines_map_witness:
  "\<exists>t'. status_call (Call_begin 7) status_new = (Inr (), t') \<and> status_of t' = [7 \<mapsto> Active] \<and>
     (\<forall>i. \<not> poisoned (t' i))"
  using status_table_refines_map [of status_new "Call_begin 7"]
  by (simp add: status_new_def)

text \<open>
  C18.  A published decision is final: once \<open>status\<close> answers committed or aborted for a
  transaction, it gives the same answer after any sequence of begin, commit, abort and recovery
  calls, whatever transactions and commit sequences they name.
\<close>
theorem status_decision_final:
  assumes "status_status t txn = Inr (Some d)" "d \<noteq> Active"
  shows "status_status (status_run calls t) txn = Inr (Some d)"
  using assms status_run_evolves [of t txn calls]
  by (auto simp: step_simps status_evolves_from_Some split: if_splits)

theorem status_decision_final_witness:
  "let t = status_run [Call_begin 7, Call_commit 7 3] status_new in
   status_status (status_run [Call_abort 7, Call_commit 7 9, Call_recover_aborted 7] t) 7 =
     Inr (Some (Committed 3))"
  unfolding Let_def by (rule status_decision_final; code_simp)

text \<open>
  C19.  One status publication changes the visibility of all records of the transaction at once
  and of nothing else: before a successful commit every other reader sees the owner as active;
  after it, exactly the snapshots at or above the commit sequence see it, and the verdict for
  every other owner is unchanged.
\<close>
theorem status_commit_atomic_visibility:
  assumes "status_commit t txn csn = (Inr (), t')" "reader \<noteq> Some txn"
  shows "status_visibility t (Transaction txn) reader snapshot = Inr Vis_Active \<and>
    status_visibility t' (Transaction txn) reader snapshot =
      Inr (if csn \<le> snapshot then Vis_Visible else Vis_NewerCommit csn) \<and>
    (\<forall>owner reader'. owner \<noteq> Transaction txn \<longrightarrow>
      status_visibility t' owner reader' snapshot = status_visibility t owner reader' snapshot)"
  using assms
  by (auto simp: status_ops status_visibility_def split: if_splits option.splits RecordOwner.splits)

theorem status_commit_atomic_visibility_witness:
  "let t = status_run [Call_begin 7, Call_begin 8] status_new; t' = status_run [Call_commit 7 3] t in
   status_visibility t (Transaction 7) None 5 = Inr Vis_Active \<and>
   status_visibility t' (Transaction 7) None 5 = Inr Vis_Visible \<and>
   status_visibility t' (Transaction 8) None 5 = status_visibility t (Transaction 8) None 5"
proof -
  define t where "t = status_run [Call_begin 7, Call_begin 8] status_new"
  have 1: "status_commit t 7 3 = (Inr (), snd (status_commit t 7 3))"
    unfolding t_def by (simp add: status_ops status_new_def)
  show ?thesis
    using status_commit_atomic_visibility [OF 1, of None 5] by (simp add: t_def)
qed

text \<open>
  C4.  Snapshots are stable: whatever calls run, as long as the commits among them have sequences
  above the snapshot, a reader at that snapshot gets an answer for every owner it got one for, and
  the owner is visible after the calls exactly when it was visible before.
\<close>
theorem snapshot_stable_under_later_commits:
  assumes "status_visibility t owner reader snapshot = Inr v"
    and "\<forall>c \<in> set calls. \<forall>csn. call_csn c = Some csn \<longrightarrow> snapshot < csn"
  shows "\<exists>v'. status_visibility (status_run calls t) owner reader snapshot = Inr v' \<and>
    (v' = Vis_Visible \<longleftrightarrow> v = Vis_Visible)"
proof (cases owner)
  case (Frozen csn)
  then show ?thesis using assms(1) by (simp add: status_visibility_def)
next
  case (Transaction txn)
  show ?thesis
  proof (cases "reader = Some txn")
    case True
    then show ?thesis using assms(1) Transaction by (simp add: status_visibility_def)
  next
    case False
    have "status_of t txn \<noteq> None" "\<not> status_lost t txn"
      using assms(1) status_visibility_defined [of t txn reader snapshot] False Transaction by auto
    then have "\<exists>v'. status_visibility (status_run calls t) owner reader snapshot = Inr v'"
      using status_run_evolves [of t txn calls] Transaction
      by (auto simp: status_visibility_defined status_evolves_from_Some)
    moreover have "status_visibility (status_run calls t) owner reader snapshot = Inr Vis_Visible \<longleftrightarrow>
        status_visibility t owner reader snapshot = Inr Vis_Visible"
      using Transaction status_visibility_accepts [OF False] accepts_run [OF assms(2)] by simp
    ultimately show ?thesis using assms(1) by auto
  qed
qed

theorem snapshot_stable_under_later_commits_witness:
  "let t = status_run [Call_begin 7, Call_begin 8, Call_commit 8 2] status_new in
   \<exists>v'. status_visibility (status_run [Call_commit 7 6, Call_begin 9] t) (Transaction 7) None 5 = Inr v' \<and>
     (v' = Vis_Visible \<longleftrightarrow> Vis_Active = Vis_Visible)"
  unfolding Let_def
  by (rule snapshot_stable_under_later_commits) (simp_all add: status_ops status_visibility_def status_new_def)

end
