(* ===== verification/Frame_Stream.thy ===== *)
theory Frame_Stream
  imports Prelude
begin

text \<open>
  The contract of an append-only file of self-delimiting frames and the parser that reads it: what
  the parser does at one frame, at the end, and at a frame that was cut short.  From it follows
  what it does on a whole file.  The state \<open>'s\<close> is what the parser carries from frame to frame (the
  next expected identity in the undo file; nothing in the log).
\<close>

primrec encode_all :: "('s \<Rightarrow> 'r \<Rightarrow> 'b list option) \<Rightarrow> ('s \<Rightarrow> 'r \<Rightarrow> 's) \<Rightarrow> 's \<Rightarrow> 'r list \<Rightarrow> 'b list option" where
  "encode_all enc adv s [] = Some []"
| "encode_all enc adv s (r # rs) =
     Option.bind (enc s r) (\<lambda>f. map_option (\<lambda>fs. f @ fs) (encode_all enc adv (adv s r) rs))"

primrec placed :: "('s \<Rightarrow> 'r \<Rightarrow> 'b list option) \<Rightarrow> ('s \<Rightarrow> 'r \<Rightarrow> 's) \<Rightarrow> ('r \<Rightarrow> nat \<Rightarrow> 'p) \<Rightarrow> 's \<Rightarrow> nat \<Rightarrow> 'r list \<Rightarrow> 'p list" where
  "placed enc adv mk s offset [] = []"
| "placed enc adv mk s offset (r # rs) =
     (let e = offset + length (the (enc s r)) in mk r e # placed enc adv mk (adv s r) e rs)"

lemma encode_all_append:
  "encode_all enc adv s (rs @ rs') =
     Option.bind (encode_all enc adv s rs) (\<lambda>fs.
       map_option (\<lambda>fs'. fs @ fs') (encode_all enc adv (fold (\<lambda>r s. adv s r) rs s) rs'))"
  by (induction rs arbitrary: s)
    (auto simp: map_option_case split: bind_splits option.splits)

lemma length_placed [simp]: "length (placed enc adv mk s offset rs) = length rs"
  by (induction rs arbitrary: s offset) (auto simp: Let_def)

lemma map_placed:
  assumes "\<And>r e. g (mk r e) = r"
  shows "map g (placed enc adv mk s offset rs) = rs"
  using assms by (induction rs arbitrary: s offset) (auto simp: Let_def)

lemma encode_all_nth:
  assumes "encode_all enc adv s (as @ r # bs) = Some fs"
  shows "\<exists>f1 f f2. fs = f1 @ f @ f2 \<and> encode_all enc adv s as = Some f1 \<and>
    enc (fold (\<lambda>r s. adv s r) as s) r = Some f \<and>
    placed enc adv mk s offset (as @ r # bs) ! length as = mk r (offset + length f1 + length f)"
  using assms
proof (induction as arbitrary: s fs offset)
  case Nil
  then show ?case by (auto simp: bind_eq_Some_conv Let_def)
next
  case (Cons a as)
  then obtain g gs where g: "enc s a = Some g" "encode_all enc adv (adv s a) (as @ r # bs) = Some gs" "fs = g @ gs"
    by (auto simp: bind_eq_Some_conv)
  from Cons.IH [OF g(2), of "offset + length g"] obtain f1 f f2 where
    "gs = f1 @ f @ f2" "encode_all enc adv (adv s a) as = Some f1" "enc (fold (\<lambda>r s. adv s r) as (adv s a)) r = Some f"
    "placed enc adv mk (adv s a) (offset + length g) (as @ r # bs) ! length as = mk r (offset + length g + length f1 + length f)"
    by blast
  then have "fs = (g @ f1) @ f @ f2 \<and> encode_all enc adv s (a # as) = Some (g @ f1) \<and>
      enc (fold (\<lambda>r s. adv s r) (a # as) s) r = Some f \<and>
      placed enc adv mk s offset ((a # as) @ r # bs) ! length (a # as) = mk r (offset + length (g @ f1) + length f)"
    using g by (simp add: Let_def add.assoc)
  then show ?case by blast
qed

lemma placed_append:
  assumes "encode_all enc adv s rs = Some fs"
  shows "placed enc adv mk s offset (rs @ rs') =
    placed enc adv mk s offset rs @ placed enc adv mk (fold (\<lambda>r s. adv s r) rs s) (offset + length fs) rs'"
  using assms
  by (induction rs arbitrary: s fs offset) (auto simp: bind_eq_Some_conv Let_def add.assoc)

locale frame_stream =
  fixes enc :: "'s \<Rightarrow> 'r \<Rightarrow> 'b list option"
    and adv :: "'s \<Rightarrow> 'r \<Rightarrow> 's"
    and mk :: "'r \<Rightarrow> nat \<Rightarrow> 'p"
    and parse :: "'s \<Rightarrow> 'b list \<Rightarrow> nat \<Rightarrow> 'p list \<times> 'st"
    and complete :: 'st
    and torn :: 'st
    and limit :: nat
  assumes parse_end: "parse s bs (length bs) = ([], complete)"
    and parse_frame: "enc s r = Some f \<Longrightarrow> length (xs @ f @ ys) < limit \<Longrightarrow>
      parse s (xs @ f @ ys) (length xs) =
        (let (ps, st) = parse (adv s r) (xs @ f @ ys) (length xs + length f)
         in (mk r (length xs + length f) # ps, st))"
    and parse_torn: "enc s r = Some f \<Longrightarrow> 0 < n \<Longrightarrow> n < length f \<Longrightarrow>
      length (xs @ take n f) < limit \<Longrightarrow> parse s (xs @ take n f) (length xs) = ([], torn)"
begin

lemma parse_frames:
  assumes "encode_all enc adv s rs = Some fs" "length (xs @ fs @ ys) < limit"
  shows "parse s (xs @ fs @ ys) (length xs) =
    (let (ps, st) = parse (fold (\<lambda>r s. adv s r) rs s) (xs @ fs @ ys) (length xs + length fs)
     in (placed enc adv mk s (length xs) rs @ ps, st))"
  using assms
proof (induction rs arbitrary: s xs fs)
  case Nil
  then show ?case by simp
next
  case (Cons r rs)
  from Cons.prems(1) obtain f gs where f: "enc s r = Some f" "fs = f @ gs"
    and gs: "encode_all enc adv (adv s r) rs = Some gs"
    by (auto simp: bind_eq_Some_conv)
  have "parse (adv s r) ((xs @ f) @ gs @ ys) (length (xs @ f)) =
      (let (ps, st) = parse (fold (\<lambda>r s. adv s r) rs (adv s r)) ((xs @ f) @ gs @ ys)
         (length (xs @ f) + length gs)
       in (placed enc adv mk (adv s r) (length (xs @ f)) rs @ ps, st))"
    by (rule Cons.IH [OF gs]) (use Cons.prems(2) f in simp)
  then show ?case
    using parse_frame [OF f(1), of xs "gs @ ys"] Cons.prems(2) f
    by (simp add: Let_def add.assoc split: prod.splits)
qed

lemma parse_all:
  assumes "encode_all enc adv s rs = Some fs" "length (xs @ fs) < limit"
  shows "parse s (xs @ fs) (length xs) = (placed enc adv mk s (length xs) rs, complete)"
  using parse_frames [of s rs fs xs "[]"] assms
    parse_end [of _ "xs @ fs"] by simp

lemma parse_all_torn:
  assumes "encode_all enc adv s rs = Some fs" "enc (fold (\<lambda>r s. adv s r) rs s) r = Some f"
    and "0 < n" "n < length f" "length (xs @ fs @ take n f) < limit"
  shows "parse s (xs @ fs @ take n f) (length xs) = (placed enc adv mk s (length xs) rs, torn)"
  using parse_frames [OF assms(1), of xs "take n f"] assms(5)
    parse_torn [OF assms(2-4), of "xs @ fs"] by simp

end

end
