(* ===== verification/Log.thy ===== *)
theory Log
  imports Frame_Stream Ids
begin

text \<open>
  Model of \<open>crates/seerdb/src/vnext/log.rs\<close>: the framing of logical WAL records, the mutation and
  commit payload codecs, the transaction digest, and the parser that reads a log prefix frame by
  frame and classifies what follows the last complete record.  The CRC32C function belongs to an
  external crate; it is the parameter \<open>crc\<close>, and nothing is assumed about it.
\<close>

datatype LogParseStatus = Parse_Complete | Parse_Incomplete | Parse_Corrupt

datatype MutationKind = OrderedPut | OrderedDelete

record LoggedMutation =
  lm_txn_id :: TxnId
  lm_ordinal :: u32
  lm_object :: StorageObjectId
  lm_kind :: MutationKind
  lm_key :: bytes
  lm_value :: bytes

definition ordered_put ::
  "TxnId \<Rightarrow> u32 \<Rightarrow> StorageObjectId \<Rightarrow> bytes \<Rightarrow> bytes \<Rightarrow> LoggedMutation" where
  "ordered_put txn_id ordinal object key v =
     \<lparr>lm_txn_id = txn_id, lm_ordinal = ordinal, lm_object = object, lm_kind = OrderedPut,
      lm_key = key, lm_value = v\<rparr>"

definition ordered_delete ::
  "TxnId \<Rightarrow> u32 \<Rightarrow> StorageObjectId \<Rightarrow> bytes \<Rightarrow> LoggedMutation" where
  "ordered_delete txn_id ordinal object key =
     \<lparr>lm_txn_id = txn_id, lm_ordinal = ordinal, lm_object = object, lm_kind = OrderedDelete,
      lm_key = key, lm_value = []\<rparr>"

record CommitDecision =
  cd_txn_id :: TxnId
  cd_csn :: CommitSeq
  cd_mutation_count :: u32
  cd_mutation_digest :: u32

datatype LogRecord = Mutation LoggedMutation | Commit CommitDecision | Abort TxnId

record ParsedLogRecord =
  pl_record :: LogRecord
  pl_end_offset :: u64

datatype LogEncodeError = RecordTooLarge

definition LOG_FORMAT_VERSION :: u16 where "LOG_FORMAT_VERSION = 2"
definition HEADER_CHECKSUM_OFFSET :: nat where "HEADER_CHECKSUM_OFFSET = 8"
definition LOG_RECORD_HEADER_SIZE :: nat where "LOG_RECORD_HEADER_SIZE = 12"
definition RECORD_TRAILER_SIZE :: nat where "RECORD_TRAILER_SIZE = 4"
definition MIN_RECORD_LENGTH :: nat where
  "MIN_RECORD_LENGTH = LOG_RECORD_HEADER_SIZE - 4 + RECORD_TRAILER_SIZE"
definition MUTATION_FIXED_PAYLOAD :: nat where
  "MUTATION_FIXED_PAYLOAD = 8 + 4 + 8 + 1 + 4 + 4"

lemmas log_consts = LOG_FORMAT_VERSION_def HEADER_CHECKSUM_OFFSET_def LOG_RECORD_HEADER_SIZE_def
  RECORD_TRAILER_SIZE_def MIN_RECORD_LENGTH_def MUTATION_FIXED_PAYLOAD_def

fun mutation_kind_code :: "MutationKind \<Rightarrow> u8" where
  "mutation_kind_code OrderedPut = 1"
| "mutation_kind_code OrderedDelete = 2"

definition end_lsn :: "ParsedLogRecord \<Rightarrow> u64 \<Rightarrow> u64 \<Rightarrow> Lsn option" where
  "end_lsn p segment base_offset =
     (case checked_add_u64 base_offset (pl_end_offset p) of
        None \<Rightarrow> None
      | Some offset \<Rightarrow> lsn_from_wal_position segment offset)"

definition encode_mutation_payload :: "LoggedMutation \<Rightarrow> LogEncodeError + bytes" where
  "encode_mutation_payload m =
     rbind (ok_or RecordTooLarge (u32_try_from (length (lm_key m)))) (\<lambda>key_len.
     rbind (ok_or RecordTooLarge (u32_try_from (length (lm_value m)))) (\<lambda>value_len.
     if lm_kind m = OrderedDelete \<and> value_len \<noteq> 0 then Inl RecordTooLarge
     else rbind (ok_or RecordTooLarge
        (case checked_add_usize MUTATION_FIXED_PAYLOAD (length (lm_key m)) of
           None \<Rightarrow> None
         | Some n \<Rightarrow> checked_add_usize n (length (lm_value m)))) (\<lambda>_.
     Inr (le_bytes 8 (lm_txn_id m) @ le_bytes 4 (lm_ordinal m) @ le_bytes 8 (lm_object m)
          @ [mutation_kind_code (lm_kind m)] @ le_bytes 4 key_len @ le_bytes 4 value_len
          @ lm_key m @ lm_value m))))"

definition encode_commit_payload :: "CommitDecision \<Rightarrow> bytes" where
  "encode_commit_payload d =
     le_bytes 8 (cd_txn_id d) @ le_bytes 8 (cd_csn d) @ le_bytes 4 (cd_mutation_count d)
     @ le_bytes 4 (cd_mutation_digest d)"

fun record_payload :: "LogRecord \<Rightarrow> LogEncodeError + u8 \<times> bytes" where
  "record_payload (Mutation m) = rbind (encode_mutation_payload m) (\<lambda>p. Inr (1, p))"
| "record_payload (Commit d) = Inr (2, encode_commit_payload d)"
| "record_payload (Abort txn) = Inr (3, le_bytes 8 txn)"

definition log_to_bytes :: "(bytes \<Rightarrow> u32) \<Rightarrow> LogRecord \<Rightarrow> LogEncodeError + bytes" where
  "log_to_bytes crc r =
     rbind (record_payload r) (\<lambda>(kind, payload).
     rbind (ok_or RecordTooLarge
        (case checked_add_usize (LOG_RECORD_HEADER_SIZE - 4) (length payload) of
           None \<Rightarrow> None
         | Some n \<Rightarrow> checked_add_usize n RECORD_TRAILER_SIZE)) (\<lambda>len.
     rbind (ok_or RecordTooLarge (u32_try_from len)) (\<lambda>length_u32.
     rbind (ok_or RecordTooLarge (checked_add_usize 4 len)) (\<lambda>_.
     let prefix = le_bytes 4 length_u32 @ le_bytes 2 LOG_FORMAT_VERSION @ [kind, 0];
         body = prefix @ le_bytes 4 (crc prefix) @ payload
     in Inr (body @ le_bytes 4 (crc body))))))"

fun mutation_payloads :: "LoggedMutation list \<Rightarrow> LogEncodeError + bytes" where
  "mutation_payloads [] = Inr []"
| "mutation_payloads (m # ms) =
     rbind (encode_mutation_payload m) (\<lambda>payload.
     rbind (mutation_payloads ms) (\<lambda>rest. Inr (payload @ rest)))"

definition mutation_digest ::
  "(bytes \<Rightarrow> u32) \<Rightarrow> LoggedMutation list \<Rightarrow> LogEncodeError + u32" where
  "mutation_digest crc ms = rbind (mutation_payloads ms) (\<lambda>canonical. Inr (crc canonical))"

definition valid_record_header :: "(bytes \<Rightarrow> u32) \<Rightarrow> bytes \<Rightarrow> bool" where
  "valid_record_header crc header =
     (if length header \<noteq> LOG_RECORD_HEADER_SIZE then False
      else if of_le_bytes [header ! 4, header ! 5] \<noteq> LOG_FORMAT_VERSION \<or> header ! 7 \<noteq> 0
              \<or> \<not> (1 \<le> header ! 6 \<and> header ! 6 \<le> 3) then False
      else read_u32 header HEADER_CHECKSUM_OFFSET =
             Some (crc (take HEADER_CHECKSUM_OFFSET header)))"

definition decode_mutation_payload :: "bytes \<Rightarrow> LoggedMutation option" where
  "decode_mutation_payload p =
     (if length p < MUTATION_FIXED_PAYLOAD then None
      else Option.bind (read_u64 p 0) (\<lambda>txn_id.
        Option.bind (read_u32 p 8) (\<lambda>ordinal.
        Option.bind (read_u64 p 12) (\<lambda>object.
        Option.bind (get_at p 20) (\<lambda>kind_byte.
        Option.bind (if kind_byte = 1 then Some OrderedPut
                     else if kind_byte = 2 then Some OrderedDelete else None) (\<lambda>kind.
        Option.bind (read_u32 p 21) (\<lambda>key_len.
        Option.bind (read_u32 p 25) (\<lambda>value_len.
        if kind = OrderedDelete \<and> unat value_len \<noteq> 0 then None
        else Option.bind (checked_add_usize MUTATION_FIXED_PAYLOAD (unat key_len)) (\<lambda>key_end.
        Option.bind (checked_add_usize key_end (unat value_len)) (\<lambda>value_end.
        if value_end \<noteq> length p then None
        else Some \<lparr>lm_txn_id = txn_id, lm_ordinal = ordinal, lm_object = object, lm_kind = kind,
                   lm_key = take (key_end - MUTATION_FIXED_PAYLOAD) (drop MUTATION_FIXED_PAYLOAD p),
                   lm_value = take (value_end - key_end) (drop key_end p)\<rparr>))))))))))"

definition decode_commit_payload :: "bytes \<Rightarrow> CommitDecision option" where
  "decode_commit_payload p =
     (if length p \<noteq> 24 then None
      else Option.bind (read_u64 p 0) (\<lambda>txn_id.
        Option.bind (read_u64 p 8) (\<lambda>csn.
        Option.bind (read_u32 p 16) (\<lambda>count.
        Option.bind (read_u32 p 20) (\<lambda>digest.
        Some \<lparr>cd_txn_id = txn_id, cd_csn = csn, cd_mutation_count = count,
              cd_mutation_digest = digest\<rparr>)))))"

definition decode_payload :: "u8 \<Rightarrow> bytes \<Rightarrow> LogRecord option" where
  "decode_payload kind payload =
     (if kind = 1 then map_option Mutation (decode_mutation_payload payload)
      else if kind = 2 then map_option Commit (decode_commit_payload payload)
      else if kind = 3 then
        Option.bind (read_u64 payload 0) (\<lambda>txn.
        if length payload = 8 then Some (Abort txn) else None)
      else None)"

definition decode_complete_record :: "(bytes \<Rightarrow> u32) \<Rightarrow> bytes \<Rightarrow> LogRecord option" where
  "decode_complete_record crc frame =
     (if length frame < LOG_RECORD_HEADER_SIZE + RECORD_TRAILER_SIZE
         \<or> \<not> valid_record_header crc (take LOG_RECORD_HEADER_SIZE frame) then None
      else let len = unat (of_le_bytes (take 4 frame) :: u32) in
        if len < MIN_RECORD_LENGTH \<or> checked_add_usize 4 len \<noteq> Some (length frame) then None
        else let payload_end = length frame - RECORD_TRAILER_SIZE in
          if of_le_bytes (drop payload_end frame) \<noteq> crc (take payload_end frame) then None
          else decode_payload (frame ! 6)
                 (take (payload_end - LOG_RECORD_HEADER_SIZE) (drop LOG_RECORD_HEADER_SIZE frame)))"

text \<open>
  The parser loop from a given offset: the records that the remaining iterations push, and the
  classification with which the loop ends.
\<close>

function parse_frames_from ::
  "(bytes \<Rightarrow> u32) \<Rightarrow> bytes \<Rightarrow> nat \<Rightarrow> ParsedLogRecord list \<times> LogParseStatus" where
  "parse_frames_from crc bs offset =
     (if offset < length bs then
        if length bs - offset < LOG_RECORD_HEADER_SIZE then ([], Parse_Incomplete)
        else let header = take LOG_RECORD_HEADER_SIZE (drop offset bs) in
          if \<not> valid_record_header crc header then ([], Parse_Corrupt)
          else let len = unat (of_le_bytes (take 4 header) :: u32) in
            if len < MIN_RECORD_LENGTH then ([], Parse_Corrupt)
            else case checked_add_usize 4 len of
              None \<Rightarrow> ([], Parse_Corrupt)
            | Some total_len \<Rightarrow>
                if length bs - offset < total_len then ([], Parse_Incomplete)
                else case checked_add_usize offset total_len of
                  None \<Rightarrow> ([], Parse_Corrupt)
                | Some e \<Rightarrow>
                    case decode_complete_record crc (take total_len (drop offset bs)) of
                      None \<Rightarrow> ([], Parse_Corrupt)
                    | Some r \<Rightarrow>
                        case u64_try_from e of
                          None \<Rightarrow> ([], Parse_Corrupt)
                        | Some end_offset \<Rightarrow>
                            let (records, status) = parse_frames_from crc bs e in
                            (\<lparr>pl_record = r, pl_end_offset = end_offset\<rparr> # records, status)
      else ([], Parse_Complete))"
  by pat_completeness auto
termination
  by (relation "measure (\<lambda>(crc, bs, offset). length bs - offset)")
    (auto simp: checked_add_usize_eq_Some log_consts)

declare parse_frames_from.simps [simp del]

definition parse_log_prefix_frames ::
  "(bytes \<Rightarrow> u32) \<Rightarrow> bytes \<Rightarrow> ParsedLogRecord list \<times> LogParseStatus" where
  "parse_log_prefix_frames crc bs = parse_frames_from crc bs 0"

definition parse_log_prefix :: "(bytes \<Rightarrow> u32) \<Rightarrow> bytes \<Rightarrow> LogRecord list \<times> LogParseStatus" where
  "parse_log_prefix crc bs =
     (let (frames, status) = parse_log_prefix_frames crc bs in (map pl_record frames, status))"

section \<open>Payload codecs\<close>

lemma encode_mutation_payload_iff:
  "encode_mutation_payload m = Inr p \<longleftrightarrow>
     length (lm_key m) < 2 ^ 32 \<and> length (lm_value m) < 2 ^ 32 \<and>
     (lm_kind m = OrderedDelete \<longrightarrow> lm_value m = []) \<and>
     p = le_bytes 8 (lm_txn_id m) @ le_bytes 4 (lm_ordinal m) @ le_bytes 8 (lm_object m)
          @ [mutation_kind_code (lm_kind m)] @ le_bytes 4 (of_nat (length (lm_key m)) :: u32)
          @ le_bytes 4 (of_nat (length (lm_value m)) :: u32) @ lm_key m @ lm_value m"
proof -
  have "(of_nat n :: u32) = 0 \<longleftrightarrow> n = 0" if "n < 2 ^ 32" for n
    using that by (simp add: word_unat_eq_iff unat_of_nat take_bit_eq_mod)
  then show ?thesis
    by (auto simp: encode_mutation_payload_def u32_try_from_eq_Some log_consts
        checked_add_usize_def split: if_splits)
qed

definition mutation_layout :: "u64 \<Rightarrow> u32 \<Rightarrow> u64 \<Rightarrow> u8 \<Rightarrow> u32 \<Rightarrow> u32 \<Rightarrow> bytes \<Rightarrow> bytes" where
  "mutation_layout txn ordinal object k key_len value_len rest =
     le_bytes 8 txn @ le_bytes 4 ordinal @ le_bytes 8 object @ [k] @ le_bytes 4 key_len
       @ le_bytes 4 value_len @ rest"

lemma mutation_layout_fields:
  "length (mutation_layout txn ordinal object k kl vl rest) = 29 + length rest"
  "read_u64 (mutation_layout txn ordinal object k kl vl rest) 0 = Some txn"
  "read_u32 (mutation_layout txn ordinal object k kl vl rest) 8 = Some ordinal"
  "read_u64 (mutation_layout txn ordinal object k kl vl rest) 12 = Some object"
  "get_at (mutation_layout txn ordinal object k kl vl rest) 20 = Some k"
  "read_u32 (mutation_layout txn ordinal object k kl vl rest) 21 = Some kl"
  "read_u32 (mutation_layout txn ordinal object k kl vl rest) 25 = Some vl"
  "drop 29 (mutation_layout txn ordinal object k kl vl rest) = rest"
  by (simp_all add: mutation_layout_def codec_simps get_at_def nth_append)

lemma mutation_layout_complete:
  assumes "29 \<le> length p"
  obtains txn ordinal object k kl vl rest where "p = mutation_layout txn ordinal object k kl vl rest"
proof -
  have "sum_list [8, 4, 8, 1, 4, 4] \<le> length p" using assms by simp
  from split_fields [OF this] obtain f1 f2 f3 f4 f5 f6 rest where
    p: "p = f1 @ f2 @ f3 @ f4 @ f5 @ f6 @ rest" and
    len: "length f1 = 8" "length f2 = 4" "length f3 = 8" "length f5 = 4" "length f6 = 4"
    and "length f4 = 1"
    by (auto simp: map_eq_Cons_conv)
  then obtain k where "f4 = [k]" by (auto simp: length_Suc_conv)
  then have "p = mutation_layout (of_le_bytes f1) (of_le_bytes f2) (of_le_bytes f3) k
      (of_le_bytes f5) (of_le_bytes f6) rest"
    by (simp add: p mutation_layout_def len)
  then show thesis by (rule that)
qed

lemma decode_mutation_layout_iff:
  "decode_mutation_payload (mutation_layout txn ordinal object k kl vl rest) = Some m \<longleftrightarrow>
    lm_txn_id m = txn \<and> lm_ordinal m = ordinal \<and> lm_object m = object \<and>
    k = mutation_kind_code (lm_kind m) \<and> unat kl = length (lm_key m) \<and> unat vl = length (lm_value m) \<and>
    (lm_kind m = OrderedDelete \<longrightarrow> lm_value m = []) \<and> rest = lm_key m @ lm_value m"
proof -
  have ends: "checked_add_usize 29 (unat kl) = Some (29 + unat kl)"
    "checked_add_usize (29 + unat kl) (unat vl) = Some (29 + unat kl + unat vl)"
    using unat_u32_bound [of kl] unat_u32_bound [of vl] by (simp_all add: checked_add_usize_def)
  have rest: "drop (29 + n) (mutation_layout txn ordinal object k kl vl rest) = drop n rest" for n
    by (metis add.commute drop_drop mutation_layout_fields(8))
  have "decode_mutation_payload (mutation_layout txn ordinal object k kl vl rest) =
      Option.bind (if k = 1 then Some OrderedPut else if k = 2 then Some OrderedDelete else None) (\<lambda>kind.
        if kind = OrderedDelete \<and> unat vl \<noteq> 0 then None
        else if unat kl + unat vl \<noteq> length rest then None
        else Some \<lparr>lm_txn_id = txn, lm_ordinal = ordinal, lm_object = object, lm_kind = kind,
                   lm_key = take (unat kl) rest, lm_value = take (unat vl) (drop (unat kl) rest)\<rparr>)"
    by (simp add: decode_mutation_payload_def mutation_layout_fields log_consts ends rest
        cong: if_cong)
  then show ?thesis
    by (cases m; cases "lm_kind m") (auto split: if_splits)
qed

lemma decode_mutation_payload_exact:
  "decode_mutation_payload p = Some m \<longleftrightarrow> encode_mutation_payload m = Inr p"
proof (cases "length p < 29")
  case True
  then show ?thesis
    by (auto simp: decode_mutation_payload_def log_consts encode_mutation_payload_iff)
next
  case False
  then have "29 \<le> length p" by simp
  then obtain txn ordinal object k kl vl rest where
    p: "p = mutation_layout txn ordinal object k kl vl rest"
    by (rule mutation_layout_complete)
  show ?thesis
    unfolding p decode_mutation_layout_iff encode_mutation_payload_iff
    using unat_u32_bound [of kl] unat_u32_bound [of vl]
    by (auto simp: mutation_layout_def unat_of_nat take_bit_eq_mod dest: word_eq_of_nat)
qed

lemma decode_commit_payload_exact:
  "decode_commit_payload p = Some d \<longleftrightarrow> encode_commit_payload d = p"
proof
  assume dec: "decode_commit_payload p = Some d"
  then have "sum_list [8, 8, 4, 4] \<le> length p" by (auto simp: decode_commit_payload_def split: if_splits)
  from split_fields [OF this] obtain f1 f2 f3 f4 rest where
    p: "p = f1 @ f2 @ f3 @ f4 @ rest" and
    len: "length f1 = 8" "length f2 = 8" "length f3 = 4" "length f4 = 4"
    by (auto simp: map_eq_Cons_conv)
  have "rest = []" using dec len by (auto simp: decode_commit_payload_def p split: if_splits)
  then show "encode_commit_payload d = p"
    using dec len by (auto simp: decode_commit_payload_def encode_commit_payload_def p codec_simps)
next
  assume "encode_commit_payload d = p"
  then show "decode_commit_payload p = Some d"
    by (auto simp: decode_commit_payload_def encode_commit_payload_def codec_simps)
qed

lemma decode_payload_exact:
  "decode_payload k p = Some r \<longleftrightarrow> record_payload r = Inr (k, p)"
proof (cases r)
  case (Mutation m)
  then show ?thesis by (auto simp: decode_payload_def decode_mutation_payload_exact bind_eq_Some_conv
        split: if_splits)
next
  case (Commit d)
  then show ?thesis by (auto simp: decode_payload_def decode_commit_payload_exact bind_eq_Some_conv
        split: if_splits)
next
  case (Abort txn)
  then show ?thesis
    by (auto simp: decode_payload_def bind_eq_Some_conv codec_simps split: if_splits)
qed

section \<open>Record framing\<close>

definition header_layout :: "(bytes \<Rightarrow> u32) \<Rightarrow> u32 \<Rightarrow> u8 \<Rightarrow> bytes" where
  "header_layout crc len k =
     (let prefix = le_bytes 4 len @ le_bytes 2 LOG_FORMAT_VERSION @ [k, 0]
      in prefix @ le_bytes 4 (crc prefix))"

definition log_layout :: "(bytes \<Rightarrow> u32) \<Rightarrow> u8 \<Rightarrow> bytes \<Rightarrow> bytes" where
  "log_layout crc k payload =
     (let body = header_layout crc (of_nat (12 + length payload)) k @ payload
      in body @ le_bytes 4 (crc body))"

lemma header_layout_fields:
  "length (header_layout crc len k) = 12"
  "take 4 (header_layout crc len k) = le_bytes 4 len"
  "header_layout crc len k ! 6 = k"
  by (simp_all add: header_layout_def Let_def nth_append)

lemma length_log_layout [simp]: "length (log_layout crc k payload) = 16 + length payload"
  by (simp add: log_layout_def Let_def header_layout_fields)

lemma valid_record_header_iff:
  "valid_record_header crc h \<longleftrightarrow> (\<exists>len k. h = header_layout crc len k \<and> 1 \<le> k \<and> k \<le> 3)"
proof
  assume valid: "valid_record_header crc h"
  then have len12: "length h = 12" by (auto simp: valid_record_header_def log_consts split: if_splits)
  then have "sum_list [4, 2, 2, 4] \<le> length h" by simp
  from split_fields [OF this] obtain f1 f2 f3 f4 rest where
    h: "h = f1 @ f2 @ f3 @ f4 @ rest" and
    len: "length f1 = 4" "length f2 = 2" "length f3 = 2" "length f4 = 4"
    by (auto simp: map_eq_Cons_conv)
  from len obtain a b k z where f: "f2 = [a, b]" "f3 = [k, z]"
    by (auto simp: numeral_eq_Suc length_Suc_conv)
  have "rest = []" using len12 by (simp add: h len)
  have v: "of_le_bytes [a, b] = LOG_FORMAT_VERSION" "z = 0" "1 \<le> k" "k \<le> 3"
    "of_le_bytes f4 = crc (f1 @ [a, b, k, 0])"
    using valid len by (auto simp: valid_record_header_def h f \<open>rest = []\<close> log_consts codec_simps
        nth_append split: if_splits)
  have "le_bytes 2 LOG_FORMAT_VERSION = [a, b]"
    using v(1) le_bytes_of_le_bytes_u16 [of "[a, b]"] by simp
  moreover have "f4 = le_bytes 4 (crc (f1 @ [a, b, k, 0]))"
    using v(5) len by (metis le_bytes_of_le_bytes_u32)
  ultimately have "h = header_layout crc (of_le_bytes f1) k"
    using len v(2) by (simp add: h f \<open>rest = []\<close> header_layout_def Let_def)
  then show "\<exists>len k. h = header_layout crc len k \<and> 1 \<le> k \<and> k \<le> 3" using v by blast
next
  have "of_le_bytes [2, 0] = (2 :: u16)" by simp
  moreover assume "\<exists>len k. h = header_layout crc len k \<and> 1 \<le> k \<and> k \<le> 3"
  moreover have "le_bytes 2 LOG_FORMAT_VERSION = [2, 0]"
    by code_simp
  ultimately show "valid_record_header crc h"
    by (auto simp: valid_record_header_def header_layout_def log_consts codec_simps Let_def nth_append)
qed

lemma log_to_bytes_iff:
  "log_to_bytes crc r = Inr bs \<longleftrightarrow>
     (\<exists>k p. record_payload r = Inr (k, p) \<and> 12 + length p < 2 ^ 32 \<and> bs = log_layout crc k p)"
  by (cases "record_payload r")
    (auto simp: log_to_bytes_def log_layout_def header_layout_def log_consts u32_try_from_eq_Some
      checked_add_usize_def Let_def add.commute split: option.splits if_splits)

lemma record_payload_kind: "record_payload r = Inr (k, p) \<Longrightarrow> 1 \<le> k \<and> k \<le> 3"
  by (cases r) auto

lemma decode_complete_record_layout:
  assumes "1 \<le> k" "k \<le> 3" "12 + length p < 2 ^ 32"
  shows "decode_complete_record crc (log_layout crc k p) = decode_payload k p"
proof -
  let ?body = "header_layout crc (of_nat (12 + length p)) k @ p"
  have "valid_record_header crc (header_layout crc (of_nat (12 + length p)) k)"
    using assms by (auto simp: valid_record_header_iff)
  moreover have "unat (of_nat (12 + length p) :: u32) = 12 + length p"
    using assms(3) by (simp only: unat_of_nat take_bit_eq_mod) simp
  moreover have "log_layout crc k p = ?body @ le_bytes 4 (crc ?body)"
    by (simp add: log_layout_def)
  ultimately show ?thesis
    using assms(3)
    by (simp add: decode_complete_record_def header_layout_fields log_consts nth_append
        checked_add_usize_def Let_def)
qed

lemma decode_complete_record_iff:
  "decode_complete_record crc frame = Some r \<longleftrightarrow>
     16 \<le> length frame \<and> valid_record_header crc (take 12 frame) \<and>
     12 \<le> unat (of_le_bytes (take 4 frame) :: u32) \<and>
     4 + unat (of_le_bytes (take 4 frame) :: u32) = length frame \<and>
     of_le_bytes (drop (length frame - 4) frame) = crc (take (length frame - 4) frame) \<and>
     decode_payload (frame ! 6) (take (length frame - 4 - 12) (drop 12 frame)) = Some r"
proof -
  have "checked_add_usize 4 (unat (w :: u32)) = Some n \<longleftrightarrow> 4 + unat w = n" for w n
    using unat_u32_bound [of w] by (auto simp: checked_add_usize_def)
  then show ?thesis
    by (simp add: decode_complete_record_def log_consts Let_def not_less)
qed

lemma decode_complete_record_sound:
  assumes "decode_complete_record crc frame = Some r"
  obtains k p where "frame = log_layout crc k p" "12 + length p < 2 ^ 32"
    "record_payload r = Inr (k, p)"
proof -
  let ?e = "length frame - 4"
  let ?len = "of_le_bytes (take 4 frame) :: u32"
  let ?p = "take (?e - 12) (drop 12 frame)"
  from assms have n: "16 \<le> length frame" and valid: "valid_record_header crc (take 12 frame)"
    and total: "4 + unat ?len = length frame"
    and sum: "of_le_bytes (drop ?e frame) = crc (take ?e frame)"
    and dec: "decode_payload (frame ! 6) ?p = Some r"
    by (simp_all only: decode_complete_record_iff)
  from valid obtain len k where h: "take 12 frame = header_layout crc len k"
    by (auto simp: valid_record_header_iff)
  have "take 4 frame = take 4 (take 12 frame)" by simp
  then have "take 4 frame = le_bytes 4 len" by (simp only: h header_layout_fields)
  then have len: "?len = len" by simp
  have "frame ! 6 = take 12 frame ! 6" using n by simp
  then have k: "frame ! 6 = k" by (simp only: h header_layout_fields)
  have p: "length ?p + 12 = unat len" using total n unfolding len by simp
  then have "of_nat (12 + length ?p) = len"
    by (metis add.commute word_eq_of_nat)
  moreover have "take ?e frame = take 12 frame @ ?p"
    using take_add [of 12 "?e - 12" frame] n by simp
  ultimately have "take ?e frame = header_layout crc (of_nat (12 + length ?p)) k @ ?p"
    by (simp only: h)
  moreover have "length (drop ?e frame) = 4" using n by simp
  then have "drop ?e frame = le_bytes 4 (crc (take ?e frame))"
    using sum by (metis le_bytes_of_le_bytes_u32)
  ultimately have "frame = log_layout crc k ?p"
    unfolding log_layout_def Let_def by (metis append_take_drop_id)
  moreover have "12 + length ?p < 2 ^ 32" using p unat_u32_bound [of len] by simp
  ultimately show thesis using that dec k decode_payload_exact by blast
qed

lemma decode_complete_record_exact:
  "decode_complete_record crc frame = Some r \<longleftrightarrow> log_to_bytes crc r = Inr frame"
proof
  assume "decode_complete_record crc frame = Some r"
  then show "log_to_bytes crc r = Inr frame"
    by (rule decode_complete_record_sound) (auto simp: log_to_bytes_iff)
next
  assume "log_to_bytes crc r = Inr frame"
  then show "decode_complete_record crc frame = Some r"
    using record_payload_kind
    by (auto simp: log_to_bytes_iff decode_complete_record_layout decode_payload_exact)
qed

interpretation log_codec: byte_codec "log_to_bytes crc"
    "\<lambda>frame. ok_or () (decode_complete_record crc frame)" "\<lambda>_. True" for crc
  by unfold_locales (simp add: decode_complete_record_exact)

section \<open>Parsing a stream of records\<close>

definition log_frame :: "(bytes \<Rightarrow> u32) \<Rightarrow> unit \<Rightarrow> LogRecord \<Rightarrow> bytes option" where
  "log_frame crc s r = (case log_to_bytes crc r of Inl e \<Rightarrow> None | Inr f \<Rightarrow> Some f)"

definition log_placed :: "LogRecord \<Rightarrow> nat \<Rightarrow> ParsedLogRecord" where
  "log_placed r e = \<lparr>pl_record = r, pl_end_offset = of_nat e\<rparr>"

abbreviation log_stream :: "(bytes \<Rightarrow> u32) \<Rightarrow> LogRecord list \<Rightarrow> bytes option" where
  "log_stream crc \<equiv> encode_all (log_frame crc) (\<lambda>s r. s) ()"

lemma log_frame_iff: "log_frame crc s r = Some f \<longleftrightarrow> log_to_bytes crc r = Inr f"
  by (auto simp: log_frame_def split: sum.splits)

lemma log_frame_layout:
  assumes "log_frame crc s r = Some f"
  obtains k p where "f = log_layout crc k p" "1 \<le> k" "k \<le> 3" "12 + length p < 2 ^ 32"
    "decode_complete_record crc f = Some r"
proof -
  from assms have enc: "log_to_bytes crc r = Inr f" by (simp add: log_frame_iff)
  then obtain k p where "record_payload r = Inr (k, p)" "12 + length p < 2 ^ 32" "f = log_layout crc k p"
    by (auto simp: log_to_bytes_iff)
  with enc show thesis
    using that record_payload_kind decode_complete_record_exact by blast
qed

lemma log_layout_header:
  "take 12 (log_layout crc k p) = header_layout crc (of_nat (12 + length p)) k"
  by (simp add: log_layout_def Let_def header_layout_fields)

lemma parse_frames_end: "parse_frames_from crc bs (length bs) = ([], Parse_Complete)"
  by (simp add: parse_frames_from.simps)

lemma parse_frames_at_frame:
  assumes "log_frame crc s r = Some f" "length (xs @ f @ ys) < 2 ^ 64"
  shows "parse_frames_from crc (xs @ f @ ys) (length xs) =
    (let (ps, st) = parse_frames_from crc (xs @ f @ ys) (length xs + length f)
     in (log_placed r (length xs + length f) # ps, st))"
proof -
  from assms(1) obtain k p where f: "f = log_layout crc k p" "1 \<le> k" "k \<le> 3"
    and n: "12 + length p < 2 ^ 32" and dec: "decode_complete_record crc f = Some r"
    by (rule log_frame_layout)
  let ?h = "header_layout crc (of_nat (12 + length p)) k"
  have hd: "take 12 (drop (length xs) (xs @ f @ ys)) = ?h"
    using log_layout_header [of crc k p] f by simp
  moreover have "valid_record_header crc ?h" using f by (auto simp: valid_record_header_iff)
  moreover have len: "unat (of_le_bytes (take 4 ?h) :: u32) = 12 + length p"
    using n by (simp only: header_layout_fields of_le_bytes_u32 unat_of_nat take_bit_eq_mod) simp
  moreover have lf: "length f = 4 + (12 + length p)" using f by simp
  moreover have "checked_add_usize 4 (12 + length p) = Some (length f)"
    using n lf by (simp add: checked_add_usize_def)
  moreover have "checked_add_usize (length xs) (length f) = Some (length xs + length f)"
    "u64_try_from (length xs + length f) = Some (of_nat (length xs + length f))"
    using assms(2) by (simp_all add: checked_add_usize_def u64_try_from_def)
  moreover have "take (length f) (drop (length xs) (xs @ f @ ys)) = f" by simp
  moreover have "length (xs @ f @ ys) - length xs = length f + length ys" by simp
  ultimately show ?thesis
    by (subst parse_frames_from.simps) (simp add: log_consts Let_def dec log_placed_def)
qed

lemma parse_frames_at_torn:
  assumes "log_frame crc s r = Some f" "0 < n" "n < length f" "length (xs @ take n f) < 2 ^ 64"
  shows "parse_frames_from crc (xs @ take n f) (length xs) = ([], Parse_Incomplete)"
proof -
  from assms(1) obtain k p where f: "f = log_layout crc k p" "1 \<le> k" "k \<le> 3"
    and l: "12 + length p < 2 ^ 32"
    by (rule log_frame_layout)
  show ?thesis
  proof (cases "n < 12")
    case True
    then show ?thesis using assms by (subst parse_frames_from.simps) (simp add: log_consts)
  next
    case False
    let ?h = "header_layout crc (of_nat (12 + length p)) k"
    have "take 12 (drop (length xs) (xs @ take n f)) = ?h"
      using False f log_layout_header [of crc k p] by (simp add: min_def)
    moreover have "valid_record_header crc ?h" using f by (auto simp: valid_record_header_iff)
    moreover have "unat (of_le_bytes (take 4 ?h) :: u32) = 12 + length p"
      using l by (simp only: header_layout_fields of_le_bytes_u32 unat_of_nat take_bit_eq_mod) simp
    moreover have "checked_add_usize 4 (12 + length p) = Some (length f)"
      using l f by (simp add: checked_add_usize_def)
    ultimately show ?thesis
      using assms False by (subst parse_frames_from.simps) (simp add: log_consts Let_def)
  qed
qed

interpretation log_frames: frame_stream "log_frame crc" "\<lambda>s r. s" log_placed
    "\<lambda>_. parse_frames_from crc" Parse_Complete Parse_Incomplete "2 ^ 64" for crc
  by unfold_locales
    (rule parse_frames_end, erule (1) parse_frames_at_frame, erule (3) parse_frames_at_torn)

text \<open>The parser's next step, read off the bytes at the offset.\<close>

lemma parse_frames_unfold:
  assumes "offset + 12 \<le> length bs" "length (bs @ ys) < 2 ^ 64"
  shows "parse_frames_from crc (bs @ ys) offset =
    (let h = take 12 (drop offset bs); len = unat (of_le_bytes (take 4 h) :: u32); e = offset + (4 + len) in
     if \<not> valid_record_header crc h \<or> len < 12 then ([], Parse_Corrupt)
     else if length (bs @ ys) < e then ([], Parse_Incomplete)
     else case decode_complete_record crc (take (4 + len) (drop offset (bs @ ys))) of
       None \<Rightarrow> ([], Parse_Corrupt)
     | Some r \<Rightarrow> let (ps, st) = parse_frames_from crc (bs @ ys) e in (log_placed r e # ps, st))"
proof -
  let ?h = "take 12 (drop offset bs)"
  let ?len = "unat (of_le_bytes (take 4 ?h) :: u32)"
  have h: "take 12 (drop offset (bs @ ys)) = ?h" using assms(1) by simp
  have "?len < 2 ^ 32" by (rule unat_u32_bound)
  then have 4: "checked_add_usize 4 ?len = Some (4 + ?len)" by (simp add: checked_add_usize_def)
  have off: "offset < length (bs @ ys)" "\<not> length (bs @ ys) - offset < 12" using assms(1) by auto
  show ?thesis
  proof (cases "length (bs @ ys) < offset + (4 + ?len)")
    case True
    then have "length (bs @ ys) - offset < 4 + ?len" using off(1) by arith
    then show ?thesis
      using True off by (subst parse_frames_from.simps) (simp only: Let_def h 4 log_consts, simp)
  next
    case False
    then have "\<not> length (bs @ ys) - offset < 4 + ?len" by arith
    moreover have "checked_add_usize offset (4 + ?len) = Some (offset + (4 + ?len))"
      "u64_try_from (offset + (4 + ?len)) = Some (of_nat (offset + (4 + ?len)))"
      using False assms(2) by (simp_all add: checked_add_usize_def u64_try_from_def)
    ultimately show ?thesis
      using False off
      by (subst parse_frames_from.simps)
        (simp only: Let_def h 4 log_consts log_placed_def option.case, simp split: option.splits)
  qed
qed

lemma parse_frames_cases:
  assumes "offset \<le> length bs" "length bs < 2 ^ 64"
  obtains (finish) "offset = length bs" "parse_frames_from crc bs offset = ([], Parse_Complete)"
  | (short) "offset < length bs" "parse_frames_from crc bs offset = ([], Parse_Incomplete)"
  | (bad) "offset < length bs" "parse_frames_from crc bs offset = ([], Parse_Corrupt)"
      "\<And>ys. length (bs @ ys) < 2 ^ 64 \<Longrightarrow>
         parse_frames_from crc (bs @ ys) offset = ([], Parse_Corrupt)"
  | (frame) r f where "log_frame crc () r = Some f" "drop offset bs = f @ drop (offset + length f) bs"
      "length bs - (offset + length f) < length bs - offset" "offset + length f \<le> length bs"
      "\<And>ys. length (bs @ ys) < 2 ^ 64 \<Longrightarrow> parse_frames_from crc (bs @ ys) offset =
         (let (ps, st) = parse_frames_from crc (bs @ ys) (offset + length f)
          in (log_placed r (offset + length f) # ps, st))"
proof (cases "offset + 12 \<le> length bs")
  case False
  show thesis
  proof (cases "offset = length bs")
    case True
    then show thesis using finish parse_frames_end by simp
  next
    case neq: False
    then have "length bs - offset < 12" "offset < length bs" using assms(1) False by simp_all
    then show thesis
      by (intro short) (simp_all add: parse_frames_from.simps [of crc bs offset] log_consts)
  qed
next
  case True
  let ?h = "take 12 (drop offset bs)"
  let ?len = "unat (of_le_bytes (take 4 ?h) :: u32)"
  note step = parse_frames_unfold [OF True, of _ crc]
  have step0: "parse_frames_from crc bs offset = parse_frames_from crc (bs @ []) offset" by simp
  consider "\<not> valid_record_header crc ?h \<or> ?len < 12"
    | "valid_record_header crc ?h" "\<not> ?len < 12" "length bs < offset + (4 + ?len)"
    | "valid_record_header crc ?h" "\<not> ?len < 12" "offset + (4 + ?len) \<le> length bs"
    by linarith
  then show thesis
  proof cases
    case 1
    then show thesis using bad step [of "[]"] step True assms(2) by (simp add: Let_def)
  next
    case 2
    then show thesis using short step [of "[]"] True assms(2) by (simp add: Let_def)
  next
    case 3
    let ?f = "take (4 + ?len) (drop offset bs)"
    have same: "take (4 + ?len) (drop offset (bs @ ys)) = ?f" for ys using 3(3) by simp
    show thesis
    proof (cases "decode_complete_record crc ?f")
      case None
      then show thesis
        using bad step [of "[]"] step True assms(2) 3 same [of "[]"] same
        by (simp add: Let_def not_less)
    next
      case (Some r)
      then have f: "log_frame crc () r = Some ?f"
        by (simp add: log_frame_iff decode_complete_record_exact)
      have lf: "length ?f = 4 + ?len" using 3(3) by simp
      have "parse_frames_from crc (bs @ ys) offset =
          (let (ps, st) = parse_frames_from crc (bs @ ys) (offset + length ?f)
           in (log_placed r (offset + length ?f) # ps, st))" if "length (bs @ ys) < 2 ^ 64" for ys
        using step [OF that] 3 same [of ys] Some by (simp add: lf Let_def)
      moreover have "drop offset bs = ?f @ drop (offset + length ?f) bs"
        unfolding lf by (rule drop_split)
      moreover have "offset + length ?f \<le> length bs" "length bs - (offset + length ?f) < length bs - offset"
        using 3(3) True unfolding lf by auto
      ultimately show thesis using frame f by blast
    qed
  qed
qed

text \<open>
  What the parser returns is always read off the bytes: the records re-encode to the prefix it
  consumed, at the offsets it reports, and it says complete exactly when nothing is left.
\<close>

lemma parse_frames_sound:
  assumes "parse_frames_from crc bs offset = (ps, st)" "offset \<le> length bs" "length bs < 2 ^ 64"
  shows "\<exists>fs rest. log_stream crc (map pl_record ps) = Some fs \<and> drop offset bs = fs @ rest \<and>
    (st = Parse_Complete \<longleftrightarrow> rest = []) \<and>
    ps = placed (log_frame crc) (\<lambda>s r. s) log_placed () offset (map pl_record ps)"
  using assms
proof (induction "length bs - offset" arbitrary: offset ps rule: less_induct)
  case less
  from less.prems(2,3) show ?case
  proof (cases rule: parse_frames_cases [where crc = crc])
    case (frame r f)
    obtain qs where qs: "parse_frames_from crc bs (offset + length f) = (qs, st)"
      "ps = log_placed r (offset + length f) # qs"
      using frame(5) [of "[]"] less.prems by (auto split: prod.splits)
    from less.hyps [OF frame(3) qs(1) frame(4) less.prems(3)] obtain fs rest where
      IH: "log_stream crc (map pl_record qs) = Some fs" "drop (offset + length f) bs = fs @ rest"
      "st = Parse_Complete \<longleftrightarrow> rest = []"
      "qs = placed (log_frame crc) (\<lambda>s r. s) log_placed () (offset + length f) (map pl_record qs)"
      by blast
    have "drop offset bs = (f @ fs) @ rest" using IH(2) frame(2) by simp
    then show ?thesis
      using IH qs(2) frame(1) by (auto simp: log_placed_def)
  qed (use less.prems in auto)
qed

text \<open>
  Reading a longer file: what was parsed from the shorter one is kept, and a corrupt verdict does
  not go away.
\<close>

lemma parse_frames_extend:
  assumes "parse_frames_from crc bs offset = (ps, st)" "offset \<le> length bs"
    and "length (bs @ zs) < 2 ^ 64"
  shows "\<exists>qs st'. parse_frames_from crc (bs @ zs) offset = (ps @ qs, st') \<and>
    (st = Parse_Corrupt \<longrightarrow> qs = [] \<and> st' = Parse_Corrupt)"
  using assms
proof (induction "length bs - offset" arbitrary: offset ps rule: less_induct)
  case less
  have lim: "length bs < 2 ^ 64" using less.prems(3) by simp
  from less.prems(2) lim show ?case
  proof (cases rule: parse_frames_cases [where crc = crc])
    case (frame r f)
    obtain qs where qs: "parse_frames_from crc bs (offset + length f) = (qs, st)"
      "ps = log_placed r (offset + length f) # qs"
      using frame(5) [of "[]"] less.prems by (auto split: prod.splits)
    from less.hyps [OF frame(3) qs(1) frame(4) less.prems(3)] obtain rs st' where
      IH: "parse_frames_from crc (bs @ zs) (offset + length f) = (qs @ rs, st')"
      "st = Parse_Corrupt \<longrightarrow> rs = [] \<and> st' = Parse_Corrupt"
      by blast
    have "parse_frames_from crc (bs @ zs) offset = (ps @ rs, st')"
      using frame(5) [OF less.prems(3)] IH(1) qs(2) by simp
    then show ?thesis using IH(2) by blast
  qed (use less.prems in auto)
qed

lemma pl_record_log_placed [simp]: "pl_record (log_placed r e) = r"
  by (simp add: log_placed_def)

lemma parse_stream:
  assumes "log_stream crc rs = Some bs" "length bs < 2 ^ 64"
  shows "parse_log_prefix_frames crc bs =
    (placed (log_frame crc) (\<lambda>s r. s) log_placed () 0 rs, Parse_Complete)"
  using log_frames.parse_all [of crc "()" rs bs "[]"] assms
  by (simp add: parse_log_prefix_frames_def)

section \<open>Properties\<close>

text \<open>
  C20.  The log record codec is exact for every checksum function: a frame decodes to a record
  exactly when that record encodes to the frame.  So a decoded frame is canonical, a changed byte
  that keeps both checksums and the framing still decodes to a record with that very encoding,
  and everything \<open>to_bytes\<close> writes is read back.
\<close>
theorem log_record_codec_exact:
  "decode_complete_record crc frame = Some r \<longleftrightarrow> log_to_bytes crc r = Inr frame"
  using log_codec.exact [of crc frame r] by simp

text \<open>
  C3.  Parsing is exact on whole files: a file parses to the records \<open>rs\<close> with status complete
  exactly when it is the concatenation of the encodings of \<open>rs\<close>.
\<close>
theorem log_parse_exact:
  assumes "length bs < 2 ^ 64"
  shows "parse_log_prefix crc bs = (rs, Parse_Complete) \<longleftrightarrow> log_stream crc rs = Some bs"
proof
  assume "parse_log_prefix crc bs = (rs, Parse_Complete)"
  then obtain ps where "parse_frames_from crc bs 0 = (ps, Parse_Complete)" "rs = map pl_record ps"
    by (auto simp: parse_log_prefix_def parse_log_prefix_frames_def split: prod.splits)
  then show "log_stream crc rs = Some bs"
    using parse_frames_sound [of crc bs 0] assms by fastforce
next
  assume "log_stream crc rs = Some bs"
  then show "parse_log_prefix crc bs = (rs, Parse_Complete)"
    using parse_stream assms by (simp add: parse_log_prefix_def map_placed)
qed

theorem log_parse_exact_witness:
  "parse_log_prefix (\<lambda>_. 0) [20, 0, 0, 0, 2, 0, 3, 0, 0, 0, 0, 0, 9, 0, 0, 0, 0, 0, 0, 0, 0, 0, 0, 0]
     = ([Abort 9], Parse_Complete)"
  by (subst log_parse_exact) code_simp+

text \<open>
  C5.  A torn append is classified as such: a file that holds complete records followed by a proper,
  non-empty part of one more record parses to exactly the complete records, with status incomplete.
\<close>
theorem log_torn_tail_incomplete:
  assumes "log_stream crc rs = Some fs" "log_to_bytes crc r = Inr f" "0 < n" "n < length f"
    and "length (fs @ take n f) < 2 ^ 64"
  shows "parse_log_prefix crc (fs @ take n f) = (rs, Parse_Incomplete)"
  using log_frames.parse_all_torn [OF assms(1), of r f n "[]"] assms
  by (simp add: parse_log_prefix_def parse_log_prefix_frames_def log_frame_iff map_placed)

theorem log_torn_tail_incomplete_witness:
  "parse_log_prefix (\<lambda>_. 0) ([] @ take 14 [20, 0, 0, 0, 2, 0, 3, 0, 0, 0, 0, 0, 9, 0, 0, 0, 0, 0, 0, 0, 0, 0, 0, 0])
     = ([], Parse_Incomplete)"
  by (rule log_torn_tail_incomplete [where r = "Abort 9"]) code_simp+

text \<open>
  C21.  Parsing is sound on every file, damaged or not: the records returned re-encode to a prefix of
  the file and end at the reported offsets, and the status is complete exactly when that prefix is
  the whole file.
\<close>
theorem log_parse_sound:
  assumes "parse_log_prefix_frames crc bs = (ps, st)" "length bs < 2 ^ 64"
  shows "\<exists>fs rest. log_stream crc (map pl_record ps) = Some fs \<and> bs = fs @ rest \<and>
    (st = Parse_Complete \<longleftrightarrow> rest = []) \<and>
    ps = placed (log_frame crc) (\<lambda>s r. s) log_placed () 0 (map pl_record ps)"
  using parse_frames_sound [of crc bs 0 ps st] assms by (simp add: parse_log_prefix_frames_def)

theorem log_parse_sound_witness:
  "let ps = [] :: ParsedLogRecord list; bs = [20, 0, 0, 0, 2, 0, 3, 0] :: bytes in
   \<exists>fs rest. log_stream (\<lambda>_. 0) (map pl_record ps) = Some fs \<and> bs = fs @ rest \<and>
    (Parse_Incomplete = Parse_Complete \<longleftrightarrow> rest = []) \<and>
    ps = placed (log_frame (\<lambda>_. 0)) (\<lambda>s r. s) log_placed () 0 (map pl_record ps)"
  unfolding Let_def by (rule log_parse_sound) code_simp+

text \<open>
  Appending never changes what was already readable: parsing a file that extends \<open>bs\<close> gives the
  frames of \<open>bs\<close> first, and a corrupt verdict on \<open>bs\<close> stays, with the same frames, however the file
  grows.
\<close>
theorem log_parse_prefix_stable:
  assumes "parse_log_prefix_frames crc bs = (ps, st)" "length (bs @ zs) < 2 ^ 64"
  shows "\<exists>qs st'. parse_log_prefix_frames crc (bs @ zs) = (ps @ qs, st') \<and>
    (st = Parse_Corrupt \<longrightarrow> qs = [] \<and> st' = Parse_Corrupt)"
  using parse_frames_extend [of crc bs 0 ps st zs] assms by (simp add: parse_log_prefix_frames_def)

theorem log_parse_prefix_stable_witness:
  "parse_log_prefix_frames (\<lambda>_. 0) ([20, 0, 0, 0, 3, 0, 3, 0, 0, 0, 0, 0] @ [1, 2, 3]) = ([], Parse_Corrupt)"
proof -
  have "parse_log_prefix_frames (\<lambda>_. 0) [20, 0, 0, 0, 3, 0, 3, 0, 0, 0, 0, 0] = ([], Parse_Corrupt)" by code_simp
  from log_parse_prefix_stable [OF this, of "[1, 2, 3]"] show ?thesis by auto
qed

end
