(* ===== verification/Ordered_Map.thy ===== *)
theory Ordered_Map
  imports Prelude
begin

text \<open>
  \<open>BTreeMap\<close> of the standard library as an association list with strictly increasing keys: insertion
  replaces the value of an equal key, iteration is the list.
\<close>

fun btm_insert :: "'k::linorder \<Rightarrow> 'v \<Rightarrow> ('k \<times> 'v) list \<Rightarrow> ('k \<times> 'v) list" where
  "btm_insert k v [] = [(k, v)]"
| "btm_insert k v ((k', v') # xs) =
     (if k < k' then (k, v) # (k', v') # xs
      else if k = k' then (k, v) # xs
      else (k', v') # btm_insert k v xs)"

definition btm_values :: "('k \<times> 'v) list \<Rightarrow> 'v list" where
  "btm_values m = map snd m"

definition btm_sorted :: "('k::linorder \<times> 'v) list \<Rightarrow> bool" where
  "btm_sorted m = sorted_wrt (<) (map fst m)"

lemma btm_sorted_Nil [simp]: "btm_sorted []"
  by (simp add: btm_sorted_def)

lemma btm_insert_keys: "set (map fst (btm_insert k v m)) = insert k (set (map fst m))"
  by (induction k v m rule: btm_insert.induct) auto

lemma btm_insert_sorted [simp]: "btm_sorted m \<Longrightarrow> btm_sorted (btm_insert k v m)"
  unfolding btm_sorted_def
proof (induction k v m rule: btm_insert.induct)
  case (2 k v k' v' xs)
  then show ?case
    using btm_insert_keys [of k v xs] by fastforce
qed simp

lemma map_of_btm_insert: "btm_sorted m \<Longrightarrow> map_of (btm_insert k v m) = (map_of m)(k \<mapsto> v)"
proof (induction k v m rule: btm_insert.induct)
  case (2 k v k' v' xs)
  then show ?case by (auto simp: btm_sorted_def fun_upd_twist)
qed (simp add: btm_sorted_def)

lemma btm_sorted_distinct: "btm_sorted m \<Longrightarrow> distinct (map fst m)"
  unfolding btm_sorted_def by (simp add: strict_sorted_iff)

lemma btm_sorted_map_of: "btm_sorted m \<Longrightarrow> map_of m k = Some v \<longleftrightarrow> (k, v) \<in> set m"
  by (simp add: btm_sorted_distinct)

lemma btm_insert_subset: "set (btm_insert k v m) \<subseteq> insert (k, v) (set m)"
  by (induction k v m rule: btm_insert.induct) auto

end
