(* ===== verification/Write_Set.thy ===== *)
theory Write_Set
  imports Log Mvcc Ordered_Map
begin

text \<open>
  Model of \<open>vnext/write_set.rs\<close>: the reduction of a transaction's mutation stream to one final
  effect per \<open>(object, key)\<close> in canonical order, shared by live commit and recovery.
\<close>

record FinalEffect =
  fe_mutation :: LoggedMutation

definition fe_txn_id :: "FinalEffect \<Rightarrow> TxnId" where
  "fe_txn_id e = lm_txn_id (fe_mutation e)"

definition fe_ordinal :: "FinalEffect \<Rightarrow> u32" where
  "fe_ordinal e = lm_ordinal (fe_mutation e)"

definition fe_install_identity :: "FinalEffect \<Rightarrow> InstallIdentity" where
  "fe_install_identity e = \<lparr>ii_txn_id = fe_txn_id e, ii_ordinal = fe_ordinal e\<rparr>"

definition fe_object :: "FinalEffect \<Rightarrow> StorageObjectId" where
  "fe_object e = lm_object (fe_mutation e)"

definition fe_kind :: "FinalEffect \<Rightarrow> MutationKind" where
  "fe_kind e = lm_kind (fe_mutation e)"

definition fe_key :: "FinalEffect \<Rightarrow> bytes" where
  "fe_key e = lm_key (fe_mutation e)"

definition fe_value :: "FinalEffect \<Rightarrow> bytes" where
  "fe_value e = lm_value (fe_mutation e)"

lemmas fe_defs = fe_txn_id_def fe_ordinal_def fe_install_identity_def fe_object_def fe_kind_def
  fe_key_def fe_value_def

datatype FinalWriteSetError =
    FW_ReservedTransaction
  | FW_WrongTransaction TxnId TxnId u32
  | FW_NonContiguousOrdinal u32 u32
  | FW_TooManyMutations

definition lm_place :: "LoggedMutation \<Rightarrow> StorageObjectId \<times> bytes" where
  "lm_place m = (lm_object m, lm_key m)"

fun normalize_loop ::
  "TxnId \<Rightarrow> nat \<Rightarrow> ((StorageObjectId \<times> bytes) \<times> LoggedMutation) list \<Rightarrow> LoggedMutation list \<Rightarrow>
     FinalWriteSetError + ((StorageObjectId \<times> bytes) \<times> LoggedMutation) list" where
  "normalize_loop txn_id index final_by_key [] = Inr final_by_key"
| "normalize_loop txn_id index final_by_key (m # ms) =
     rbind (ok_or FW_TooManyMutations (u32_try_from index)) (\<lambda>expected.
     if lm_ordinal m \<noteq> expected then Inl (FW_NonContiguousOrdinal expected (lm_ordinal m))
     else if lm_txn_id m \<noteq> txn_id
       then Inl (FW_WrongTransaction txn_id (lm_txn_id m) (lm_ordinal m))
     else normalize_loop txn_id (Suc index) (btm_insert (lm_place m) m final_by_key) ms)"

definition normalize_final_effects ::
  "TxnId \<Rightarrow> LoggedMutation list \<Rightarrow> FinalWriteSetError + FinalEffect list" where
  "normalize_final_effects txn_id mutations =
     (if txn_id = 0 then Inl FW_ReservedTransaction
      else rbind (normalize_loop txn_id 0 [] mutations) (\<lambda>final_by_key.
        Inr (map (\<lambda>m. \<lparr>fe_mutation = m\<rparr>) (btm_values final_by_key))))"

section \<open>The mutation stream\<close>

text \<open>
  A well-formed stream carries the transaction's identity and its own positions as ordinals.
\<close>

definition stream_ok :: "TxnId \<Rightarrow> nat \<Rightarrow> LoggedMutation list \<Rightarrow> bool" where
  "stream_ok txn_id index ms \<longleftrightarrow>
     (\<forall>i < length ms. lm_txn_id (ms ! i) = txn_id \<and> index + i < 2 ^ 32 \<and>
        lm_ordinal (ms ! i) = of_nat (index + i))"

definition fe_place :: "FinalEffect \<Rightarrow> StorageObjectId \<times> bytes" where
  "fe_place e = (fe_object e, fe_key e)"

text \<open>The last mutation at a place, by a backward search of the stream.\<close>

definition latest :: "LoggedMutation list \<Rightarrow> StorageObjectId \<times> bytes \<Rightarrow> LoggedMutation option" where
  "latest ms p = List.find (\<lambda>m. lm_place m = p) (rev ms)"

lemma stream_ok_Nil [simp]: "stream_ok txn i []"
  by (simp add: stream_ok_def)

lemma stream_ok_Cons [simp]:
  "stream_ok txn i (m # ms) \<longleftrightarrow>
     lm_txn_id m = txn \<and> i < 2 ^ 32 \<and> lm_ordinal m = of_nat i \<and> stream_ok txn (Suc i) ms"
  unfolding stream_ok_def by (auto simp: less_Suc_eq_0_disj all_conj_distrib) 

lemma stream_ok_snoc:
  "stream_ok txn i (ms @ [m]) \<longleftrightarrow>
     stream_ok txn i ms \<and> lm_txn_id m = txn \<and> i + length ms < 2 ^ 32 \<and>
     lm_ordinal m = of_nat (i + length ms)"
  unfolding stream_ok_def by (fastforce simp: nth_append less_Suc_eq)

lemma latest_Nil [simp]: "latest [] p = None"
  by (simp add: latest_def)

lemma latest_snoc [simp]: "latest (ms @ [m]) p = (if lm_place m = p then Some m else latest ms p)"
  by (simp add: latest_def)

lemma latest_Some: "latest ms p = Some m \<Longrightarrow> m \<in> set ms \<and> lm_place m = p"
  by (auto simp: latest_def find_Some_iff) (metis length_rev nth_mem set_rev)

lemma latest_None: "latest ms p = None \<longleftrightarrow> (\<forall>m \<in> set ms. lm_place m \<noteq> p)"
  by (auto simp: latest_def find_None_iff)

section \<open>The reduction\<close>

lemma normalize_loop_ok:
  "(\<exists>m. normalize_loop txn i acc ms = Inr m) \<longleftrightarrow> stream_ok txn i ms"
  by (induction ms arbitrary: i acc) (auto simp: u32_try_from_eq_Some)

lemma normalize_loop_fold:
  "normalize_loop txn i acc ms = Inr m \<Longrightarrow> m = fold (\<lambda>m. btm_insert (lm_place m) m) ms acc"
  by (induction ms arbitrary: i acc) (auto split: if_splits)

lemma fold_insert_latest:
  "btm_sorted acc \<Longrightarrow>
     btm_sorted (fold (\<lambda>m. btm_insert (lm_place m) m) ms acc) \<and>
     map_of (fold (\<lambda>m. btm_insert (lm_place m) m) ms acc) p =
       (case latest ms p of None \<Rightarrow> map_of acc p | Some m \<Rightarrow> Some m)"
  by (induction ms rule: rev_induct) (auto simp: map_of_btm_insert)

lemma fold_insert_keyed:
  "\<forall>x \<in> set acc. lm_place (snd x) = fst x \<Longrightarrow>
     \<forall>x \<in> set (fold (\<lambda>m. btm_insert (lm_place m) m) ms acc). lm_place (snd x) = fst x"
proof (induction ms arbitrary: acc)
  case (Cons m ms)
  have "\<forall>x \<in> set (btm_insert (lm_place m) m acc). lm_place (snd x) = fst x"
    using Cons.prems btm_insert_subset [of "lm_place m" m acc] by fastforce
  then show ?case using Cons.IH by simp
qed simp

lemma find_keyed:
  assumes "\<forall>x \<in> set xs. lm_place (snd x) = fst x"
  shows "List.find (\<lambda>e. fe_place e = p) (map (\<lambda>m. \<lparr>fe_mutation = m\<rparr>) (btm_values xs)) =
    map_option (\<lambda>m. \<lparr>fe_mutation = m\<rparr>) (map_of xs p)"
  using assms
  by (induction xs) (auto simp: btm_values_def fe_place_def fe_object_def fe_key_def lm_place_def)

lemma map_fe_place_keyed:
  assumes "\<forall>x \<in> set xs. lm_place (snd x) = fst x"
  shows "map fe_place (map (\<lambda>m. \<lparr>fe_mutation = m\<rparr>) (btm_values xs)) = map fst xs"
  using assms
  by (induction xs) (auto simp: btm_values_def fe_place_def fe_object_def fe_key_def lm_place_def)

lemma normalize_success: "(\<exists>es. normalize_final_effects txn ms = Inr es) \<longleftrightarrow> txn \<noteq> 0 \<and> stream_ok txn 0 ms"
  using normalize_loop_ok [of txn 0 "[]" ms] by (auto simp: normalize_final_effects_def)

lemma normalize_effects:
  assumes "normalize_final_effects txn ms = Inr es"
  shows "sorted_wrt (<) (map fe_place es)"
    and "List.find (\<lambda>e. fe_place e = p) es = map_option (\<lambda>m. \<lparr>fe_mutation = m\<rparr>) (latest ms p)"
proof -
  let ?M = "fold (\<lambda>m. btm_insert (lm_place m) m) ms []"
  have es: "es = map (\<lambda>m. \<lparr>fe_mutation = m\<rparr>) (btm_values ?M)"
    using assms by (auto simp: normalize_final_effects_def dest: normalize_loop_fold split: if_splits)
  have keyed: "\<forall>x \<in> set ?M. lm_place (snd x) = fst x"
    using fold_insert_keyed [of "[]" ms] by simp
  have sorted: "btm_sorted ?M" and lookup: "map_of ?M p = latest ms p"
    using fold_insert_latest [of "[]" ms p] by (auto split: option.splits)
  show "sorted_wrt (<) (map fe_place es)"
    using sorted unfolding es map_fe_place_keyed [OF keyed] by (simp add: btm_sorted_def)
  show "List.find (\<lambda>e. fe_place e = p) es = map_option (\<lambda>m. \<lparr>fe_mutation = m\<rparr>) (latest ms p)"
    unfolding es find_keyed [OF keyed] lookup ..
qed

lemma normalize_effect_txn:
  assumes "normalize_final_effects txn ms = Inr es" "e \<in> set es"
  shows "fe_txn_id e = txn" "fe_mutation e \<in> set ms"
proof -
  have "distinct (map fe_place es)"
    using normalize_effects(1) [OF assms(1)] by (simp add: strict_sorted_iff)
  then have "List.find (\<lambda>e'. fe_place e' = fe_place e) es = Some e"
    using assms(2) by (induction es) auto
  then have "latest ms (fe_place e) = Some (fe_mutation e)"
    using normalize_effects(2) [OF assms(1), of "fe_place e"] by auto
  then show mem: "fe_mutation e \<in> set ms" by (auto dest: latest_Some)
  have "stream_ok txn 0 ms" using assms(1) normalize_success by blast
  with mem show "fe_txn_id e = txn" by (auto simp: fe_txn_id_def stream_ok_def in_set_conv_nth)
qed

section \<open>Properties\<close>

text \<open>
  C22.  Normalization succeeds exactly on the streams whose mutations all carry the transaction's
  non-zero identity and their own position as ordinal; the effects it returns are in strictly
  increasing \<open>(object, key)\<close> order, and at each place there is exactly the last mutation staged there.
\<close>
theorem normalize_last_writer_wins:
  "case normalize_final_effects txn ms of
     Inl e \<Rightarrow> \<not> (txn \<noteq> 0 \<and> stream_ok txn 0 ms)
   | Inr es \<Rightarrow> txn \<noteq> 0 \<and> stream_ok txn 0 ms \<and> sorted_wrt (<) (map fe_place es) \<and>
       (\<forall>p. List.find (\<lambda>e. fe_place e = p) es =
          map_option (\<lambda>m. \<lparr>fe_mutation = m\<rparr>) (latest ms p))"
  using normalize_success [of txn ms] normalize_effects [of txn ms] by (auto split: sum.splits)

end
