(* ===== verification/Txn.thy ===== *)
theory Txn
  imports Write_Set
begin

text \<open>
  Model of \<open>vnext/txn.rs\<close> and \<open>vnext/txn_overlay.rs\<close>: the transaction state machine with its staged
  mutations, and the private read-your-writes view over them.  A method on \<open>&mut self\<close> returns its
  result together with the transaction after the call.
\<close>

section \<open>State\<close>

datatype TransactionPhase =
    Ph_Active | Ph_Validating | Ph_Prepared | Ph_WalAppended | Ph_DurableDecision | Ph_Visible
  | Ph_Aborted | Ph_RecoveryRequired | Ph_Released

datatype TransactionError =
    Tx_WrongPhase TransactionPhase TransactionPhase
  | Tx_DerivedMutation StorageObjectId
  | Tx_TooManyMutations
  | Tx_WalLsnMismatch Lsn Lsn
  | Tx_LogEncoding LogEncodeError

record TransactionState =
  tx_id :: TxnId
  tx_snapshot :: CommitSeq
  tx_phase :: TransactionPhase
  tx_mutations :: "LoggedMutation list"
  tx_commit_seq :: "CommitSeq option"
  tx_decision_lsn :: "Lsn option"
  tx_position :: "CommitPosition option"

section \<open>Operations\<close>

definition txn_new :: "TxnId \<Rightarrow> CommitSeq \<Rightarrow> TransactionState" where
  "txn_new tid snapshot =
     \<lparr>tx_id = tid, tx_snapshot = snapshot, tx_phase = Ph_Active, tx_mutations = [],
      tx_commit_seq = None, tx_decision_lsn = None, tx_position = None\<rparr>"

definition txn_final_effects :: "TransactionState \<Rightarrow> FinalWriteSetError + FinalEffect list" where
  "txn_final_effects t = normalize_final_effects (tx_id t) (tx_mutations t)"

definition next_ordinal :: "TransactionState \<Rightarrow> TransactionError + u32" where
  "next_ordinal t = ok_or Tx_TooManyMutations (u32_try_from (length (tx_mutations t)))"

definition require_authoritative :: "StorageObjectDescriptor \<Rightarrow> TransactionError + unit" where
  "require_authoritative object =
     (if requires_commit_recovery (sod_authority object) then Inr ()
      else Inl (Tx_DerivedMutation (sod_id object)))"

definition require_phase :: "TransactionState \<Rightarrow> TransactionPhase \<Rightarrow> TransactionError + unit" where
  "require_phase t expected =
     (if tx_phase t = expected then Inr () else Inl (Tx_WrongPhase expected (tx_phase t)))"

definition txn_transition ::
  "TransactionState \<Rightarrow> TransactionPhase \<Rightarrow> TransactionPhase \<Rightarrow>
     (TransactionError + unit) \<times> TransactionState" where
  "txn_transition t expected next_phase =
     (case require_phase t expected of
        Inl e \<Rightarrow> (Inl e, t)
      | Inr _ \<Rightarrow> (Inr (), t\<lparr>tx_phase := next_phase\<rparr>))"

definition stage_ordered_put ::
  "TransactionState \<Rightarrow> StorageObjectDescriptor \<Rightarrow> bytes \<Rightarrow> bytes \<Rightarrow>
     (TransactionError + unit) \<times> TransactionState" where
  "stage_ordered_put t object key v =
     (case rbind (require_phase t Ph_Active) (\<lambda>_.
           rbind (require_authoritative object) (\<lambda>_. next_ordinal t)) of
        Inl e \<Rightarrow> (Inl e, t)
      | Inr ordinal \<Rightarrow>
          (Inr (), t\<lparr>tx_mutations :=
             tx_mutations t @ [ordered_put (tx_id t) ordinal (sod_id object) key v]\<rparr>))"

definition stage_ordered_delete ::
  "TransactionState \<Rightarrow> StorageObjectDescriptor \<Rightarrow> bytes \<Rightarrow>
     (TransactionError + unit) \<times> TransactionState" where
  "stage_ordered_delete t object key =
     (case rbind (require_phase t Ph_Active) (\<lambda>_.
           rbind (require_authoritative object) (\<lambda>_. next_ordinal t)) of
        Inl e \<Rightarrow> (Inl e, t)
      | Inr ordinal \<Rightarrow>
          (Inr (), t\<lparr>tx_mutations :=
             tx_mutations t @ [ordered_delete (tx_id t) ordinal (sod_id object) key]\<rparr>))"

definition begin_validation ::
  "TransactionState \<Rightarrow> (TransactionError + unit) \<times> TransactionState" where
  "begin_validation t = txn_transition t Ph_Active Ph_Validating"

definition mark_prepared ::
  "TransactionState \<Rightarrow> CommitSeq \<Rightarrow> (TransactionError + unit) \<times> TransactionState" where
  "mark_prepared t csn =
     (case txn_transition t Ph_Validating Ph_Prepared of
        (Inl e, t') \<Rightarrow> (Inl e, t')
      | (Inr _, t') \<Rightarrow> (Inr (), t'\<lparr>tx_commit_seq := Some csn\<rparr>))"

definition commit_decision ::
  "(bytes \<Rightarrow> u32) \<Rightarrow> TransactionState \<Rightarrow> TransactionError + CommitDecision" where
  "commit_decision crc t =
     rbind (require_phase t Ph_Prepared) (\<lambda>_.
     rbind (ok_or (Tx_WrongPhase Ph_Prepared (tx_phase t)) (tx_commit_seq t)) (\<lambda>csn.
     rbind (ok_or Tx_TooManyMutations (u32_try_from (length (tx_mutations t)))) (\<lambda>count.
     rbind (map_err Tx_LogEncoding (mutation_digest crc (tx_mutations t))) (\<lambda>digest.
     Inr \<lparr>cd_txn_id = tx_id t, cd_csn = csn, cd_mutation_count = count,
          cd_mutation_digest = digest\<rparr>))))"

definition mark_wal_appended ::
  "TransactionState \<Rightarrow> Lsn \<Rightarrow> (TransactionError + unit) \<times> TransactionState" where
  "mark_wal_appended t lsn =
     (case txn_transition t Ph_Prepared Ph_WalAppended of
        (Inl e, t') \<Rightarrow> (Inl e, t')
      | (Inr _, t') \<Rightarrow> (Inr (), t'\<lparr>tx_decision_lsn := Some lsn\<rparr>))"

definition mark_durable ::
  "TransactionState \<Rightarrow> Lsn \<Rightarrow> (TransactionError + CommitPosition) \<times> TransactionState" where
  "mark_durable t lsn =
     (case rbind (require_phase t Ph_WalAppended) (\<lambda>_.
           rbind (ok_or (Tx_WrongPhase Ph_WalAppended (tx_phase t)) (tx_decision_lsn t)) (\<lambda>appended.
           if lsn \<noteq> appended then Inl (Tx_WalLsnMismatch appended lsn)
           else ok_or (Tx_WrongPhase Ph_WalAppended (tx_phase t)) (tx_commit_seq t))) of
        Inl e \<Rightarrow> (Inl e, t)
      | Inr csn \<Rightarrow>
          let position = \<lparr>cp_csn = csn, cp_lsn = lsn\<rparr>
          in (Inr position, t\<lparr>tx_position := Some position, tx_phase := Ph_DurableDecision\<rparr>))"

definition mark_recovery_required ::
  "TransactionState \<Rightarrow> (TransactionError + unit) \<times> TransactionState" where
  "mark_recovery_required t =
     (if tx_phase t \<in> {Ph_Prepared, Ph_WalAppended, Ph_DurableDecision}
      then (Inr (), t\<lparr>tx_phase := Ph_RecoveryRequired\<rparr>)
      else (Inl (Tx_WrongPhase Ph_Prepared (tx_phase t)), t))"

definition mark_visible ::
  "TransactionState \<Rightarrow> (TransactionError + unit) \<times> TransactionState" where
  "mark_visible t = txn_transition t Ph_DurableDecision Ph_Visible"

definition txn_abort ::
  "TransactionState \<Rightarrow> (TransactionError + unit) \<times> TransactionState" where
  "txn_abort t =
     (if tx_phase t \<in> {Ph_Active, Ph_Validating, Ph_Prepared}
      then (Inr (), t\<lparr>tx_phase := Ph_Aborted, tx_commit_seq := None, tx_decision_lsn := None\<rparr>)
      else (Inl (Tx_WrongPhase Ph_Active (tx_phase t)), t))"

definition txn_release ::
  "TransactionState \<Rightarrow> (TransactionError + unit) \<times> TransactionState" where
  "txn_release t =
     (if tx_phase t \<in> {Ph_Visible, Ph_Aborted}
      then (Inr (), t\<lparr>tx_phase := Ph_Released\<rparr>)
      else (Inl (Tx_WrongPhase Ph_Visible (tx_phase t)), t))"

datatype StagedOrderedLookup = Staged_Put bytes | Staged_Delete | Staged_Unchanged

definition staged_ordered_lookup ::
  "TransactionState \<Rightarrow> StorageObjectId \<Rightarrow> bytes \<Rightarrow> StagedOrderedLookup" where
  "staged_ordered_lookup t object key =
     (case List.find (\<lambda>m. lm_object m = object \<and> lm_key m = key) (rev (tx_mutations t)) of
        None \<Rightarrow> Staged_Unchanged
      | Some m \<Rightarrow>
          (case lm_kind m of
             OrderedPut \<Rightarrow> Staged_Put (lm_value m)
           | OrderedDelete \<Rightarrow> Staged_Delete))"

section \<open>Histories\<close>

datatype TxnCall =
    Call_stage_put StorageObjectDescriptor bytes bytes
  | Call_stage_delete StorageObjectDescriptor bytes
  | Call_begin_validation
  | Call_mark_prepared CommitSeq
  | Call_mark_wal_appended Lsn
  | Call_mark_durable Lsn
  | Call_mark_recovery_required
  | Call_mark_visible
  | Call_txn_abort
  | Call_release

fun txn_call :: "TxnCall \<Rightarrow> TransactionState \<Rightarrow> TransactionState" where
  "txn_call (Call_stage_put object key v) t = snd (stage_ordered_put t object key v)"
| "txn_call (Call_stage_delete object key) t = snd (stage_ordered_delete t object key)"
| "txn_call Call_begin_validation t = snd (begin_validation t)"
| "txn_call (Call_mark_prepared csn) t = snd (mark_prepared t csn)"
| "txn_call (Call_mark_wal_appended lsn) t = snd (mark_wal_appended t lsn)"
| "txn_call (Call_mark_durable lsn) t = snd (mark_durable t lsn)"
| "txn_call Call_mark_recovery_required t = snd (mark_recovery_required t)"
| "txn_call Call_mark_visible t = snd (mark_visible t)"
| "txn_call Call_txn_abort t = snd (txn_abort t)"
| "txn_call Call_release t = snd (txn_release t)"

text \<open>The states a transaction can be in: any sequence of calls, failing ones included.\<close>

inductive txn_reachable :: "TxnId \<Rightarrow> CommitSeq \<Rightarrow> TransactionState \<Rightarrow> bool"
  for tid :: TxnId and snapshot :: CommitSeq where
  start: "txn_reachable tid snapshot (txn_new tid snapshot)"
| step: "txn_reachable tid snapshot t \<Longrightarrow> txn_reachable tid snapshot (txn_call c t)"

lemmas txn_ops = begin_validation_def mark_prepared_def mark_wal_appended_def mark_durable_def
  mark_recovery_required_def mark_visible_def txn_abort_def txn_release_def txn_transition_def
  require_phase_def stage_ordered_put_def stage_ordered_delete_def next_ordinal_def
  require_authoritative_def

section \<open>The transaction invariant\<close>

text \<open>
  What holds between the phase and the other fields: a commit sequence exists from preparation on,
  a decision position from the append on, and the commit position is published exactly with the
  durable decision and agrees with both.
\<close>

definition phase_ok :: "TransactionState \<Rightarrow> bool" where
  "phase_ok t =
     (case tx_phase t of
        Ph_Active \<Rightarrow> tx_commit_seq t = None \<and> tx_decision_lsn t = None \<and> tx_position t = None
      | Ph_Validating \<Rightarrow> tx_commit_seq t = None \<and> tx_decision_lsn t = None \<and> tx_position t = None
      | Ph_Prepared \<Rightarrow> tx_commit_seq t \<noteq> None \<and> tx_decision_lsn t = None \<and> tx_position t = None
      | Ph_WalAppended \<Rightarrow> tx_commit_seq t \<noteq> None \<and> tx_decision_lsn t \<noteq> None \<and> tx_position t = None
      | Ph_DurableDecision \<Rightarrow> tx_position t \<noteq> None
      | Ph_Visible \<Rightarrow> tx_position t \<noteq> None
      | Ph_Aborted \<Rightarrow> tx_commit_seq t = None \<and> tx_decision_lsn t = None \<and> tx_position t = None
      | Ph_RecoveryRequired \<Rightarrow> tx_commit_seq t \<noteq> None
      | Ph_Released \<Rightarrow> tx_commit_seq t = None \<longleftrightarrow> tx_position t = None)"

definition txn_inv :: "TransactionState \<Rightarrow> bool" where
  "txn_inv t \<longleftrightarrow>
     stream_ok (tx_id t) 0 (tx_mutations t) \<and>
     (\<forall>m \<in> set (tx_mutations t). lm_kind m = OrderedDelete \<longrightarrow> lm_value m = []) \<and>
     phase_ok t \<and>
     (\<forall>p. tx_position t = Some p \<longrightarrow>
        tx_commit_seq t = Some (cp_csn p) \<and> tx_decision_lsn t = Some (cp_lsn p))"

lemma txn_inv_new: "txn_inv (txn_new tid snapshot)"
  by (simp add: txn_inv_def txn_new_def phase_ok_def)

lemma txn_inv_stage:
  assumes "txn_inv t" "tx_phase t = Ph_Active" "lm_txn_id m = tx_id t"
    and "u32_try_from (length (tx_mutations t)) = Some (lm_ordinal m)"
    and "lm_kind m = OrderedDelete \<longrightarrow> lm_value m = []"
  shows "txn_inv (t\<lparr>tx_mutations := tx_mutations t @ [m]\<rparr>)"
  using assms by (auto simp: txn_inv_def phase_ok_def stream_ok_snoc u32_try_from_eq_Some)

lemma txn_inv_call: "txn_inv t \<Longrightarrow> txn_inv (txn_call c t)"
proof (cases c)
  case (Call_stage_put object key v)
  assume "txn_inv t"
  then show ?thesis
    using Call_stage_put
    by (auto simp: txn_ops ordered_put_def split: sum.splits if_splits option.splits
        intro!: txn_inv_stage)
next
  case (Call_stage_delete object key)
  assume "txn_inv t"
  then show ?thesis
    using Call_stage_delete
    by (auto simp: txn_ops ordered_delete_def split: sum.splits if_splits option.splits
        intro!: txn_inv_stage)
qed (auto simp: txn_ops txn_inv_def phase_ok_def Let_def
    split: sum.splits if_splits option.splits TransactionPhase.splits)

lemma txn_call_identity [simp]:
  "tx_id (txn_call c t) = tx_id t" "tx_snapshot (txn_call c t) = tx_snapshot t"
  by (cases c; auto simp: txn_ops Let_def split: sum.splits)+

lemma txn_reachable_inv:
  assumes "txn_reachable tid snapshot t"
  shows "txn_inv t \<and> tx_id t = tid \<and> tx_snapshot t = snapshot"
  using assms
proof induction
  case start
  then show ?case using txn_inv_new by (simp add: txn_new_def)
next
  case (step t c)
  then show ?case using txn_inv_call by simp
qed

lemma txn_reachable_run: "txn_reachable tid snapshot t \<Longrightarrow> txn_reachable tid snapshot (fold txn_call cs t)"
  by (induction cs arbitrary: t) (auto intro: txn_reachable.step)






section \<open>The overlay\<close>

definition effect_lookup :: "FinalEffect list \<Rightarrow> StorageObjectId \<Rightarrow> bytes \<Rightarrow> StagedOrderedLookup" where
  "effect_lookup es object key =
     (case List.find (\<lambda>e. fe_place e = (object, key)) es of
        None \<Rightarrow> Staged_Unchanged
      | Some e \<Rightarrow>
          (case fe_kind e of OrderedPut \<Rightarrow> Staged_Put (fe_value e) | OrderedDelete \<Rightarrow> Staged_Delete))"

lemma staged_lookup_latest:
  "staged_ordered_lookup t object key =
     (case latest (tx_mutations t) (object, key) of
        None \<Rightarrow> Staged_Unchanged
      | Some m \<Rightarrow>
          (case lm_kind m of OrderedPut \<Rightarrow> Staged_Put (lm_value m) | OrderedDelete \<Rightarrow> Staged_Delete))"
  by (simp add: staged_ordered_lookup_def latest_def lm_place_def)

lemma overlay_effects:
  assumes "normalize_final_effects (tx_id t) (tx_mutations t) = Inr es"
  shows "staged_ordered_lookup t object key = effect_lookup es object key"
  using normalize_effects(2) [OF assms, of "(object, key)"]
  by (auto simp: staged_lookup_latest effect_lookup_def fe_kind_def fe_value_def
      split: option.splits MutationKind.splits)

section \<open>Properties\<close>

text \<open>
  C8.  Whatever calls a transaction has received, its staged stream normalizes (unless its identity
  is the reserved 0), and reading a key through the private overlay gives exactly the effect that
  commit will install for that key: the last staged put or delete, or nothing.
\<close>
theorem txn_overlay_agrees_with_final_effects:
  assumes "txn_reachable tid snapshot t" "tid \<noteq> 0"
  shows "\<exists>es. txn_final_effects t = Inr es \<and>
    (\<forall>object key. staged_ordered_lookup t object key = effect_lookup es object key)"
proof -
  have "stream_ok (tx_id t) 0 (tx_mutations t)" "tx_id t \<noteq> 0"
    using txn_reachable_inv [OF assms(1)] assms(2) by (auto simp: txn_inv_def)
  then obtain es where "normalize_final_effects (tx_id t) (tx_mutations t) = Inr es"
    using normalize_success by blast
  then show ?thesis using overlay_effects by (auto simp: txn_final_effects_def)
qed

theorem txn_overlay_agrees_with_final_effects_witness:
  "let obj = \<lparr>sod_id = 1, sod_authority = Authoritative\<rparr>;
       t = fold txn_call [Call_stage_put obj [107] [1], Call_stage_delete obj [107]] (txn_new 5 0)
   in \<exists>es. txn_final_effects t = Inr es \<and>
     (\<forall>object key. staged_ordered_lookup t object key = effect_lookup es object key)"
  unfolding Let_def
  by (rule txn_overlay_agrees_with_final_effects [where tid = 5 and snapshot = 0])
    (rule txn_reachable_run, rule txn_reachable.start, simp)



text \<open>
  A transaction is visible only through a durable decision: in every reachable state, the
  visible and the durable phase carry a commit position, and a commit position always names the
  commit sequence given at preparation and the very log position at which the decision was appended.
\<close>
theorem txn_position_is_the_decision:
  assumes "txn_reachable tid snapshot t"
  shows "(tx_phase t \<in> {Ph_DurableDecision, Ph_Visible} \<longrightarrow> tx_position t \<noteq> None) \<and>
    (\<forall>p. tx_position t = Some p \<longrightarrow>
       tx_commit_seq t = Some (cp_csn p) \<and> tx_decision_lsn t = Some (cp_lsn p))"
  using txn_reachable_inv [OF assms] by (auto simp: txn_inv_def phase_ok_def)

theorem txn_position_is_the_decision_witness:
  "let t = fold txn_call [Call_begin_validation, Call_mark_prepared 4, Call_mark_wal_appended 9,
      Call_mark_durable 9, Call_mark_visible] (txn_new 5 0) in
   \<exists>p. tx_position t = Some p \<and> tx_commit_seq t = Some (cp_csn p) \<and> tx_decision_lsn t = Some (cp_lsn p)"
proof -
  let ?t = "fold txn_call [Call_begin_validation, Call_mark_prepared 4, Call_mark_wal_appended 9,
      Call_mark_durable 9, Call_mark_visible] (txn_new 5 0)"
  have "txn_reachable 5 0 ?t" by (rule txn_reachable_run, rule txn_reachable.start)
  note position = txn_position_is_the_decision [OF this]
  have "tx_phase ?t = Ph_Visible" by code_simp
  then obtain p where "tx_position ?t = Some p" using position by auto
  then show ?thesis unfolding Let_def using position by blast
qed

end
