(* ===== verification/Recovery.thy ===== *)
theory Recovery
  imports Txn
begin

text \<open>
  Model of \<open>vnext/recovery.rs\<close>: the assembler that consumes log records in log order and emits a
  transaction only when its commit decision validates the mutations collected for it.  The state
  after a rejected record is kept, because \<open>push\<close> changes the assembler before some of its errors.
\<close>

record RecoveredTransaction =
  rt_txn_id :: TxnId
  rt_position :: CommitPosition
  rt_mutations :: "LoggedMutation list"

definition recovered_final_effects :: "RecoveredTransaction \<Rightarrow> FinalWriteSetError + FinalEffect list" where
  "recovered_final_effects t = normalize_final_effects (rt_txn_id t) (rt_mutations t)"

datatype RecoveryError =
    Rec_NonMonotonicLsn Lsn Lsn
  | Rec_ReservedTxn
  | Rec_ReservedCommitSeq
  | Rec_MutationOrdinal TxnId u32 u32
  | Rec_RecordAfterTerminal TxnId
  | Rec_MutationCount TxnId u32 u32
  | Rec_MutationDigest TxnId
  | Rec_NonMonotonicCommitSeq CommitSeq CommitSeq
  | Rec_MutationEncoding

record RecoveryAssembler =
  ra_pending :: "TxnId \<rightharpoonup> LoggedMutation list"
  ra_terminal :: "TxnId set"
  ra_last_lsn :: "Lsn option"
  ra_last_csn :: "CommitSeq option"

definition assembler_new :: RecoveryAssembler where
  "assembler_new = \<lparr>ra_pending = Map.empty, ra_terminal = {}, ra_last_lsn = None, ra_last_csn = None\<rparr>"

definition u32_or_max :: "nat \<Rightarrow> u32" where
  "u32_or_max n = (case u32_try_from n of None \<Rightarrow> 0xffffffff | Some w \<Rightarrow> w)"

definition or_default :: "'a list option \<Rightarrow> 'a list" where
  "or_default m = (case m of None \<Rightarrow> [] | Some xs \<Rightarrow> xs)"

definition advance_lsn ::
  "RecoveryAssembler \<Rightarrow> Lsn \<Rightarrow> (RecoveryError + unit) \<times> RecoveryAssembler" where
  "advance_lsn a actual =
     (case opt_filter (\<lambda>previous. actual \<le> previous) (ra_last_lsn a) of
        Some previous \<Rightarrow> (Inl (Rec_NonMonotonicLsn previous actual), a)
      | None \<Rightarrow> (Inr (), a\<lparr>ra_last_lsn := Some actual\<rparr>))"

definition push_mutation ::
  "RecoveryAssembler \<Rightarrow> LoggedMutation \<Rightarrow> (RecoveryError + RecoveredTransaction option) \<times> RecoveryAssembler" where
  "push_mutation a m =
     (let txn = lm_txn_id m in
      if txn = 0 then (Inl Rec_ReservedTxn, a)
      else if txn \<in> ra_terminal a then (Inl (Rec_RecordAfterTerminal txn), a)
      else let pending = or_default (ra_pending a txn);
               a' = a\<lparr>ra_pending := (ra_pending a)(txn \<mapsto> pending)\<rparr>;
               expected = u32_or_max (length pending)
           in if lm_ordinal m \<noteq> expected
              then (Inl (Rec_MutationOrdinal txn expected (lm_ordinal m)), a')
              else (Inr None, a'\<lparr>ra_pending := (ra_pending a')(txn \<mapsto> pending @ [m])\<rparr>))"

definition push_abort ::
  "RecoveryAssembler \<Rightarrow> TxnId \<Rightarrow> (RecoveryError + RecoveredTransaction option) \<times> RecoveryAssembler" where
  "push_abort a txn =
     (if txn = 0 then (Inl Rec_ReservedTxn, a)
      else if txn \<in> ra_terminal a then (Inl (Rec_RecordAfterTerminal txn), a)
      else (Inr None, a\<lparr>ra_terminal := insert txn (ra_terminal a),
                        ra_pending := (ra_pending a)(txn := None)\<rparr>))"

definition push_commit ::
  "(bytes \<Rightarrow> u32) \<Rightarrow> RecoveryAssembler \<Rightarrow> Lsn \<Rightarrow> CommitDecision \<Rightarrow>
     (RecoveryError + RecoveredTransaction option) \<times> RecoveryAssembler" where
  "push_commit crc a lsn d =
     (let txn = cd_txn_id d in
      if txn = 0 then (Inl Rec_ReservedTxn, a)
      else if cd_csn d = 0 then (Inl Rec_ReservedCommitSeq, a)
      else if txn \<in> ra_terminal a then (Inl (Rec_RecordAfterTerminal txn), a)
      else let a1 = a\<lparr>ra_terminal := insert txn (ra_terminal a)\<rparr> in
        case opt_filter (\<lambda>previous. cd_csn d \<le> previous) (ra_last_csn a1) of
          Some previous \<Rightarrow> (Inl (Rec_NonMonotonicCommitSeq previous (cd_csn d)), a1)
        | None \<Rightarrow>
            let mutations = or_default (ra_pending a1 txn);
                 a2 = a1\<lparr>ra_pending := (ra_pending a1)(txn := None)\<rparr>;
                 actual = u32_or_max (length mutations)
             in if cd_mutation_count d \<noteq> actual
                then (Inl (Rec_MutationCount txn (cd_mutation_count d) actual), a2)
                else case mutation_digest crc mutations of
                  Inl _ \<Rightarrow> (Inl Rec_MutationEncoding, a2)
                | Inr digest \<Rightarrow>
                    if cd_mutation_digest d \<noteq> digest then (Inl (Rec_MutationDigest txn), a2)
                    else (Inr (Some \<lparr>rt_txn_id = txn,
                                     rt_position = \<lparr>cp_csn = cd_csn d, cp_lsn = lsn\<rparr>,
                                     rt_mutations = mutations\<rparr>),
                          a2\<lparr>ra_last_csn := Some (cd_csn d)\<rparr>))"

definition recovery_push ::
  "(bytes \<Rightarrow> u32) \<Rightarrow> RecoveryAssembler \<Rightarrow> Lsn \<Rightarrow> LogRecord \<Rightarrow>
     (RecoveryError + RecoveredTransaction option) \<times> RecoveryAssembler" where
  "recovery_push crc a lsn r =
     (case advance_lsn a lsn of
        (Inl e, a') \<Rightarrow> (Inl e, a')
      | (Inr _, a') \<Rightarrow>
          (case r of
             Mutation m \<Rightarrow> push_mutation a' m
           | Abort txn \<Rightarrow> push_abort a' txn
           | Commit d \<Rightarrow> push_commit crc a' lsn d))"

definition pending_transactions :: "RecoveryAssembler \<Rightarrow> nat" where
  "pending_transactions a = card (dom (ra_pending a))"

text \<open>Replaying a whole log: the first error stops it; otherwise the emitted transactions in order.\<close>

fun recover_run ::
  "(bytes \<Rightarrow> u32) \<Rightarrow> RecoveryAssembler \<Rightarrow> (Lsn \<times> LogRecord) list \<Rightarrow>
     RecoveryError + RecoveryAssembler \<times> RecoveredTransaction list" where
  "recover_run crc a [] = Inr (a, [])"
| "recover_run crc a ((lsn, r) # log) =
     (case recovery_push crc a lsn r of
        (Inl e, a') \<Rightarrow> Inl e
      | (Inr out, a') \<Rightarrow>
          rbind (recover_run crc a' log) (\<lambda>(a'', outs).
          Inr (a'', (case out of None \<Rightarrow> outs | Some t \<Rightarrow> t # outs))))"

section \<open>What a log commits\<close>

text \<open>
  The specification, on the log alone: the mutations of a transaction in log order, and for every
  commit decision in the log the transaction with the mutations that precede it.
\<close>

fun record_mutation :: "TxnId \<Rightarrow> Lsn \<times> LogRecord \<Rightarrow> LoggedMutation option" where
  "record_mutation txn (lsn, Mutation m) = (if lm_txn_id m = txn then Some m else None)"
| "record_mutation txn (lsn, _) = None"

definition log_mutations :: "TxnId \<Rightarrow> (Lsn \<times> LogRecord) list \<Rightarrow> LoggedMutation list" where
  "log_mutations txn log = List.map_filter (record_mutation txn) log"

fun committed_from :: "(Lsn \<times> LogRecord) list \<Rightarrow> (Lsn \<times> LogRecord) list \<Rightarrow> RecoveredTransaction list" where
  "committed_from before [] = []"
| "committed_from before ((lsn, Commit d) # log) =
     \<lparr>rt_txn_id = cd_txn_id d, rt_position = \<lparr>cp_csn = cd_csn d, cp_lsn = lsn\<rparr>,
      rt_mutations = log_mutations (cd_txn_id d) before\<rparr> # committed_from (before @ [(lsn, Commit d)]) log"
| "committed_from before ((lsn, Mutation m) # log) = committed_from (before @ [(lsn, Mutation m)]) log"
| "committed_from before ((lsn, Abort t) # log) = committed_from (before @ [(lsn, Abort t)]) log"

lemma log_mutations_append: "log_mutations txn (xs @ ys) = log_mutations txn xs @ log_mutations txn ys"
  by (induction xs) (auto simp: log_mutations_def map_filter_simps split: option.splits)

lemma log_mutations_simps [simp]:
  "log_mutations txn [] = []"
  "log_mutations txn [(lsn, Mutation m)] = (if lm_txn_id m = txn then [m] else [])"
  "log_mutations txn [(lsn, Commit d)] = []"
  "log_mutations txn [(lsn, Abort t)] = []"
  by (simp_all add: log_mutations_def map_filter_def)

lemma or_default_simps [simp]: "or_default None = []" "or_default (Some xs) = xs"
  by (simp_all add: or_default_def)

lemma u32_or_max_small: "n < 2 ^ 32 \<Longrightarrow> u32_or_max n = of_nat n"
  by (simp add: u32_or_max_def u32_try_from_def)

text \<open>
  The assembler after a prefix of the log: undecided transactions hold their mutations, decided
  ones are terminal and hold none.
\<close>

definition assembler_inv :: "RecoveryAssembler \<Rightarrow> (Lsn \<times> LogRecord) list \<Rightarrow> bool" where
  "assembler_inv a before \<longleftrightarrow>
     (\<forall>txn. txn \<notin> ra_terminal a \<longrightarrow> or_default (ra_pending a txn) = log_mutations txn before) \<and>
     (\<forall>txn \<in> ra_terminal a. ra_pending a txn = None)"

lemma assembler_inv_new: "assembler_inv assembler_new []"
  by (simp add: assembler_inv_def assembler_new_def)

lemma advance_lsn_inv:
  "advance_lsn a lsn = (Inr (), a') \<Longrightarrow>
     ra_pending a' = ra_pending a \<and> ra_terminal a' = ra_terminal a \<and> ra_last_csn a' = ra_last_csn a \<and>
     ra_last_lsn a' = Some lsn \<and> (\<forall>p. ra_last_lsn a = Some p \<longrightarrow> p < lsn)"
  by (auto simp: advance_lsn_def split: option.splits if_splits)

lemma recovery_push_step:
  assumes "recovery_push crc a lsn r = (Inr out, a')" "assembler_inv a before"
  shows "assembler_inv a' (before @ [(lsn, r)]) \<and>
    (case out of None \<Rightarrow> [] | Some t \<Rightarrow> [t]) = committed_from before [(lsn, r)]"
proof -
  obtain a1 where a1: "advance_lsn a lsn = (Inr (), a1)"
    using assms(1) by (auto simp: recovery_push_def split: prod.splits sum.splits)
  have inv1: "assembler_inv a1 before"
    using advance_lsn_inv [OF a1] assms(2) by (simp add: assembler_inv_def)
  show ?thesis
  proof (cases r)
    case (Mutation m)
    then have "push_mutation a1 m = (Inr out, a')" using assms(1) a1 by (simp add: recovery_push_def)
    then show ?thesis
      using inv1 Mutation
      by (auto simp: push_mutation_def assembler_inv_def log_mutations_append Let_def split: if_splits)
  next
    case (Commit d)
    then have "push_commit crc a1 lsn d = (Inr out, a')" using assms(1) a1 by (simp add: recovery_push_def)
    then show ?thesis
      using inv1 Commit
      by (auto simp: push_commit_def assembler_inv_def log_mutations_append Let_def
          split: if_splits sum.splits option.splits)
  next
    case (Abort t)
    then have "push_abort a1 t = (Inr out, a')" using assms(1) a1 by (simp add: recovery_push_def)
    then show ?thesis
      using inv1 Abort
      by (auto simp: push_abort_def assembler_inv_def log_mutations_append split: if_splits)
  qed
qed

lemma committed_from_Cons:
  "committed_from before (x # log) = committed_from before [x] @ committed_from (before @ [x]) log"
  by (cases x; cases "snd x") auto

lemma recover_run_committed:
  assumes "recover_run crc a log = Inr (a', outs)" "assembler_inv a before"
  shows "assembler_inv a' (before @ log) \<and> outs = committed_from before log"
  using assms
proof (induction log arbitrary: a before outs)
  case Nil
  then show ?case by simp
next
  case (Cons x log)
  obtain lsn r where x: "x = (lsn, r)" by fastforce
  from Cons.prems(1) obtain out a1 outs1 where
    push: "recovery_push crc a lsn r = (Inr out, a1)" and
    run: "recover_run crc a1 log = Inr (a', outs1)" and
    outs: "outs = (case out of None \<Rightarrow> [] | Some t \<Rightarrow> [t]) @ outs1"
    by (auto simp: x split: prod.splits sum.splits option.splits)
  from recovery_push_step [OF push Cons.prems(2)] have
    inv: "assembler_inv a1 (before @ [x])" and
    step: "(case out of None \<Rightarrow> [] | Some t \<Rightarrow> [t]) = committed_from before [x]" by (simp_all add: x)
  from Cons.IH [OF run inv] show ?case
    using outs step committed_from_Cons [of before x log] by simp
qed

section \<open>What a recovered transaction satisfies\<close>

definition recovered_ok :: "(bytes \<Rightarrow> u32) \<Rightarrow> (Lsn \<times> LogRecord) list \<Rightarrow> RecoveredTransaction \<Rightarrow> bool" where
  "recovered_ok crc log t \<longleftrightarrow>
     rt_txn_id t \<noteq> 0 \<and> cp_csn (rt_position t) \<noteq> 0 \<and> stream_ok (rt_txn_id t) 0 (rt_mutations t) \<and>
     (\<exists>d. (cp_lsn (rt_position t), Commit d) \<in> set log \<and> cd_txn_id d = rt_txn_id t \<and>
          cd_csn d = cp_csn (rt_position t) \<and> cd_mutation_count d = of_nat (length (rt_mutations t)) \<and>
          mutation_digest crc (rt_mutations t) = Inr (cd_mutation_digest d))"

text \<open>Pending streams are well formed as long as fewer than \<open>2 ^ 32\<close> records have been read.\<close>

definition pending_ok :: "RecoveryAssembler \<Rightarrow> nat \<Rightarrow> bool" where
  "pending_ok a n \<longleftrightarrow>
     (\<forall>txn ms. ra_pending a txn = Some ms \<longrightarrow> stream_ok txn 0 ms \<and> length ms \<le> n)"

lemma push_ok:
  assumes "recovery_push crc a lsn r = (Inr out, a')" "pending_ok a n" "n < 2 ^ 32"
  shows "pending_ok a' (Suc n) \<and> ra_last_lsn a' = Some lsn \<and>
    (\<forall>p. ra_last_lsn a = Some p \<longrightarrow> p < lsn) \<and> ra_terminal a \<subseteq> ra_terminal a' \<and>
    (case out of
       None \<Rightarrow> ra_last_csn a' = ra_last_csn a
     | Some t \<Rightarrow> recovered_ok crc [(lsn, r)] t \<and> cp_lsn (rt_position t) = lsn \<and>
         rt_txn_id t \<notin> ra_terminal a \<and> rt_txn_id t \<in> ra_terminal a' \<and>
         ra_last_csn a' = Some (cp_csn (rt_position t)) \<and>
         (\<forall>c. ra_last_csn a = Some c \<longrightarrow> c < cp_csn (rt_position t)))"
proof -
  obtain a1 where a1: "advance_lsn a lsn = (Inr (), a1)"
    using assms(1) by (auto simp: recovery_push_def split: prod.splits sum.splits)
  note adv = advance_lsn_inv [OF a1]
  have ok1: "pending_ok a1 n" using adv assms(2) by (simp add: pending_ok_def)
  show ?thesis
  proof (cases r)
    case (Mutation m)
    let ?ms = "or_default (ra_pending a1 (lm_txn_id m))"
    have push: "push_mutation a1 m = (Inr out, a')" using Mutation assms(1) a1 by (simp add: recovery_push_def)
    have ms: "stream_ok (lm_txn_id m) 0 ?ms" "length ?ms \<le> n"
      using ok1 by (auto simp: pending_ok_def or_default_def split: option.splits)
    have "lm_txn_id m \<noteq> 0" "lm_ordinal m = of_nat (length ?ms)" "out = None"
      "a' = a1\<lparr>ra_pending := (ra_pending a1)(lm_txn_id m \<mapsto> ?ms @ [m])\<rparr>"
      using push ms(2) assms(3) by (auto simp: push_mutation_def u32_or_max_small Let_def split: if_splits)
    then show ?thesis
      using ok1 ms assms(3) adv by (auto simp: pending_ok_def stream_ok_snoc intro: le_SucI)
  next
    case (Commit d)
    let ?ms = "or_default (ra_pending a1 (cd_txn_id d))"
    have push: "push_commit crc a1 lsn d = (Inr out, a')" using Commit assms(1) a1 by (simp add: recovery_push_def)
    have ms: "stream_ok (cd_txn_id d) 0 ?ms" "length ?ms \<le> n"
      using ok1 by (auto simp: pending_ok_def or_default_def split: option.splits)
    have "cd_txn_id d \<noteq> 0" "cd_csn d \<noteq> 0" "cd_txn_id d \<notin> ra_terminal a1"
      "\<forall>c. ra_last_csn a1 = Some c \<longrightarrow> c < cd_csn d" "cd_mutation_count d = u32_or_max (length ?ms)"
      "mutation_digest crc ?ms = Inr (cd_mutation_digest d)"
      "out = Some \<lparr>rt_txn_id = cd_txn_id d, rt_position = \<lparr>cp_csn = cd_csn d, cp_lsn = lsn\<rparr>,
         rt_mutations = ?ms\<rparr>"
      "a' = a1\<lparr>ra_terminal := insert (cd_txn_id d) (ra_terminal a1),
         ra_pending := (ra_pending a1)(cd_txn_id d := None), ra_last_csn := Some (cd_csn d)\<rparr>"
      using push by (auto simp: push_commit_def Let_def not_le split: if_splits option.splits sum.splits)
    then show ?thesis
      using ok1 ms assms(3) adv Commit
      by (auto simp: pending_ok_def recovered_ok_def u32_or_max_small intro: le_SucI)
  next
    case (Abort t)
    have push: "push_abort a1 t = (Inr out, a')" using Abort assms(1) a1 by (simp add: recovery_push_def)
    then show ?thesis
      using ok1 adv by (auto simp: push_abort_def pending_ok_def intro: le_SucI split: if_splits)
  qed
qed

definition after_opt :: "'a::linorder option \<Rightarrow> 'a \<Rightarrow> bool" where
  "after_opt previous x \<longleftrightarrow> (\<forall>p. previous = Some p \<longrightarrow> p < x)"

lemma after_opt_simps [simp]: "after_opt None x" "after_opt (Some p) x \<longleftrightarrow> p < x"
  by (simp_all add: after_opt_def)

lemma recovered_ok_mono: "recovered_ok crc log t \<Longrightarrow> set log \<subseteq> set log' \<Longrightarrow> recovered_ok crc log' t"
  by (auto simp: recovered_ok_def)

lemma recover_run_ok:
  assumes "recover_run crc a log = Inr (a', outs)" "pending_ok a n" "n + length log < 2 ^ 32"
  shows "sorted_wrt (<) (map fst log) \<and> (\<forall>x \<in> set log. after_opt (ra_last_lsn a) (fst x)) \<and>
    sorted_wrt (<) (map (\<lambda>t. cp_csn (rt_position t)) outs) \<and>
    (\<forall>t \<in> set outs. after_opt (ra_last_csn a) (cp_csn (rt_position t)) \<and> recovered_ok crc log t \<and>
       rt_txn_id t \<notin> ra_terminal a) \<and>
    distinct (map rt_txn_id outs)"
  using assms
proof (induction log arbitrary: a n outs)
  case Nil
  then show ?case by simp
next
  case (Cons x log)
  obtain lsn r where x: "x = (lsn, r)" by fastforce
  from Cons.prems(1) obtain out a1 outs1 where
    push: "recovery_push crc a lsn r = (Inr out, a1)" and
    run: "recover_run crc a1 log = Inr (a', outs1)" and
    outs: "outs = (case out of None \<Rightarrow> [] | Some t \<Rightarrow> [t]) @ outs1"
    by (auto simp: x split: prod.splits sum.splits option.splits)
  have "n < 2 ^ 32" using Cons.prems(3) by simp
  note step = push_ok [OF push Cons.prems(2) this]
  then have lsn: "after_opt (ra_last_lsn a) lsn" "ra_last_lsn a1 = Some lsn"
    "ra_terminal a \<subseteq> ra_terminal a1"
    by (auto simp: after_opt_def)
  have IH: "sorted_wrt (<) (map fst log)" "\<forall>y \<in> set log. after_opt (ra_last_lsn a1) (fst y)"
    "sorted_wrt (<) (map (\<lambda>t. cp_csn (rt_position t)) outs1)"
    "\<forall>t \<in> set outs1. after_opt (ra_last_csn a1) (cp_csn (rt_position t)) \<and> recovered_ok crc log t \<and>
       rt_txn_id t \<notin> ra_terminal a1"
    "distinct (map rt_txn_id outs1)"
    using Cons.IH [OF run, of "Suc n"] step Cons.prems(3) by auto
  have log: "sorted_wrt (<) (map fst (x # log))" "\<forall>y \<in> set (x # log). after_opt (ra_last_lsn a) (fst y)"
    using IH(1,2) lsn by (auto simp: x after_opt_def)
  have outs1: "\<forall>t \<in> set outs1. recovered_ok crc (x # log) t \<and> rt_txn_id t \<notin> ra_terminal a"
    using IH(4) lsn(3) recovered_ok_mono [of crc log _ "x # log"] by auto
  show ?case
  proof (cases out)
    case None
    then show ?thesis using step log outs1 IH(3-5) outs by auto
  next
    case (Some t)
    then have t: "recovered_ok crc [x] t" "rt_txn_id t \<notin> ra_terminal a" "rt_txn_id t \<in> ra_terminal a1"
      "ra_last_csn a1 = Some (cp_csn (rt_position t))" "after_opt (ra_last_csn a) (cp_csn (rt_position t))"
      using step by (auto simp: x after_opt_def)
    have "\<forall>u \<in> set outs1. cp_csn (rt_position t) < cp_csn (rt_position u)"
      using IH(4) t(4) by auto
    moreover from this have "\<forall>u \<in> set outs1. after_opt (ra_last_csn a) (cp_csn (rt_position u))"
      using t(5) by (auto simp: after_opt_def)
    moreover have "recovered_ok crc (x # log) t" using recovered_ok_mono [OF t(1)] by simp
    ultimately show ?thesis using log outs1 IH(3-5) outs Some t(2,3,5) by auto
  qed
qed

section \<open>Which logs are accepted\<close>

fun record_txn :: "LogRecord \<Rightarrow> TxnId" where
  "record_txn (Mutation m) = lm_txn_id m"
| "record_txn (Commit d) = cd_txn_id d"
| "record_txn (Abort txn) = txn"

fun record_csn :: "Lsn \<times> LogRecord \<Rightarrow> CommitSeq option" where
  "record_csn (lsn, Commit d) = Some (cd_csn d)"
| "record_csn (lsn, _) = None"

fun is_terminal :: "LogRecord \<Rightarrow> bool" where
  "is_terminal (Mutation m) = False"
| "is_terminal (Commit d) = True"
| "is_terminal (Abort txn) = True"

definition log_terminal :: "(Lsn \<times> LogRecord) list \<Rightarrow> TxnId set" where
  "log_terminal log = record_txn ` {r \<in> snd ` set log. is_terminal r}"

definition last_opt :: "'a list \<Rightarrow> 'a option" where
  "last_opt xs = (if xs = [] then None else Some (last xs))"

text \<open>
  A record is valid after a prefix: its position is later, its transaction is not the reserved one
  and not yet decided, a mutation continues the stream of its transaction, and a commit has a later
  sequence and names the number and the digest of the mutations in the prefix.
\<close>

definition record_valid :: "(bytes \<Rightarrow> u32) \<Rightarrow> (Lsn \<times> LogRecord) list \<Rightarrow> Lsn \<Rightarrow> LogRecord \<Rightarrow> bool" where
  "record_valid crc before lsn r \<longleftrightarrow>
     after_opt (last_opt (map fst before)) lsn \<and> record_txn r \<noteq> 0 \<and> record_txn r \<notin> log_terminal before \<and>
     (case r of
        Mutation m \<Rightarrow> lm_ordinal m = u32_or_max (length (log_mutations (lm_txn_id m) before))
      | Abort txn \<Rightarrow> True
      | Commit d \<Rightarrow>
          let ms = log_mutations (cd_txn_id d) before in
          cd_csn d \<noteq> 0 \<and> after_opt (last_opt (List.map_filter record_csn before)) (cd_csn d) \<and>
          cd_mutation_count d = u32_or_max (length ms) \<and>
          mutation_digest crc ms = Inr (cd_mutation_digest d))"

fun log_valid :: "(bytes \<Rightarrow> u32) \<Rightarrow> (Lsn \<times> LogRecord) list \<Rightarrow> (Lsn \<times> LogRecord) list \<Rightarrow> bool" where
  "log_valid crc before [] = True"
| "log_valid crc before ((lsn, r) # log) =
     (record_valid crc before lsn r \<and> log_valid crc (before @ [(lsn, r)]) log)"

definition assembler_of :: "RecoveryAssembler \<Rightarrow> (Lsn \<times> LogRecord) list \<Rightarrow> bool" where
  "assembler_of a before \<longleftrightarrow>
     assembler_inv a before \<and> ra_terminal a = log_terminal before \<and>
     ra_last_lsn a = last_opt (map fst before) \<and>
     ra_last_csn a = last_opt (List.map_filter record_csn before)"

lemma last_opt_snoc [simp]: "last_opt (xs @ [x]) = Some x" "last_opt [] = None"
  by (simp_all add: last_opt_def)

lemma map_filter_snoc: "List.map_filter f (xs @ [x]) =
    (case f x of None \<Rightarrow> List.map_filter f xs | Some y \<Rightarrow> List.map_filter f xs @ [y])"
  by (induction xs) (auto simp: map_filter_simps split: option.splits)

lemma log_terminal_snoc: "log_terminal (xs @ [(lsn, r)]) =
    (if is_terminal r then insert (record_txn r) (log_terminal xs) else log_terminal xs)"
  by (auto simp: log_terminal_def)

lemma assembler_of_new: "assembler_of assembler_new []"
  by (simp add: assembler_of_def assembler_inv_new) (simp add: assembler_new_def log_terminal_def map_filter_def)

lemma push_valid:
  assumes "assembler_of a before"
  shows "(\<exists>out a'. recovery_push crc a lsn r = (Inr out, a')) \<longleftrightarrow> record_valid crc before lsn r"
proof (cases "after_opt (ra_last_lsn a) lsn")
  case False
  then have "\<exists>e. advance_lsn a lsn = (Inl e, a)"
    by (auto simp: advance_lsn_def after_opt_def opt_filter_def not_less split: option.splits)
  then show ?thesis using False assms by (auto simp: recovery_push_def record_valid_def assembler_of_def)
next
  case True
  then have adv: "advance_lsn a lsn = (Inr (), a\<lparr>ra_last_lsn := Some lsn\<rparr>)"
    by (auto simp: advance_lsn_def after_opt_def not_le split: option.splits)
  have pend: "txn \<notin> log_terminal before \<Longrightarrow> or_default (ra_pending a txn) = log_mutations txn before" for txn
    using assms by (simp add: assembler_of_def assembler_inv_def)
  have csn: "opt_filter (\<lambda>p. c \<le> p) (ra_last_csn a) = None \<longleftrightarrow> after_opt (ra_last_csn a) c" for c
    by (auto simp: after_opt_def not_le)
  show ?thesis
  proof (cases r)
    case (Mutation m)
    then show ?thesis
      using True assms pend [of "lm_txn_id m"]
      by (auto simp: recovery_push_def adv push_mutation_def record_valid_def assembler_of_def Let_def)
  next
    case (Abort txn)
    then show ?thesis
      using True assms by (auto simp: recovery_push_def adv push_abort_def record_valid_def assembler_of_def)
  next
    case (Commit d)
    then show ?thesis
      using True assms pend [of "cd_txn_id d"] csn [of "cd_csn d"]
      by (auto simp: recovery_push_def adv push_commit_def record_valid_def assembler_of_def Let_def
          split: option.splits sum.splits simp del: opt_filter_None opt_filter_Some)
  qed
qed

lemma push_assembler_of:
  assumes "assembler_of a before" "recovery_push crc a lsn r = (Inr out, a')"
  shows "assembler_of a' (before @ [(lsn, r)])"
proof -
  obtain a1 where a1: "advance_lsn a lsn = (Inr (), a1)"
    using assms(2) by (auto simp: recovery_push_def split: prod.splits sum.splits)
  note adv = advance_lsn_inv [OF a1]
  have inv: "assembler_inv a' (before @ [(lsn, r)])"
    using recovery_push_step [OF assms(2)] assms(1) by (simp add: assembler_of_def)
  show ?thesis
    using assms a1 adv inv
    by (cases r) (auto simp: assembler_of_def recovery_push_def push_mutation_def push_abort_def
        push_commit_def Let_def log_terminal_snoc map_filter_snoc split: if_splits option.splits sum.splits)
qed

lemma recover_run_valid:
  assumes "assembler_of a before"
  shows "(\<exists>a' outs. recover_run crc a log = Inr (a', outs)) \<longleftrightarrow> log_valid crc before log"
  using assms
proof (induction log arbitrary: a before)
  case Nil
  then show ?case by simp
next
  case (Cons x log)
  obtain lsn r where x: "x = (lsn, r)" by fastforce
  show ?case
  proof (cases "record_valid crc before lsn r")
    case True
    then obtain out a1 where push: "recovery_push crc a lsn r = (Inr out, a1)"
      using push_valid [OF Cons.prems] by blast
    then show ?thesis
      using Cons.IH [OF push_assembler_of [OF Cons.prems push]] True by (auto simp: x)
  next
    case False
    then have "\<exists>e a1. recovery_push crc a lsn r = (Inl e, a1)"
      using push_valid [OF Cons.prems, of crc lsn r] by (metis surj_pair sum.exhaust)
    then show ?thesis using False by (auto simp: x)
  qed
qed

section \<open>Replaying a live commit\<close>

lemma log_valid_append: "log_valid crc before (xs @ ys) \<longleftrightarrow> log_valid crc before xs \<and> log_valid crc (before @ xs) ys"
  by (induction crc before xs rule: log_valid.induct) auto

lemma committed_from_append: "committed_from before (xs @ ys) = committed_from before xs @ committed_from (before @ xs) ys"
  by (induction before xs rule: committed_from.induct) auto

lemma committed_from_mutations: "committed_from before (zip lsns (map Mutation ms)) = []"
proof (induction ms arbitrary: before lsns)
  case (Cons m ms)
  then show ?case by (cases lsns) auto
qed simp

lemma mutations_valid:
  assumes "stream_ok txn (length (log_mutations txn before)) ms" "txn \<noteq> 0" "txn \<notin> log_terminal before"
    and "length lsns = length ms" "sorted_wrt (<) lsns" "\<forall>l \<in> set lsns. after_opt (last_opt (map fst before)) l"
  shows "log_valid crc before (zip lsns (map Mutation ms)) \<and>
    log_mutations txn (before @ zip lsns (map Mutation ms)) = log_mutations txn before @ ms \<and>
    txn \<notin> log_terminal (before @ zip lsns (map Mutation ms)) \<and>
    List.map_filter record_csn (before @ zip lsns (map Mutation ms)) = List.map_filter record_csn before"
  using assms
proof (induction ms arbitrary: before lsns)
  case Nil
  then show ?case by simp
next
  case (Cons m ms)
  obtain l ls where lsns: "lsns = l # ls" using Cons.prems(4) by (cases lsns) auto
  let ?before = "before @ [(l, Mutation m)]"
  have len: "length (log_mutations txn before) < 2 ^ 32" and m: "lm_txn_id m = txn"
    "lm_ordinal m = of_nat (length (log_mutations txn before))"
    using Cons.prems(1) by simp_all
  have valid: "record_valid crc before l (Mutation m)"
    using Cons.prems len m by (simp add: record_valid_def lsns u32_or_max_small)
  have muts: "log_mutations txn ?before = log_mutations txn before @ [m]"
    using m by (simp add: log_mutations_append)
  have "\<forall>x \<in> set ls. after_opt (last_opt (map fst ?before)) x"
    using Cons.prems(5) by (simp add: lsns)
  then show ?case
    using Cons.IH [of ?before ls] Cons.prems valid muts m
    by (simp add: lsns log_terminal_snoc map_filter_snoc)
qed

lemma commit_batch_recovered:
  assumes t: "txn_reachable tid snapshot t" and d: "commit_decision crc t = Inr d" and "tid \<noteq> 0"
    and before: "log_valid crc [] before" "log_mutations tid before = []" "tid \<notin> log_terminal before"
    and csn: "cd_csn d \<noteq> 0" "after_opt (last_opt (List.map_filter record_csn before)) (cd_csn d)"
    and lsns: "length lsns = length (tx_mutations t)" "sorted_wrt (<) (lsns @ [lsn])"
      "\<forall>l \<in> set (lsns @ [lsn]). after_opt (last_opt (map fst before)) l"
  shows "\<exists>a. recover_run crc assembler_new
      (before @ zip lsns (map Mutation (tx_mutations t)) @ [(lsn, Commit d)]) =
    Inr (a, committed_from [] before @
      [\<lparr>rt_txn_id = tid, rt_position = \<lparr>cp_csn = cd_csn d, cp_lsn = lsn\<rparr>, rt_mutations = tx_mutations t\<rparr>])"
proof -
  let ?ms = "tx_mutations t"
  let ?muts = "zip lsns (map Mutation ?ms)"
  let ?log = "before @ ?muts @ [(lsn, Commit d)]"
  have inv: "stream_ok tid 0 ?ms" "tx_id t = tid"
    using txn_reachable_inv [OF t] by (auto simp: txn_inv_def)
  have dec: "cd_txn_id d = tid" "u32_try_from (length ?ms) = Some (cd_mutation_count d)"
    "mutation_digest crc ?ms = Inr (cd_mutation_digest d)"
    using d inv(2) by (auto simp: commit_decision_def)
  have muts: "log_valid crc before ?muts \<and> log_mutations tid (before @ ?muts) = ?ms \<and>
      tid \<notin> log_terminal (before @ ?muts) \<and>
      List.map_filter record_csn (before @ ?muts) = List.map_filter record_csn before"
    using mutations_valid [of tid before ?ms lsns crc] inv assms by (simp add: sorted_wrt_append)
  have last: "after_opt (last_opt (map fst (before @ ?muts))) lsn"
  proof (cases "?muts = []")
    case True
    have "after_opt (last_opt (map fst before)) lsn" using lsns(3) by simp
    then show ?thesis by (simp only: True append_Nil2)
  next
    case False
    then have "last (map fst (before @ ?muts)) = last lsns" "lsns \<noteq> []" using lsns(1) by auto
    then show ?thesis using lsns(2) False by (auto simp: last_opt_def sorted_wrt_append)
  qed
  have "u32_or_max (length ?ms) = cd_mutation_count d"
    using dec(2) by (simp add: u32_or_max_def)
  then have "record_valid crc (before @ ?muts) lsn (Commit d)"
    using muts last dec csn \<open>tid \<noteq> 0\<close> by (simp add: record_valid_def Let_def)
  then have "log_valid crc [] ?log"
    using before(1) muts by (simp add: log_valid_append)
  then obtain a outs where run: "recover_run crc assembler_new ?log = Inr (a, outs)"
    using recover_run_valid [OF assembler_of_new] by blast
  then have "outs = committed_from [] ?log"
    using recover_run_committed [OF run assembler_inv_new] by simp
  also have "\<dots> = committed_from [] before @
      [\<lparr>rt_txn_id = tid, rt_position = \<lparr>cp_csn = cd_csn d, cp_lsn = lsn\<rparr>, rt_mutations = ?ms\<rparr>]"
    using muts dec by (simp add: committed_from_append committed_from_mutations)
  finally show ?thesis using run by blast
qed

section \<open>Properties\<close>

text \<open>
  C2.  Recovery is exactly the log's meaning: replaying a log from the empty assembler fails exactly
  on the logs that are not valid, and otherwise emits, in log order, one transaction for each commit
  decision, with the mutations of that transaction that precede the decision.  Aborted and
  undecided transactions are never emitted.
\<close>
theorem recovery_emits_exactly_the_committed:
  "case recover_run crc assembler_new log of
     Inl e \<Rightarrow> \<not> log_valid crc [] log
   | Inr (a, outs) \<Rightarrow> log_valid crc [] log \<and> outs = committed_from [] log"
proof (cases "recover_run crc assembler_new log")
  case (Inl e)
  then show ?thesis using recover_run_valid [OF assembler_of_new, of crc log] by simp
next
  case (Inr r)
  obtain a outs where r: "r = (a, outs)" by fastforce
  then have "outs = committed_from [] log"
    using recover_run_committed [of crc assembler_new log a outs "[]"] Inr assembler_inv_new by simp
  then show ?thesis using recover_run_valid [OF assembler_of_new, of crc log] Inr r by auto
qed

text \<open>
  C24.  What recovery emits is well formed and ordered, for logs of fewer than \<open>2 ^ 32\<close> records: commit
  sequences and log positions increase strictly, no transaction is emitted twice, and each one
  has contiguous ordinals and matches the count and digest of a decision at its position.
\<close>
theorem recovery_output_well_formed:
  assumes "recover_run crc assembler_new log = Inr (a, outs)" "length log < 2 ^ 32"
  shows "sorted_wrt (<) (map fst log) \<and> sorted_wrt (<) (map (\<lambda>t. cp_csn (rt_position t)) outs) \<and>
    distinct (map rt_txn_id outs) \<and> (\<forall>t \<in> set outs. recovered_ok crc log t)"
  using recover_run_ok [OF assms(1), of 0] assms(2) by (auto simp: pending_ok_def assembler_new_def)

theorem recovery_output_well_formed_witness:
  "let log = [(10, Mutation (ordered_put 3 0 1 [7] [8])), (20, Abort 5),
      (30, Commit \<lparr>cd_txn_id = 3, cd_csn = 1, cd_mutation_count = 1, cd_mutation_digest = 0\<rparr>)]
   in recovered_ok (\<lambda>_. 0) log \<lparr>rt_txn_id = 3, rt_position = \<lparr>cp_csn = 1, cp_lsn = 30\<rparr>,
       rt_mutations = [ordered_put 3 0 1 [7] [8]]\<rparr>"
proof -
  let ?log = "[(10, Mutation (ordered_put 3 0 1 [7] [8])), (20, Abort 5),
      (30, Commit \<lparr>cd_txn_id = 3, cd_csn = 1, cd_mutation_count = 1, cd_mutation_digest = 0\<rparr>)]"
  have "\<exists>a. recover_run (\<lambda>_. 0) assembler_new ?log =
      Inr (a, [\<lparr>rt_txn_id = 3, rt_position = \<lparr>cp_csn = 1, cp_lsn = 30\<rparr>,
        rt_mutations = [ordered_put 3 0 1 [7] [8]]\<rparr>])"
    by (simp add: recovery_push_def advance_lsn_def assembler_new_def push_mutation_def push_abort_def
      push_commit_def u32_or_max_def u32_try_from_def ordered_put_def mutation_digest_def
      encode_mutation_payload_def checked_add_usize_def log_consts opt_filter_def Let_def)
  then show ?thesis unfolding Let_def using recovery_output_well_formed [of "\<lambda>_. 0" ?log] by auto
qed

text \<open>
  C6.  A live commit survives the log: appending the staged mutations of a reachable transaction and
  the decision it builds to any valid log, at later positions and with a later commit sequence,
  makes recovery emit what it emitted before followed by this transaction, with the same mutations,
  hence the same final effects.
\<close>
theorem live_commit_is_recovered:
  assumes "txn_reachable tid snapshot t" "commit_decision crc t = Inr d" "tid \<noteq> 0"
    and "log_valid crc [] before" "log_mutations tid before = []" "tid \<notin> log_terminal before"
    and "cd_csn d \<noteq> 0" "after_opt (last_opt (List.map_filter record_csn before)) (cd_csn d)"
    and "length lsns = length (tx_mutations t)" "sorted_wrt (<) (lsns @ [lsn])"
    and "\<forall>l \<in> set (lsns @ [lsn]). after_opt (last_opt (map fst before)) l"
  shows "\<exists>a r. recover_run crc assembler_new
      (before @ zip lsns (map Mutation (tx_mutations t)) @ [(lsn, Commit d)]) =
        Inr (a, committed_from [] before @ [r]) \<and>
      rt_txn_id r = tid \<and> rt_position r = \<lparr>cp_csn = cd_csn d, cp_lsn = lsn\<rparr> \<and>
      recovered_final_effects r = txn_final_effects t"
  using commit_batch_recovered [OF assms] txn_reachable_inv [OF assms(1)]
  by (auto simp: recovered_final_effects_def txn_final_effects_def)

theorem live_commit_is_recovered_witness:
  "let t = fold txn_call [Call_stage_put \<lparr>sod_id = 1, sod_authority = Authoritative\<rparr> [7] [8],
       Call_begin_validation, Call_mark_prepared 4] (txn_new 3 0);
       d = \<lparr>cd_txn_id = 3, cd_csn = 4, cd_mutation_count = 1, cd_mutation_digest = 0\<rparr> in
   \<exists>a r. recover_run (\<lambda>_. 0) assembler_new
      ([(5, Abort 9)] @ zip [10] (map Mutation (tx_mutations t)) @ [(30, Commit d)]) =
        Inr (a, committed_from [] [(5, Abort 9)] @ [r]) \<and>
      rt_txn_id r = 3 \<and> rt_position r = \<lparr>cp_csn = cd_csn d, cp_lsn = 30\<rparr> \<and>
      recovered_final_effects r = txn_final_effects t"
  unfolding Let_def
  by (rule live_commit_is_recovered [where snapshot = 0], rule txn_reachable_run, rule txn_reachable.start)
    (auto simp: txn_ops txn_new_def commit_decision_def u32_try_from_def ordered_put_def
      mutation_digest_def encode_mutation_payload_def checked_add_usize_def log_consts
      requires_commit_recovery_def record_valid_def log_terminal_def last_opt_def map_filter_def
      log_mutations_def)

end
