(* ===== verification/Visibility.thy ===== *)
theory Visibility
  imports Mvcc
begin

text \<open>
  Model of \<open>vnext/visibility.rs\<close>: the contiguous visibility frontier.  The mutex around the ready set
  carries a poison flag.  \<open>mark_ready\<close> looks at the frontier before it takes the lock; the locked part
  is a definition of its own, so that histories can run it with a check made in an earlier state.
  Waiting is a decision on each state the waiter wakes up in.
\<close>

section \<open>State and operations\<close>

record VisibilityFrontier =
  vf_visible :: u64
  vf_ready :: "CommitSeq set"
  vf_recovery_required :: bool
  vf_poisoned :: bool

datatype VisibilityError =
    Vf_Status StatusTableError
  | Vf_Poisoned
  | Vf_CommitSeqExhausted
  | Vf_AlreadyVisible CommitSeq CommitSeq
  | Vf_RecoveryRequired CommitSeq CommitSeq

definition frontier_new :: "CommitSeq \<Rightarrow> VisibilityFrontier" where
  "frontier_new initial =
     \<lparr>vf_visible = initial, vf_ready = {}, vf_recovery_required = False, vf_poisoned = False\<rparr>"

definition frontier_snapshot :: "VisibilityFrontier \<Rightarrow> CommitSeq" where
  "frontier_snapshot f = vf_visible f"

function advance_loop :: "u64 \<Rightarrow> CommitSeq set \<Rightarrow> (VisibilityError + u64) \<times> CommitSeq set" where
  "advance_loop frontier ready =
     (case checked_add_u64 frontier 1 of
        None \<Rightarrow> (Inl Vf_CommitSeqExhausted, ready)
      | Some next_csn \<Rightarrow>
          if next_csn \<in> ready then advance_loop next_csn (ready - {next_csn})
          else (Inr frontier, ready))"
  by pat_completeness auto
termination
proof (relation "measure (\<lambda>(frontier, ready). 2 ^ 64 - unat frontier)")
  fix frontier ready next_csn
  assume "checked_add_u64 frontier 1 = Some next_csn"
  then show "((next_csn, ready - {next_csn}), frontier, ready) \<in>
      measure (\<lambda>(frontier, ready). 2 ^ 64 - unat frontier)"
    using unat_u64_bound [of frontier] checked_add_u64_unat [of frontier 1 next_csn] by simp
qed simp

declare advance_loop.simps [simp del]

definition advance_locked :: "VisibilityFrontier \<Rightarrow> (VisibilityError + u64) \<times> VisibilityFrontier" where
  "advance_locked f =
     (case advance_loop (vf_visible f) (vf_ready f) of
        (Inl e, ready) \<Rightarrow> (Inl e, f\<lparr>vf_ready := ready\<rparr>)
      | (Inr frontier, ready) \<Rightarrow>
          (Inr frontier, f\<lparr>vf_ready := ready, vf_visible := frontier\<rparr>))"

definition mark_ready_locked ::
  "VisibilityFrontier \<Rightarrow> CommitSeq \<Rightarrow> (VisibilityError + CommitSeq) \<times> VisibilityFrontier" where
  "mark_ready_locked f csn =
     (if vf_poisoned f then (Inl Vf_Poisoned, f)
      else if vf_recovery_required f
        then (Inl (Vf_RecoveryRequired (frontier_snapshot f) csn), f)
      else advance_locked (f\<lparr>vf_ready := insert csn (vf_ready f)\<rparr>))"

definition mark_ready ::
  "VisibilityFrontier \<Rightarrow> CommitSeq \<Rightarrow> (VisibilityError + CommitSeq) \<times> VisibilityFrontier" where
  "mark_ready f csn =
     (let visible = frontier_snapshot f in
      if csn \<le> visible then (Inl (Vf_AlreadyVisible visible csn), f)
      else mark_ready_locked f csn)"

definition publish_commit ::
  "VisibilityFrontier \<Rightarrow> TransactionStatusTable \<Rightarrow> TxnId \<Rightarrow> CommitSeq \<Rightarrow>
     (VisibilityError + CommitSeq) \<times> VisibilityFrontier \<times> TransactionStatusTable" where
  "publish_commit f statuses txn csn =
     (case status_commit statuses txn csn of
        (Inl e, statuses') \<Rightarrow> (Inl (Vf_Status e), f, statuses')
      | (Inr _, statuses') \<Rightarrow>
          (case mark_ready f csn of (r, f') \<Rightarrow> (r, f', statuses')))"

definition publish_recovered ::
  "VisibilityFrontier \<Rightarrow> TransactionStatusTable \<Rightarrow> TxnId \<Rightarrow> CommitSeq \<Rightarrow>
     (VisibilityError + CommitSeq) \<times> VisibilityFrontier \<times> TransactionStatusTable" where
  "publish_recovered f statuses txn csn =
     (case status_recover_committed statuses txn csn of
        (Inl e, statuses') \<Rightarrow> (Inl (Vf_Status e), f, statuses')
      | (Inr _, statuses') \<Rightarrow>
          (case mark_ready f csn of (r, f') \<Rightarrow> (r, f', statuses')))"

text \<open>One round of the waiting loop: \<open>None\<close> is going back to sleep.\<close>

definition wait_visible_once :: "VisibilityFrontier \<Rightarrow> CommitSeq \<Rightarrow> (VisibilityError + CommitSeq) option" where
  "wait_visible_once f csn =
     (if vf_poisoned f then Some (Inl Vf_Poisoned)
      else let visible = frontier_snapshot f in
        if vf_recovery_required f then Some (Inl (Vf_RecoveryRequired visible csn))
        else if visible \<ge> csn then Some (Inr visible)
        else None)"

fun wait_visible :: "VisibilityFrontier list \<Rightarrow> CommitSeq \<Rightarrow> (VisibilityError + CommitSeq) option" where
  "wait_visible [] csn = None"
| "wait_visible (f # fs) csn =
     (case wait_visible_once f csn of
        Some r \<Rightarrow> Some r
      | None \<Rightarrow> wait_visible fs csn)"

text \<open>
  Completion of a synchronous commit: after publication, the states \<open>later\<close> are the frontier at the
  waiter's further wake-ups.  The result is \<open>None\<close> as long as the call has not returned.
\<close>

definition complete_commit ::
  "VisibilityFrontier \<Rightarrow> TransactionStatusTable \<Rightarrow> TxnId \<Rightarrow> CommitSeq \<Rightarrow> VisibilityFrontier list \<Rightarrow>
     (VisibilityError + CommitSeq) option \<times> VisibilityFrontier \<times> TransactionStatusTable" where
  "complete_commit f statuses txn csn later =
     (case publish_commit f statuses txn csn of
        (Inl e, f', statuses') \<Rightarrow> (Some (Inl e), f', statuses')
      | (Inr _, f', statuses') \<Rightarrow> (wait_visible (f' # later) csn, f', statuses'))"

definition frontier_require_recovery :: "VisibilityFrontier \<Rightarrow> VisibilityFrontier" where
  "frontier_require_recovery f = f\<lparr>vf_recovery_required := True\<rparr>"

section \<open>The advancing loop\<close>

lemma csn_between: "(a :: u64) < c \<Longrightarrow> c \<le> b \<Longrightarrow> checked_add_u64 a 1 = Some n \<Longrightarrow> n \<le> c"
  by (auto dest!: checked_add_u64_unat simp: word_less_nat_alt word_le_nat_alt)



section \<open>Histories\<close>






lemma wait_visible_Inr:
  "wait_visible fs csn = Some (Inr v) \<Longrightarrow> csn \<le> v \<and> (\<exists>f \<in> set fs. v = frontier_snapshot f)"
  by (induction fs) (auto simp: wait_visible_once_def Let_def split: option.splits if_splits)

lemma status_commit_Ok:
  assumes "status_commit st txn csn = (Inr u, st')"
  shows "status_of st' txn = Some (Committed csn) \<and> \<not> status_lost st' txn"
  using assms by (auto simp: status_ops split: if_splits option.splits)


section \<open>Properties\<close>



text \<open>
  C25.  An acknowledged commit is visible: if \<open>complete_commit\<close> returns successfully, the frontier it
  returns covers the commit, was the frontier at one of its wake-ups, and any other reader that
  takes a snapshot there or later sees the transaction's records.
\<close>
theorem complete_commit_visible:
  assumes "complete_commit f statuses txn csn later = (Some (Inr v), f', statuses')"
    and "reader \<noteq> Some txn" "v \<le> snapshot"
  shows "csn \<le> v \<and> (\<exists>g \<in> set (f' # later). v = frontier_snapshot g) \<and>
    status_visibility statuses' (Transaction txn) reader snapshot = Inr Vis_Visible"
proof -
  obtain w where pub: "publish_commit f statuses txn csn = (Inr w, f', statuses')"
    and wait: "wait_visible (f' # later) csn = Some (Inr v)"
    using assms(1) by (auto simp: complete_commit_def split: prod.splits sum.splits)
  obtain u where "status_commit statuses txn csn = (Inr u, statuses')"
    using pub by (auto simp: publish_commit_def split: prod.splits sum.splits)
  then have st: "status_of statuses' txn = Some (Committed csn)" "\<not> status_lost statuses' txn"
    using status_commit_Ok by blast+
  have "csn \<le> v" using wait_visible_Inr [OF wait] by blast
  then have "accepts (status_of statuses' txn) snapshot" using st assms(3) by (simp add: accepts_def)
  then show ?thesis
    using wait_visible_Inr [OF wait] status_visibility_accepts [OF assms(2)] st(2) by blast
qed


text \<open>
  The recovery fence stops publication for good: after \<open>require_recovery\<close> no publication
  succeeds or moves the frontier, and every waiter is sent away with an error, even for a sequence
  that is already covered.
\<close>
theorem fence_stops_publication:
  "let g = frontier_require_recovery f in
   (\<exists>e st. publish_commit g statuses txn csn = (Inl e, g, st)) \<and>
   (\<exists>e st. publish_recovered g statuses txn csn = (Inl e, g, st)) \<and>
   (\<exists>e. wait_visible (g # later) csn = Some (Inl e)) \<and>
   (\<exists>e st. complete_commit g statuses txn csn later = (Some (Inl e), g, st))"
proof -
  let ?g = "frontier_require_recovery f"
  have "\<exists>e. mark_ready ?g csn = (Inl e, ?g)"
    by (auto simp: mark_ready_def mark_ready_locked_def frontier_require_recovery_def Let_def)
  then have pub: "\<exists>e st. publish_commit ?g statuses txn csn = (Inl e, ?g, st)"
    "\<exists>e st. publish_recovered ?g statuses txn csn = (Inl e, ?g, st)"
    by (auto simp: publish_commit_def publish_recovered_def split: prod.splits sum.splits)
  moreover have "\<exists>e. wait_visible (?g # later) csn = Some (Inl e)"
    by (auto simp: wait_visible_once_def frontier_require_recovery_def Let_def)
  moreover have "\<exists>e st. complete_commit ?g statuses txn csn later = (Some (Inl e), ?g, st)"
    using pub(1) by (auto simp: complete_commit_def)
  ultimately show ?thesis by (simp add: Let_def)
qed

section \<open>Witnesses\<close>






theorem complete_commit_visible_witness:
  "let t = status_run [Call_begin 1] status_new in
   (1 :: CommitSeq) \<le> 1 \<and>
   (\<exists>g \<in> set [fst (snd (complete_commit (frontier_new 0) t 1 1 []))]. (1 :: CommitSeq) = frontier_snapshot g) \<and>
   status_visibility (snd (snd (complete_commit (frontier_new 0) t 1 1 []))) (Transaction 1) None 4 = Inr Vis_Visible"
  unfolding Let_def
proof (rule complete_commit_visible)
  let ?c = "complete_commit (frontier_new 0) (status_run [Call_begin 1] status_new) 1 1 []"
  have "fst ?c = Some (Inr 1)" by code_simp
  then show "?c = (Some (Inr 1), fst (snd ?c), snd (snd ?c))" by (simp add: prod_eq_iff)
qed simp_all

end
