(* ===== verification/Write_Intent.thy ===== *)
theory Write_Intent
  imports Write_Set
begin

text \<open>
  Model of \<open>vnext/write_intent.rs\<close>: the sharded table of reference-counted key ownership, batch
  acquisition with rollback, and the guard that releases its batch.  The standard library's
  \<open>DefaultHasher\<close> only selects the shard; it is the parameter \<open>hash\<close> and nothing is assumed about it.
  A guard holds a reference to the table in the source; here the table is passed along.
\<close>

type_synonym IntentKey = "StorageObjectId \<times> bytes"

record IntentEntry =
  ie_owner :: TxnId
  ie_holders :: nat

type_synonym WriteIntentTable = "(IntentKey, IntentEntry) shards"

datatype WriteIntentError =
    WI_WrongTransaction TxnId TxnId u32
  | WI_NonCanonicalOrder StorageObjectId bytes
  | WI_Conflict StorageObjectId bytes TxnId
  | WI_Poisoned nat
  | WI_HolderCountExhausted

record WriteIntentGuard =
  wg_txn :: TxnId
  wg_keys :: "IntentKey list"
  wg_released :: bool

definition INTENT_SHARDS :: nat where "INTENT_SHARDS = 64"

definition intent_shard :: "(IntentKey \<Rightarrow> u64) \<Rightarrow> IntentKey \<Rightarrow> nat" where
  "intent_shard hash key = unat (hash key AND of_nat (INTENT_SHARDS - 1))"

definition intent_new :: WriteIntentTable where
  "intent_new = sm_new"

definition intent_key_from_effect :: "FinalEffect \<Rightarrow> IntentKey" where
  "intent_key_from_effect e = (fe_object e, fe_key e)"

fun collect_keys :: "TxnId \<Rightarrow> IntentKey list \<Rightarrow> FinalEffect list \<Rightarrow> WriteIntentError + IntentKey list" where
  "collect_keys txn keys [] = Inr keys"
| "collect_keys txn keys (e # es) =
     (if fe_txn_id e \<noteq> txn then Inl (WI_WrongTransaction txn (fe_txn_id e) (fe_ordinal e))
      else let key = intent_key_from_effect e in
        if keys \<noteq> [] \<and> last keys \<ge> key then Inl (WI_NonCanonicalOrder (fst key) (snd key))
        else collect_keys txn (keys @ [key]) es)"

definition release_key ::
  "(IntentKey \<Rightarrow> u64) \<Rightarrow> TxnId \<Rightarrow> IntentKey \<Rightarrow> WriteIntentTable \<Rightarrow> WriteIntentTable" where
  "release_key hash txn key t =
     (let shard = intent_shard hash key in
      case entries (t shard) key of
        Some entry \<Rightarrow>
          if ie_owner entry = txn \<and> ie_holders entry > 1
          then sm_set (intent_shard hash) key (Some (entry\<lparr>ie_holders := ie_holders entry - 1\<rparr>)) t
          else if ie_owner entry = txn then sm_set (intent_shard hash) key None t
          else t
      | None \<Rightarrow> t)"

definition intent_rollback ::
  "(IntentKey \<Rightarrow> u64) \<Rightarrow> TxnId \<Rightarrow> IntentKey list \<Rightarrow> WriteIntentTable \<Rightarrow> WriteIntentTable" where
  "intent_rollback hash txn keys t = fold (release_key hash txn) (rev keys) t"

text \<open>The acquisition loop: \<open>acquired\<close> are the keys already taken by this call.\<close>

fun acquire_loop ::
  "(IntentKey \<Rightarrow> u64) \<Rightarrow> TxnId \<Rightarrow> IntentKey list \<Rightarrow> IntentKey list \<Rightarrow> WriteIntentTable \<Rightarrow>
     (WriteIntentError + unit) \<times> WriteIntentTable" where
  "acquire_loop hash txn acquired [] t = (Inr (), t)"
| "acquire_loop hash txn acquired (key # keys) t =
     (let shard = intent_shard hash key in
      if poisoned (t shard) then (Inl (WI_Poisoned shard), intent_rollback hash txn acquired t)
      else case entries (t shard) key of
        None \<Rightarrow>
          acquire_loop hash txn (acquired @ [key]) keys
            (sm_set (intent_shard hash) key (Some \<lparr>ie_owner = txn, ie_holders = 1\<rparr>) t)
      | Some entry \<Rightarrow>
          if ie_owner entry = txn then
            case checked_add_usize (ie_holders entry) 1 of
              None \<Rightarrow> (Inl WI_HolderCountExhausted, intent_rollback hash txn acquired t)
            | Some n \<Rightarrow>
                acquire_loop hash txn (acquired @ [key]) keys
                  (sm_set (intent_shard hash) key (Some (entry\<lparr>ie_holders := n\<rparr>)) t)
          else (Inl (WI_Conflict (fst key) (snd key) (ie_owner entry)),
                intent_rollback hash txn acquired t))"

definition try_acquire ::
  "(IntentKey \<Rightarrow> u64) \<Rightarrow> TxnId \<Rightarrow> FinalEffect list \<Rightarrow> WriteIntentTable \<Rightarrow>
     (WriteIntentError + WriteIntentGuard) \<times> WriteIntentTable" where
  "try_acquire hash txn effects t =
     (case collect_keys txn [] effects of
        Inl e \<Rightarrow> (Inl e, t)
      | Inr keys \<Rightarrow>
          (case acquire_loop hash txn [] keys t of
             (Inl e, t') \<Rightarrow> (Inl e, t')
           | (Inr _, t') \<Rightarrow> (Inr \<lparr>wg_txn = txn, wg_keys = keys, wg_released = False\<rparr>, t')))"

definition intent_owner ::
  "(IntentKey \<Rightarrow> u64) \<Rightarrow> WriteIntentTable \<Rightarrow> StorageObjectId \<Rightarrow> bytes \<Rightarrow> WriteIntentError + TxnId option" where
  "intent_owner hash t object key =
     (let intent = (object, key); shard = intent_shard hash intent in
      if poisoned (t shard) then Inl (WI_Poisoned shard)
      else Inr (map_option ie_owner (entries (t shard) intent)))"

text \<open>
  Binary search as the guard uses it, over the half-open range \<open>[lo, hi)\<close>.
\<close>

function guard_search :: "IntentKey list \<Rightarrow> IntentKey \<Rightarrow> nat \<Rightarrow> nat \<Rightarrow> bool" where
  "guard_search keys target lo hi =
     (if lo < hi then
        let mid = lo + (hi - lo) div 2 in
        if keys ! mid = target then True
        else if keys ! mid < target then guard_search keys target (mid + 1) hi
        else guard_search keys target lo mid
      else False)"
  by pat_completeness auto
termination by (relation "measure (\<lambda>(keys, target, lo, hi). hi - lo)") (auto simp: Let_def)

declare guard_search.simps [simp del]

definition guard_owns :: "WriteIntentGuard \<Rightarrow> StorageObjectId \<Rightarrow> bytes \<Rightarrow> bool" where
  "guard_owns g object key = guard_search (wg_keys g) (object, key) 0 (length (wg_keys g))"

definition guard_release_all ::
  "(IntentKey \<Rightarrow> u64) \<Rightarrow> WriteIntentGuard \<Rightarrow> WriteIntentTable \<Rightarrow> WriteIntentGuard \<times> WriteIntentTable" where
  "guard_release_all hash g t =
     (if wg_released g then (g, t)
      else (g\<lparr>wg_released := True\<rparr>, intent_rollback hash (wg_txn g) (wg_keys g) t))"

section \<open>One key\<close>

abbreviation intent_of :: "(IntentKey \<Rightarrow> u64) \<Rightarrow> WriteIntentTable \<Rightarrow> IntentKey \<rightharpoonup> IntentEntry" where
  "intent_of hash \<equiv> sm_get (intent_shard hash)"

abbreviation intent_put :: "(IntentKey \<Rightarrow> u64) \<Rightarrow> IntentKey \<Rightarrow> IntentEntry option \<Rightarrow> WriteIntentTable \<Rightarrow> WriteIntentTable" where
  "intent_put hash \<equiv> sm_set (intent_shard hash)"

text \<open>Every entry has at least one holder.\<close>

definition intent_ok :: "(IntentKey \<Rightarrow> u64) \<Rightarrow> WriteIntentTable \<Rightarrow> bool" where
  "intent_ok hash t \<longleftrightarrow> (\<forall>k e. intent_of hash t k = Some e \<longrightarrow> 1 \<le> ie_holders e)"

text \<open>What taking one key does to the entry of that key.\<close>

definition taken :: "TxnId \<Rightarrow> IntentEntry option \<Rightarrow> IntentEntry" where
  "taken txn old =
     (case old of None \<Rightarrow> \<lparr>ie_owner = txn, ie_holders = 1\<rparr>
      | Some e \<Rightarrow> e\<lparr>ie_holders := ie_holders e + 1\<rparr>)"

definition free_for :: "TxnId \<Rightarrow> IntentEntry option \<Rightarrow> bool" where
  "free_for txn old = (case old of None \<Rightarrow> True | Some e \<Rightarrow> ie_owner e = txn \<and> ie_holders e + 1 < 2 ^ 64)"

lemma release_key_eq:
  "release_key hash txn key t =
     (case intent_of hash t key of
        Some entry \<Rightarrow>
          if ie_owner entry = txn \<and> ie_holders entry > 1
          then intent_put hash key (Some (entry\<lparr>ie_holders := ie_holders entry - 1\<rparr>)) t
          else if ie_owner entry = txn then intent_put hash key None t
          else t
      | None \<Rightarrow> t)"
  by (simp add: release_key_def sm_get_def Let_def)

lemma release_taken:
  assumes "free_for txn (intent_of hash t k)" "intent_ok hash t"
  shows "release_key hash txn k (intent_put hash k (Some (taken txn (intent_of hash t k))) t) = t"
proof (cases "intent_of hash t k")
  case None
  then show ?thesis by (simp add: release_key_eq taken_def sm_set_id)
next
  case (Some e)
  then have "1 \<le> ie_holders e" using assms(2) unfolding intent_ok_def by blast
  then show ?thesis
    using Some assms(1) by (simp add: release_key_eq taken_def free_for_def sm_set_id)
qed

lemma intent_ok_taken:
  "intent_ok hash t \<Longrightarrow> intent_ok hash (intent_put hash k (Some (taken txn (intent_of hash t k))) t)"
  by (auto simp: intent_ok_def taken_def split: option.splits)

section \<open>Batches\<close>

text \<open>The table after taking a batch of keys, and its undoing in reverse order.\<close>

definition take_all :: "(IntentKey \<Rightarrow> u64) \<Rightarrow> TxnId \<Rightarrow> IntentKey list \<Rightarrow> WriteIntentTable \<Rightarrow> WriteIntentTable" where
  "take_all hash txn keys t =
     fold (\<lambda>k t. intent_put hash k (Some (taken txn (intent_of hash t k))) t) keys t"

fun all_free :: "(IntentKey \<Rightarrow> u64) \<Rightarrow> TxnId \<Rightarrow> IntentKey list \<Rightarrow> WriteIntentTable \<Rightarrow> bool" where
  "all_free hash txn [] t = True"
| "all_free hash txn (k # ks) t =
     (free_for txn (intent_of hash t k) \<and>
      all_free hash txn ks (intent_put hash k (Some (taken txn (intent_of hash t k))) t))"

lemma rollback_take_all:
  assumes "all_free hash txn keys t" "intent_ok hash t"
  shows "intent_rollback hash txn keys (take_all hash txn keys t) = t"
  using assms
proof (induction keys arbitrary: t)
  case Nil
  then show ?case by (simp add: intent_rollback_def take_all_def)
next
  case (Cons k ks)
  let ?t = "intent_put hash k (Some (taken txn (intent_of hash t k))) t"
  have "intent_rollback hash txn (k # ks) (take_all hash txn (k # ks) t) =
      release_key hash txn k (intent_rollback hash txn ks (take_all hash txn ks ?t))"
    by (simp add: intent_rollback_def take_all_def)
  also have "\<dots> = release_key hash txn k ?t"
    using Cons.IH [of ?t] Cons.prems intent_ok_taken by simp
  also have "\<dots> = t" using Cons.prems by (intro release_taken) auto
  finally show ?case .
qed

lemma all_free_snoc:
  "all_free hash txn (ks @ [k]) t \<longleftrightarrow>
     all_free hash txn ks t \<and> free_for txn (intent_of hash (take_all hash txn ks t) k)"
  by (induction ks arbitrary: t) (auto simp: take_all_def)

lemma take_all_snoc:
  "take_all hash txn (ks @ [k]) t =
     intent_put hash k (Some (taken txn (intent_of hash (take_all hash txn ks t) k))) (take_all hash txn ks t)"
  by (simp add: take_all_def)

lemma acquire_loop_cases:
  assumes "all_free hash txn acquired t" "intent_ok hash t"
    and "acquire_loop hash txn acquired keys (take_all hash txn acquired t) = (r, t')"
  shows "(\<exists>e. r = Inl e \<and> t' = t) \<or>
    (r = Inr () \<and> t' = take_all hash txn (acquired @ keys) t \<and> all_free hash txn (acquired @ keys) t)"
  using assms
proof (induction keys arbitrary: acquired)
  case Nil
  then show ?case by simp
next
  case (Cons k ks)
  let ?s = "take_all hash txn acquired t"
  show ?case
  proof (cases "\<not> poisoned (?s (intent_shard hash k)) \<and> free_for txn (intent_of hash ?s k)")
    case True
    have eq: "acquire_loop hash txn acquired (k # ks) ?s =
        acquire_loop hash txn (acquired @ [k]) ks (take_all hash txn (acquired @ [k]) t)"
    proof (cases "intent_of hash ?s k")
      case None
      then show ?thesis
        using True by (simp add: take_all_snoc taken_def Let_def sm_get_def)
    next
      case (Some e)
      then show ?thesis
        using True by (simp add: take_all_snoc taken_def Let_def sm_get_def free_for_def)
    qed
    have "all_free hash txn (acquired @ [k]) t"
      using True Cons.prems(1) by (simp add: all_free_snoc)
    from Cons.IH [OF this Cons.prems(2)] Cons.prems(3) show ?thesis
      unfolding eq by simp
  next
    case False
    then have "\<exists>e. r = Inl e \<and> t' = intent_rollback hash txn acquired ?s"
      using Cons.prems(3)
      by (auto simp: Let_def sm_get_def free_for_def checked_add_usize_def split: option.splits if_splits)
    then show ?thesis
      using rollback_take_all [OF Cons.prems(1,2)] by auto
  qed
qed

section \<open>Keys of a batch\<close>

lemma collect_keys_ok:
  assumes "collect_keys txn ks es = Inr keys" "sorted_wrt (<) ks"
  shows "keys = ks @ map intent_key_from_effect es \<and> sorted_wrt (<) keys \<and> (\<forall>e \<in> set es. fe_txn_id e = txn)"
  using assms
proof (induction es arbitrary: ks)
  case Nil
  then show ?case by simp
next
  case (Cons e es)
  let ?k = "intent_key_from_effect e"
  from Cons.prems(1) have txn: "fe_txn_id e = txn" and lt: "ks = [] \<or> last ks < ?k"
    and rest: "collect_keys txn (ks @ [?k]) es = Inr keys"
    by (auto simp: Let_def not_le split: if_splits)
  have "x < ?k" if "x \<in> set ks" for x
  proof (cases ks rule: rev_cases)
    case (snoc ys y)
    then have "x = y \<or> x < y" using that Cons.prems(2) by (auto simp: sorted_wrt_append)
    moreover have "y < ?k" using lt snoc by simp
    ultimately show ?thesis by auto
  qed (use that in simp)
  then have "sorted_wrt (<) (ks @ [?k])" using Cons.prems(2) by (simp add: sorted_wrt_append)
  from Cons.IH [OF rest this] txn show ?case by auto
qed

lemma collect_keys_canonical:
  assumes "sorted_wrt (<) (ks @ map intent_key_from_effect es)" "\<forall>e \<in> set es. fe_txn_id e = txn"
  shows "collect_keys txn ks es = Inr (ks @ map intent_key_from_effect es)"
  using assms
proof (induction es arbitrary: ks)
  case (Cons e es)
  have "ks \<noteq> [] \<Longrightarrow> last ks < intent_key_from_effect e"
    using Cons.prems(1) by (auto simp: sorted_wrt_append)
  then show ?case using Cons.IH [of "ks @ [intent_key_from_effect e]"] Cons.prems
    by (auto simp: Let_def not_le)
qed simp

lemma try_acquire_cases:
  assumes "try_acquire hash txn es t = (r, t')" "intent_ok hash t"
  shows "(\<exists>e. r = Inl e \<and> t' = t) \<or>
    (\<exists>keys. keys = map intent_key_from_effect es \<and> sorted_wrt (<) keys \<and>
       r = Inr \<lparr>wg_txn = txn, wg_keys = keys, wg_released = False\<rparr> \<and>
       t' = take_all hash txn keys t \<and> all_free hash txn keys t)"
proof (cases "collect_keys txn [] es")
  case (Inl e)
  then show ?thesis using assms(1) by (auto simp: try_acquire_def)
next
  case (Inr keys)
  then have "keys = map intent_key_from_effect es" "sorted_wrt (<) keys"
    using collect_keys_ok [of txn "[]" es keys] by auto
  moreover obtain r0 t0 where r0: "acquire_loop hash txn [] keys t = (r0, t0)" by fastforce
  moreover have "(\<exists>e. r0 = Inl e \<and> t0 = t) \<or>
      (r0 = Inr () \<and> t0 = take_all hash txn keys t \<and> all_free hash txn keys t)"
    using acquire_loop_cases [of hash txn "[]" t keys r0 t0] assms(2) r0 by (simp add: take_all_def)
  ultimately show ?thesis
    using assms(1) Inr by (auto simp: try_acquire_def)
qed

lemma take_all_get:
  "distinct keys \<Longrightarrow> intent_of hash (take_all hash txn keys t) k =
     (if k \<in> set keys then Some (taken txn (intent_of hash t k)) else intent_of hash t k)"
  by (induction keys arbitrary: t) (auto simp: take_all_def)

lemma all_free_get:
  "distinct keys \<Longrightarrow> all_free hash txn keys t \<longleftrightarrow> (\<forall>k \<in> set keys. free_for txn (intent_of hash t k))"
  by (induction keys arbitrary: t) auto

definition released :: "TxnId \<Rightarrow> IntentEntry option \<Rightarrow> IntentEntry option" where
  "released txn old =
     (case old of None \<Rightarrow> None
      | Some e \<Rightarrow> if ie_owner e \<noteq> txn then Some e
          else if ie_holders e > 1 then Some (e\<lparr>ie_holders := ie_holders e - 1\<rparr>) else None)"

lemma release_key_get:
  "intent_of hash (release_key hash txn key t) k =
     (if k = key then released txn (intent_of hash t k) else intent_of hash t k)"
  by (auto simp: release_key_eq released_def split: option.splits)

lemma rollback_get:
  "distinct keys \<Longrightarrow> intent_of hash (intent_rollback hash txn keys t) k =
     (if k \<in> set keys then released txn (intent_of hash t k) else intent_of hash t k)"
proof (induction keys)
  case Nil
  then show ?case by (simp add: intent_rollback_def)
next
  case (Cons key keys)
  have "intent_rollback hash txn (key # keys) t = release_key hash txn key (intent_rollback hash txn keys t)"
    by (simp add: intent_rollback_def)
  then show ?case using Cons by (auto simp: release_key_get)
qed

section \<open>The table and its live guards\<close>

text \<open>
  A history of the table with the guards that are alive: batches are acquired or refused, live
  guards are released, and a panicking thread may poison a shard at any time.
\<close>

inductive intent_reachable :: "(IntentKey \<Rightarrow> u64) \<Rightarrow> WriteIntentTable \<Rightarrow> WriteIntentGuard list \<Rightarrow> bool"
  for hash :: "IntentKey \<Rightarrow> u64" where
  start: "intent_reachable hash intent_new []"
| acquire: "intent_reachable hash t gs \<Longrightarrow> try_acquire hash txn es t = (Inr g, t') \<Longrightarrow>
    intent_reachable hash t' (g # gs)"
| refuse: "intent_reachable hash t gs \<Longrightarrow> try_acquire hash txn es t = (Inl e, t') \<Longrightarrow>
    intent_reachable hash t' gs"
| release: "intent_reachable hash t (gs @ g # gs') \<Longrightarrow> guard_release_all hash g t = (g', t') \<Longrightarrow>
    intent_reachable hash t' (gs @ gs')"
| poison: "intent_reachable hash t gs \<Longrightarrow> intent_reachable hash (t(i := (t i)\<lparr>poisoned := True\<rparr>)) gs"

definition holding :: "WriteIntentGuard list \<Rightarrow> IntentKey \<Rightarrow> WriteIntentGuard list" where
  "holding gs k = filter (\<lambda>g. k \<in> set (wg_keys g)) gs"

definition entry_ok :: "IntentEntry option \<Rightarrow> WriteIntentGuard list \<Rightarrow> bool" where
  "entry_ok old hs =
     (case old of None \<Rightarrow> hs = []
      | Some e \<Rightarrow> hs \<noteq> [] \<and> length hs = ie_holders e \<and> (\<forall>g \<in> set hs. wg_txn g = ie_owner e))"

definition intent_inv :: "(IntentKey \<Rightarrow> u64) \<Rightarrow> WriteIntentTable \<Rightarrow> WriteIntentGuard list \<Rightarrow> bool" where
  "intent_inv hash t gs \<longleftrightarrow>
     (\<forall>g \<in> set gs. sorted_wrt (<) (wg_keys g) \<and> \<not> wg_released g) \<and>
     (\<forall>k. entry_ok (intent_of hash t k) (holding gs k))"

lemma intent_inv_entry: "intent_inv hash t gs \<Longrightarrow> entry_ok (intent_of hash t k) (holding gs k)"
  unfolding intent_inv_def by blast

lemma intent_inv_ok:
  assumes "intent_inv hash t gs"
  shows "intent_ok hash t"
  unfolding intent_ok_def
proof (intro allI impI)
  fix k e assume "intent_of hash t k = Some e"
  then have "entry_ok (Some e) (holding gs k)" using intent_inv_entry [OF assms, of k] by simp
  then show "1 \<le> ie_holders e" by (cases "holding gs k") (auto simp: entry_ok_def)
qed

lemma entry_ok_taken:
  assumes "entry_ok old hs" "free_for (wg_txn g) old"
  shows "entry_ok (Some (taken (wg_txn g) old)) (g # hs)"
  using assms by (auto simp: entry_ok_def free_for_def taken_def split: option.splits)

lemma entry_ok_released:
  assumes "entry_ok old (hs @ g # hs')"
  shows "entry_ok (released (wg_txn g) old) (hs @ hs')"
proof (cases old)
  case None
  then show ?thesis using assms by (simp add: entry_ok_def)
next
  case (Some e)
  then have n: "length hs + Suc (length hs') = ie_holders e" and o: "wg_txn g = ie_owner e"
    and hs: "\<forall>x \<in> set (hs @ hs'). wg_txn x = ie_owner e"
    using assms by (simp_all add: entry_ok_def)
  show ?thesis
  proof (cases "ie_holders e > 1")
    case True
    then have "hs @ hs' \<noteq> []" using n by auto
    then show ?thesis using True Some n o hs by (simp add: entry_ok_def released_def)
  next
    case False
    then have "hs @ hs' = []" using n by (cases hs; cases hs') simp_all
    then show ?thesis using False Some o by (simp add: entry_ok_def released_def)
  qed
qed

lemma intent_reachable_inv: "intent_reachable hash t gs \<Longrightarrow> intent_inv hash t gs"
proof (induction rule: intent_reachable.induct)
  case start
  then show ?case by (simp add: intent_inv_def intent_new_def entry_ok_def holding_def)
next
  case (acquire t gs txn es g t')
  from try_acquire_cases [OF acquire(2) intent_inv_ok [OF acquire.IH]] obtain keys where
    keys: "sorted_wrt (<) keys" "g = \<lparr>wg_txn = txn, wg_keys = keys, wg_released = False\<rparr>"
    "t' = take_all hash txn keys t" "all_free hash txn keys t" by auto
  have d: "distinct keys" using keys(1) by (simp add: strict_sorted_iff)
  have ok: "entry_ok (intent_of hash t k) (holding gs k)" for k
    by (rule intent_inv_entry [OF acquire.IH])
  have "entry_ok (intent_of hash t' k) (holding (g # gs) k)" for k
  proof (cases "k \<in> set keys")
    case True
    then have "free_for (wg_txn g) (intent_of hash t k)" using keys all_free_get [OF d] by auto
    then show ?thesis
      using True keys(2,3) take_all_get [OF d, of hash txn t k] entry_ok_taken [OF ok [of k], of g]
      by (simp add: holding_def)
  next
    case False
    then show ?thesis
      using keys(2,3) take_all_get [OF d, of hash txn t k] ok [of k] by (simp add: holding_def)
  qed
  then show ?case using acquire.IH keys(1,2) unfolding intent_inv_def by auto
next
  case (refuse t gs txn es e t')
  then show ?case using try_acquire_cases [OF refuse(2) intent_inv_ok [OF refuse.IH]] by auto
next
  case (release t gs g gs' g' t')
  have g: "distinct (wg_keys g)" "\<not> wg_released g"
    using release.IH by (auto simp: intent_inv_def strict_sorted_iff)
  then have t': "t' = intent_rollback hash (wg_txn g) (wg_keys g) t"
    using release(2) by (simp add: guard_release_all_def)
  have ok: "entry_ok (intent_of hash t k) (holding (gs @ g # gs') k)" for k
    by (rule intent_inv_entry [OF release.IH])
  have "entry_ok (intent_of hash t' k) (holding (gs @ gs') k)" for k
  proof (cases "k \<in> set (wg_keys g)")
    case True
    then have "entry_ok (intent_of hash t k) (holding gs k @ g # holding gs' k)"
      using ok [of k] by (simp add: holding_def)
    from entry_ok_released [OF this] show ?thesis
      using True rollback_get [OF g(1), of hash "wg_txn g" t k] by (simp add: t' holding_def)
  next
    case False
    then show ?thesis
      using ok [of k] rollback_get [OF g(1), of hash "wg_txn g" t k] by (simp add: t' holding_def)
  qed
  then show ?case using release.IH unfolding intent_inv_def by auto
next
  case (poison t gs i)
  then show ?case unfolding intent_inv_def sm_get_poison by simp
qed

lemma acquire_loop_ok:
  assumes "all_free hash txn keys t" "\<And>i. \<not> poisoned (t i)"
  shows "acquire_loop hash txn acquired keys t = (Inr (), take_all hash txn keys t)"
  using assms
proof (induction keys arbitrary: acquired t)
  case Nil
  then show ?case by (simp add: take_all_def)
next
  case (Cons k ks)
  let ?t = "intent_put hash k (Some (taken txn (intent_of hash t k))) t"
  have "\<not> poisoned (?t i)" for i using Cons.prems(2) by (simp add: sm_set_def)
  then have "acquire_loop hash txn (acquired @ [k]) ks ?t = (Inr (), take_all hash txn ks ?t)"
    using Cons.IH [of ?t] Cons.prems(1) by simp
  then show ?case
    using Cons.prems
    by (cases "intent_of hash t k")
      (simp_all add: take_all_def taken_def free_for_def sm_get_def Let_def)
qed

section \<open>The guard's search\<close>

lemma guard_search_iff:
  assumes "sorted_wrt (<) keys" "hi \<le> length keys"
  shows "guard_search keys x lo hi \<longleftrightarrow> (\<exists>i. lo \<le> i \<and> i < hi \<and> keys ! i = x)"
  using assms
proof (induction keys x lo hi rule: guard_search.induct)
  case (1 keys x lo hi)
  show ?case
  proof (cases "lo < hi")
    case False
    then show ?thesis by (subst guard_search.simps) auto
  next
    case True
    define mid where "mid = lo + (hi - lo) div 2"
    have mid: "lo \<le> mid" "mid < hi" using True by (auto simp: mid_def)
    have mono: "i < j \<Longrightarrow> j < length keys \<Longrightarrow> keys ! i < keys ! j" for i j
      using "1.prems"(1) sorted_wrt_nth_less by blast
    consider "keys ! mid = x" | "keys ! mid < x" | "x < keys ! mid" by fastforce
    then show ?thesis
    proof cases
      case 1
      have "guard_search keys x lo hi"
        using True 1 by (subst guard_search.simps) (simp add: Let_def flip: mid_def)
      then show ?thesis using mid 1 by blast
    next
      case 2
      have "guard_search keys x lo hi = guard_search keys x (mid + 1) hi"
        using True 2 by (subst guard_search.simps) (auto simp: Let_def simp flip: mid_def)
      also have "\<dots> \<longleftrightarrow> (\<exists>i. mid + 1 \<le> i \<and> i < hi \<and> keys ! i = x)"
        using "1.IH"(1) [OF True mid_def] 2 "1.prems" by simp
      also have "\<dots> \<longleftrightarrow> (\<exists>i. lo \<le> i \<and> i < hi \<and> keys ! i = x)"
      proof -
        have "mid + 1 \<le> i" if "i < hi" "keys ! i = x" for i
          using that 2 mono [of i mid] mid "1.prems"(2) by (cases "i < mid"; cases "i = mid") auto
        then show ?thesis by (metis le_add1 le_trans mid(1))
      qed
      finally show ?thesis .
    next
      case 3
      have "guard_search keys x lo hi = guard_search keys x lo mid"
        using True 3 by (subst guard_search.simps) (auto simp: Let_def simp flip: mid_def)
      also have "\<dots> \<longleftrightarrow> (\<exists>i. lo \<le> i \<and> i < mid \<and> keys ! i = x)"
        using "1.IH"(2) [OF True mid_def] 3 "1.prems" mid by auto
      also have "\<dots> \<longleftrightarrow> (\<exists>i. lo \<le> i \<and> i < hi \<and> keys ! i = x)"
      proof -
        have "i < mid" if "i < hi" "keys ! i = x" for i
          using that 3 mono [of mid i] mid "1.prems"(2) by (cases "mid < i"; cases "i = mid") auto
        then show ?thesis by (metis less_trans mid(2))
      qed
      finally show ?thesis .
    qed
  qed
qed

lemma guard_owns_iff:
  "sorted_wrt (<) (wg_keys g) \<Longrightarrow> guard_owns g object key \<longleftrightarrow> (object, key) \<in> set (wg_keys g)"
  by (auto simp: guard_owns_def guard_search_iff in_set_conv_nth)

lemma intent_inv_guard_owns:
  assumes "intent_inv hash t gs" "g \<in> set gs"
  shows "guard_owns g object key \<longleftrightarrow> g \<in> set (holding gs (object, key))"
  using assms guard_owns_iff by (auto simp: intent_inv_def holding_def)

text \<open>A small concrete history for the witnesses: transaction 1 holds key \<open>b\<close> of object 2.\<close>

definition put_effect :: "TxnId \<Rightarrow> u32 \<Rightarrow> StorageObjectId \<Rightarrow> bytes \<Rightarrow> FinalEffect" where
  "put_effect txn ordinal object key = \<lparr>fe_mutation = ordered_put txn ordinal object key []\<rparr>"

definition held_table :: WriteIntentTable where
  "held_table = snd (try_acquire (\<lambda>_. 0) 1 [put_effect 1 0 2 [98]] intent_new)"

lemma held_table_acquired:
  "try_acquire (\<lambda>_. 0) 1 [put_effect 1 0 2 [98]] intent_new =
     (Inr \<lparr>wg_txn = 1, wg_keys = [(2, [98])], wg_released = False\<rparr>, held_table)"
  by (simp add: held_table_def try_acquire_def put_effect_def ordered_put_def fe_defs
      intent_key_from_effect_def intent_new_def sm_new_def Let_def)

lemma held_table_reachable:
  "intent_reachable (\<lambda>_. 0) held_table [\<lparr>wg_txn = 1, wg_keys = [(2, [98])], wg_released = False\<rparr>]"
  using intent_reachable.acquire [OF intent_reachable.start held_table_acquired] by simp

lemma held_table_entry:
  "held_table = sm_set (intent_shard (\<lambda>_. 0)) (2, [98]) (Some \<lparr>ie_owner = 1, ie_holders = 1\<rparr>) sm_new"
  by (simp add: held_table_def try_acquire_def put_effect_def ordered_put_def fe_defs
      intent_key_from_effect_def intent_new_def sm_new_def Let_def)

section \<open>Properties\<close>

text \<open>
  C23.  A refused batch leaves no trace: in every reachable table, when \<open>try_acquire\<close> fails for any
  reason, even after having taken some of its keys, the table is exactly what it was.
\<close>
theorem intent_failed_acquire_restores:
  assumes "intent_reachable hash t gs" "try_acquire hash txn es t = (Inl e, t')"
  shows "t' = t"
  using try_acquire_cases [OF assms(2) intent_inv_ok [OF intent_reachable_inv [OF assms(1)]]] by auto

theorem intent_failed_acquire_restores_witness:
  "snd (try_acquire (\<lambda>_. 0) 5 [put_effect 5 0 1 [97], put_effect 5 1 2 [98]] held_table) = held_table"
proof (rule intent_failed_acquire_restores [OF held_table_reachable])
  show "try_acquire (\<lambda>_. 0) 5 [put_effect 5 0 1 [97], put_effect 5 1 2 [98]] held_table =
    (Inl (WI_Conflict 2 [98] 1),
     snd (try_acquire (\<lambda>_. 0) 5 [put_effect 5 0 1 [97], put_effect 5 1 2 [98]] held_table))"
    by (simp add: held_table_entry try_acquire_def put_effect_def ordered_put_def fe_defs
        intent_key_from_effect_def sm_new_def sm_set_def Let_def intent_shard_def)
qed

text \<open>
  Releasing a guard undoes exactly its acquisition: acquiring a batch in a reachable table and
  releasing it gives back the table before, nested holders of the same transaction included, and
  releasing a second time does nothing.
\<close>
theorem intent_release_inverts_acquire:
  assumes "intent_reachable hash t gs" "try_acquire hash txn es t = (Inr g, t')"
  shows "guard_release_all hash g t' = (g\<lparr>wg_released := True\<rparr>, t) \<and>
    guard_release_all hash (g\<lparr>wg_released := True\<rparr>) s = (g\<lparr>wg_released := True\<rparr>, s)"
proof -
  have ok: "intent_ok hash t" by (rule intent_inv_ok [OF intent_reachable_inv [OF assms(1)]])
  from try_acquire_cases [OF assms(2) ok] obtain keys where
    "g = \<lparr>wg_txn = txn, wg_keys = keys, wg_released = False\<rparr>"
    "t' = take_all hash txn keys t" "all_free hash txn keys t" by auto
  then show ?thesis using rollback_take_all [OF _ ok] by (simp add: guard_release_all_def)
qed

theorem intent_release_inverts_acquire_witness:
  "snd (guard_release_all (\<lambda>_. 0) \<lparr>wg_txn = 1, wg_keys = [(2, [98])], wg_released = False\<rparr> held_table) = intent_new"
  using intent_release_inverts_acquire [OF intent_reachable.start held_table_acquired, of undefined] by simp

text \<open>
  C7.  Ownership is exclusive and exactly accounted for: in every reachable table with its live
  guards, two guards that own the same key belong to the same transaction, and \<open>owner\<close>, where the
  shard is not poisoned, names a transaction exactly when some live guard of that transaction owns
  the key.
\<close>
theorem intent_exclusive_ownership:
  assumes "intent_reachable hash t gs"
  shows "(\<forall>g h. g \<in> set gs \<and> h \<in> set gs \<and> guard_owns g object key \<and> guard_owns h object key \<longrightarrow>
      wg_txn g = wg_txn h) \<and>
    (\<not> poisoned (t (intent_shard hash (object, key))) \<longrightarrow>
      (\<exists>owner. intent_owner hash t object key = Inr owner \<and>
        (\<forall>txn. owner = Some txn \<longleftrightarrow> (\<exists>g \<in> set gs. guard_owns g object key \<and> wg_txn g = txn))))"
proof -
  let ?k = "(object, key)"
  note inv = intent_reachable_inv [OF assms]
  have owns: "guard_owns g object key \<longleftrightarrow> g \<in> set (holding gs ?k)" if "g \<in> set gs" for g
    using intent_inv_guard_owns [OF inv that] .
  have sub: "g \<in> set gs" if "g \<in> set (holding gs ?k)" for g using that by (simp add: holding_def)
  have ok: "entry_ok (intent_of hash t ?k) (holding gs ?k)" by (rule intent_inv_entry [OF inv])
  have same: "wg_txn g = wg_txn h" if "g \<in> set (holding gs ?k)" "h \<in> set (holding gs ?k)" for g h
    using ok that by (cases "intent_of hash t ?k") (simp_all add: entry_ok_def)
  have named: "map_option ie_owner (intent_of hash t ?k) = Some txn \<longleftrightarrow>
      (\<exists>g \<in> set (holding gs ?k). wg_txn g = txn)" for txn
  proof (cases "intent_of hash t ?k")
    case None
    then show ?thesis using ok by (simp add: entry_ok_def)
  next
    case (Some e)
    then have "hd (holding gs ?k) \<in> set (holding gs ?k)"
      "\<forall>g \<in> set (holding gs ?k). wg_txn g = ie_owner e"
      using ok by (simp_all add: entry_ok_def)
    then show ?thesis using Some by auto
  qed
  have "\<forall>txn. map_option ie_owner (intent_of hash t ?k) = Some txn \<longleftrightarrow>
      (\<exists>g \<in> set gs. guard_owns g object key \<and> wg_txn g = txn)"
    using owns sub named by blast
  moreover have "\<not> poisoned (t (intent_shard hash ?k)) \<Longrightarrow>
      intent_owner hash t object key = Inr (map_option ie_owner (intent_of hash t ?k))"
    by (simp add: intent_owner_def sm_get_def Let_def)
  moreover have "\<forall>g h. g \<in> set gs \<and> h \<in> set gs \<and> guard_owns g object key \<and> guard_owns h object key \<longrightarrow>
      wg_txn g = wg_txn h"
    using owns same by blast
  ultimately show ?thesis by blast
qed

theorem intent_exclusive_ownership_witness:
  "intent_owner (\<lambda>_. 0) held_table 2 [98] = Inr (Some 1)"
proof -
  have "\<not> poisoned (held_table (intent_shard (\<lambda>_. 0) (2, [98])))"
    by (simp add: held_table_entry sm_new_def sm_set_def)
  moreover have "guard_owns \<lparr>wg_txn = 1, wg_keys = [(2, [98])], wg_released = False\<rparr> 2 [98]"
    by (simp add: guard_owns_iff)
  ultimately show ?thesis
    using intent_exclusive_ownership [OF held_table_reachable, of 2 "[98]"] by auto
qed

text \<open>
  A normalized write set is acquired whole whenever it can be: if no shard is poisoned and each
  key is free or already held by the same transaction with room for one more holder, \<open>try_acquire\<close>
  on the normalized effects succeeds and the guard owns exactly the keys that were written.
\<close>
theorem intent_acquire_normalized:
  assumes "normalize_final_effects txn ms = Inr es" "\<And>i. \<not> poisoned (t i)"
    and "\<forall>e \<in> set es. free_for txn (intent_of hash t (fe_place e))"
  shows "\<exists>g t'. try_acquire hash txn es t = (Inr g, t') \<and> wg_txn g = txn \<and>
    (\<forall>object key. guard_owns g object key \<longleftrightarrow> latest ms (object, key) \<noteq> None)"
proof -
  let ?keys = "map intent_key_from_effect es"
  have place: "intent_key_from_effect = fe_place"
    by (rule ext) (simp add: intent_key_from_effect_def fe_place_def)
  have sorted: "sorted_wrt (<) ?keys" using normalize_effects(1) [OF assms(1)] by (simp add: place)
  then have "distinct ?keys" by (simp add: strict_sorted_iff)
  then have "all_free hash txn ?keys t" using assms(3) by (simp add: all_free_get place)
  moreover have "collect_keys txn [] es = Inr ?keys"
    using collect_keys_canonical [of "[]" es txn] sorted normalize_effect_txn [OF assms(1)] by simp
  ultimately have acq: "try_acquire hash txn es t =
      (Inr \<lparr>wg_txn = txn, wg_keys = ?keys, wg_released = False\<rparr>, take_all hash txn ?keys t)"
    using acquire_loop_ok [of hash txn ?keys t "[]"] assms(2) by (simp add: try_acquire_def)
  have "p \<in> set ?keys \<longleftrightarrow> latest ms p \<noteq> None" for p
    using normalize_effects(2) [OF assms(1), of p] find_None_iff [of "\<lambda>e. fe_place e = p" es]
    by (auto simp: place)
  then show ?thesis using acq sorted guard_owns_iff by fastforce
qed

theorem intent_acquire_normalized_witness:
  "\<exists>g t'. try_acquire (\<lambda>_. 0) 5 [put_effect 5 0 1 [97]] held_table = (Inr g, t') \<and> wg_txn g = 5 \<and>
    (\<forall>object key. guard_owns g object key \<longleftrightarrow> latest [ordered_put 5 0 1 [97] []] (object, key) \<noteq> None)"
  by (rule intent_acquire_normalized)
    (simp_all add: normalize_final_effects_def put_effect_def ordered_put_def fe_defs fe_place_def
      btm_values_def held_table_entry sm_new_def sm_set_def free_for_def sm_get_def)

end
