(* ===== verification/Frame.thy ===== *)
theory Frame
  imports Ids
begin

text \<open>
  Model of \<open>vnext/frame.rs\<close>: the lifecycle word that packs the frame state and the pin count, the
  incarnation counter, the optimistic version and the dirty bit.  Every public operation is one
  atomic step here, so the retry loops around a failed compare-and-swap run once and the incarnation
  re-check after a pin sees the incarnation that was read before it.  The \<open>unreachable!\<close> arm of
  \<open>FrameState::from_raw\<close> is the error \<open>FT_Unreachable\<close>.
\<close>

section \<open>State and operations\<close>

datatype FrameState = Frame_Free | Frame_Loading | Frame_Resident | Frame_Writeback | Frame_Evicting

datatype FrameTransitionError =
    FT_WrongState FrameState FrameState
  | FT_Pinned
  | FT_Dirty
  | FT_Clean
  | FT_WriteBusy
  | FT_IncarnationExhausted
  | FT_MissingIncarnation
  | FT_Unreachable

definition STATE_BITS :: nat where "STATE_BITS = 3"
definition STATE_MASK :: u64 where "STATE_MASK = push_bit STATE_BITS 1 - 1"
definition PIN_ONE :: u64 where "PIN_ONE = push_bit STATE_BITS 1"
definition MAX_PINS :: u64 where "MAX_PINS = drop_bit STATE_BITS (- 1)"

fun frame_state_code :: "FrameState \<Rightarrow> u64" where
  "frame_state_code Frame_Free = 0"
| "frame_state_code Frame_Loading = 1"
| "frame_state_code Frame_Resident = 2"
| "frame_state_code Frame_Writeback = 3"
| "frame_state_code Frame_Evicting = 4"

definition frame_state_from_raw :: "u64 \<Rightarrow> FrameState option" where
  "frame_state_from_raw raw =
     (if raw = 0 then Some Frame_Free
      else if raw = 1 then Some Frame_Loading
      else if raw = 2 then Some Frame_Resident
      else if raw = 3 then Some Frame_Writeback
      else if raw = 4 then Some Frame_Evicting
      else None)"

definition lifecycle_word :: "FrameState \<Rightarrow> u64 \<Rightarrow> u64" where
  "lifecycle_word s pins = push_bit STATE_BITS pins OR frame_state_code s"

definition lifecycle_state :: "u64 \<Rightarrow> FrameState option" where
  "lifecycle_state w = frame_state_from_raw (w AND STATE_MASK)"

definition lifecycle_pins :: "u64 \<Rightarrow> u64" where
  "lifecycle_pins w = drop_bit STATE_BITS w"

record FrameMeta =
  fm_lifecycle :: u64
  fm_version :: u64
  fm_incarnation :: u64
  fm_dirty :: bool

record FramePin =
  fp_incarnation :: FrameIncarnation

definition frame_new_free :: FrameMeta where
  "frame_new_free = \<lparr>fm_lifecycle = lifecycle_word Frame_Free 0, fm_version = 0, fm_incarnation = 0, fm_dirty = False\<rparr>"

definition frame_new_resident :: FrameMeta where
  "frame_new_resident = \<lparr>fm_lifecycle = lifecycle_word Frame_Resident 0, fm_version = 0, fm_incarnation = 1, fm_dirty = False\<rparr>"

definition frame_state :: "FrameMeta \<Rightarrow> FrameState option" where
  "frame_state m = lifecycle_state (fm_lifecycle m)"

definition frame_pin_count :: "FrameMeta \<Rightarrow> u64" where
  "frame_pin_count m = lifecycle_pins (fm_lifecycle m)"

definition frame_incarnation :: "FrameMeta \<Rightarrow> FrameIncarnation option" where
  "frame_incarnation m = frame_incarnation_new (fm_incarnation m)"

definition wrong_state :: "FrameState \<Rightarrow> u64 \<Rightarrow> FrameTransitionError" where
  "wrong_state expected actual =
     (case lifecycle_state actual of None \<Rightarrow> FT_Unreachable | Some s \<Rightarrow> FT_WrongState expected s)"

definition transition_unpinned ::
  "FrameMeta \<Rightarrow> FrameState \<Rightarrow> FrameState \<Rightarrow> (FrameTransitionError + unit) \<times> FrameMeta" where
  "transition_unpinned m expected next_state =
     (let actual = fm_lifecycle m in
      if actual = lifecycle_word expected 0
      then (Inr (), m\<lparr>fm_lifecycle := lifecycle_word next_state 0\<rparr>)
      else if lifecycle_state actual = Some expected \<and> lifecycle_pins actual \<noteq> 0 then (Inl FT_Pinned, m)
      else (Inl (wrong_state expected actual), m))"

definition begin_exclusive_state ::
  "FrameMeta \<Rightarrow> FrameState \<Rightarrow> (FrameTransitionError + unit) \<times> FrameMeta" where
  "begin_exclusive_state m next_state =
     (let actual = fm_lifecycle m in
      if actual = lifecycle_word Frame_Resident 0
      then (Inr (), m\<lparr>fm_lifecycle := lifecycle_word next_state 0\<rparr>)
      else if lifecycle_state actual = Some Frame_Resident \<and> lifecycle_pins actual \<noteq> 0
        then (Inl FT_Pinned, m)
      else (Inl (wrong_state Frame_Resident actual), m))"

definition begin_load :: "FrameMeta \<Rightarrow> (FrameTransitionError + FrameIncarnation) \<times> FrameMeta" where
  "begin_load m =
     (case transition_unpinned m Frame_Free Frame_Loading of
        (Inl e, m') \<Rightarrow> (Inl e, m')
      | (Inr _, m') \<Rightarrow>
          (case Option.bind (checked_add_u64 (fm_incarnation m') 1) frame_incarnation_new of
             None \<Rightarrow> (Inl FT_IncarnationExhausted, m'\<lparr>fm_lifecycle := lifecycle_word Frame_Free 0\<rparr>)
           | Some next_inc \<Rightarrow> (Inr next_inc, m'\<lparr>fm_incarnation := next_inc, fm_dirty := False\<rparr>)))"

definition finish_load_pinned :: "FrameMeta \<Rightarrow> (FrameTransitionError + FramePin) \<times> FrameMeta" where
  "finish_load_pinned m =
     (case frame_incarnation m of
        None \<Rightarrow> (Inl FT_MissingIncarnation, m)
      | Some inc \<Rightarrow>
          if fm_lifecycle m = lifecycle_word Frame_Loading 0
          then (Inr \<lparr>fp_incarnation = inc\<rparr>, m\<lparr>fm_lifecycle := lifecycle_word Frame_Resident 1\<rparr>)
          else (Inl (wrong_state Frame_Loading (fm_lifecycle m)), m))"

definition finish_new_page_pinned :: "FrameMeta \<Rightarrow> (FrameTransitionError + FramePin) \<times> FrameMeta" where
  "finish_new_page_pinned m = finish_load_pinned (m\<lparr>fm_dirty := True\<rparr>)"

definition abort_load :: "FrameMeta \<Rightarrow> (FrameTransitionError + unit) \<times> FrameMeta" where
  "abort_load m = transition_unpinned (m\<lparr>fm_dirty := False\<rparr>) Frame_Loading Frame_Free"

definition try_pin :: "FrameMeta \<Rightarrow> FramePin option \<times> FrameMeta" where
  "try_pin m =
     (let observed = fm_lifecycle m in
      if lifecycle_state observed \<noteq> Some Frame_Resident then (None, m)
      else if lifecycle_pins observed = MAX_PINS then (None, m)
      else case frame_incarnation m of
        None \<Rightarrow> (None, m)
      | Some inc \<Rightarrow> (Some \<lparr>fp_incarnation = inc\<rparr>, m\<lparr>fm_lifecycle := observed + PIN_ONE\<rparr>))"

definition try_begin_writeback :: "FrameMeta \<Rightarrow> (FrameTransitionError + unit) \<times> FrameMeta" where
  "try_begin_writeback m =
     (if \<not> fm_dirty m then (Inl FT_Clean, m) else begin_exclusive_state m Frame_Writeback)"

definition finish_writeback_to ::
  "FrameMeta \<Rightarrow> FrameState \<Rightarrow> (FrameTransitionError + unit) \<times> FrameMeta" where
  "finish_writeback_to m next_state =
     (if frame_state m \<noteq> Some Frame_Writeback
      then (Inl (wrong_state Frame_Writeback (fm_lifecycle m)), m)
      else transition_unpinned (m\<lparr>fm_dirty := False\<rparr>) Frame_Writeback next_state)"

definition finish_writeback :: "FrameMeta \<Rightarrow> (FrameTransitionError + unit) \<times> FrameMeta" where
  "finish_writeback m = finish_writeback_to m Frame_Resident"

definition finish_writeback_for_evict :: "FrameMeta \<Rightarrow> (FrameTransitionError + unit) \<times> FrameMeta" where
  "finish_writeback_for_evict m = finish_writeback_to m Frame_Evicting"

definition abort_writeback :: "FrameMeta \<Rightarrow> (FrameTransitionError + unit) \<times> FrameMeta" where
  "abort_writeback m = transition_unpinned m Frame_Writeback Frame_Resident"

definition try_begin_evict :: "FrameMeta \<Rightarrow> (FrameTransitionError + unit) \<times> FrameMeta" where
  "try_begin_evict m =
     (if fm_dirty m then (Inl FT_Dirty, m) else begin_exclusive_state m Frame_Evicting)"

definition abort_evict :: "FrameMeta \<Rightarrow> (FrameTransitionError + unit) \<times> FrameMeta" where
  "abort_evict m = transition_unpinned m Frame_Evicting Frame_Resident"

definition finish_evict :: "FrameMeta \<Rightarrow> (FrameTransitionError + unit) \<times> FrameMeta" where
  "finish_evict m = transition_unpinned m Frame_Evicting Frame_Free"

definition frame_unpin :: "FrameMeta \<Rightarrow> FrameMeta" where
  "frame_unpin m = m\<lparr>fm_lifecycle := fm_lifecycle m - PIN_ONE\<rparr>"



definition pin_try_write :: "FrameMeta \<Rightarrow> FramePin \<Rightarrow> (FrameTransitionError + u64) \<times> FrameMeta" where
  "pin_try_write m p =
     (if frame_state m \<noteq> Some Frame_Resident \<or> frame_incarnation m \<noteq> Some (fp_incarnation p)
      then (Inl (wrong_state Frame_Resident (fm_lifecycle m)), m)
      else if fm_version m AND 1 \<noteq> 0 then (Inl FT_WriteBusy, m)
      else (Inr (fm_version m + 1), m\<lparr>fm_version := fm_version m + 1, fm_dirty := True\<rparr>))"

definition latch_drop :: "FrameMeta \<Rightarrow> FrameMeta" where
  "latch_drop m = m\<lparr>fm_version := fm_version m + 1\<rparr>"

section \<open>The lifecycle word\<close>

lemma STATE_MASK_mask: "STATE_MASK = mask 3"
  by (simp add: STATE_MASK_def STATE_BITS_def mask_eq_exp_minus_1 push_bit_eq_mult)

lemma frame_state_code_small: "take_bit 3 (frame_state_code s) = frame_state_code s"
  by (cases s) simp_all

lemma from_raw_code [simp]: "frame_state_from_raw (frame_state_code s) = Some s"
  by (cases s) (simp_all add: frame_state_from_raw_def)

lemma frame_state_code_bits: "bit (frame_state_code s) i \<Longrightarrow> i < 3"
  by (metis bit_take_bit_iff frame_state_code_small)

lemma lifecycle_state_word [simp]: "lifecycle_state (lifecycle_word s p) = Some s"
proof -
  have "lifecycle_word s p AND STATE_MASK = frame_state_code s"
    by (rule bit_word_eqI)
      (auto simp: lifecycle_word_def STATE_MASK_mask STATE_BITS_def bit_simps dest: frame_state_code_bits)
  then show ?thesis by (simp add: lifecycle_state_def)
qed






section \<open>A frame with its pins and latches\<close>

text \<open>
  A frame together with the guards that are alive.  A write latch borrows its pin, so each live pin
  records whether it holds the latch.
\<close>

record FrameSystem =
  fs_meta :: FrameMeta
  fs_pins :: "(FramePin \<times> bool) list"

datatype FrameCall =
    Call_begin_load | Call_try_begin_writeback | Call_finish_writeback | Call_finish_writeback_for_evict
  | Call_abort_writeback | Call_try_begin_evict | Call_abort_evict | Call_finish_evict

fun frame_call :: "FrameCall \<Rightarrow> FrameMeta \<Rightarrow> FrameMeta" where
  "frame_call Call_begin_load m = snd (begin_load m)"
| "frame_call Call_try_begin_writeback m = snd (try_begin_writeback m)"
| "frame_call Call_finish_writeback m = snd (finish_writeback m)"
| "frame_call Call_finish_writeback_for_evict m = snd (finish_writeback_for_evict m)"
| "frame_call Call_abort_writeback m = snd (abort_writeback m)"
| "frame_call Call_try_begin_evict m = snd (try_begin_evict m)"
| "frame_call Call_abort_evict m = snd (abort_evict m)"
| "frame_call Call_finish_evict m = snd (finish_evict m)"

text \<open>
  Any operation may be tried in any state, except that only the owner of a load finishes a new page
  or aborts the load, while the frame is loading.
\<close>

inductive frame_step :: "FrameSystem \<Rightarrow> FrameSystem \<Rightarrow> bool" where
  call: "frame_step s (s\<lparr>fs_meta := frame_call c (fs_meta s)\<rparr>)"
| abort_load: "frame_state (fs_meta s) = Some Frame_Loading \<Longrightarrow>
    frame_step s (s\<lparr>fs_meta := snd (abort_load (fs_meta s))\<rparr>)"
| finish_load: "finish_load_pinned (fs_meta s) = (Inr p, m) \<Longrightarrow>
    frame_step s (s\<lparr>fs_meta := m, fs_pins := (p, False) # fs_pins s\<rparr>)"
| finish_new: "frame_state (fs_meta s) = Some Frame_Loading \<Longrightarrow>
    finish_new_page_pinned (fs_meta s) = (Inr p, m) \<Longrightarrow>
    frame_step s (s\<lparr>fs_meta := m, fs_pins := (p, False) # fs_pins s\<rparr>)"
| pin: "try_pin (fs_meta s) = (Some p, m) \<Longrightarrow>
    frame_step s (s\<lparr>fs_meta := m, fs_pins := (p, False) # fs_pins s\<rparr>)"
| latch: "fs_pins s = xs @ (p, False) # ys \<Longrightarrow> pin_try_write (fs_meta s) p = (Inr v, m) \<Longrightarrow>
    frame_step s (s\<lparr>fs_meta := m, fs_pins := xs @ (p, True) # ys\<rparr>)"
| unlatch: "fs_pins s = xs @ (p, True) # ys \<Longrightarrow>
    frame_step s (s\<lparr>fs_meta := latch_drop (fs_meta s), fs_pins := xs @ (p, False) # ys\<rparr>)"
| unpin: "fs_pins s = xs @ (p, False) # ys \<Longrightarrow>
    frame_step s (s\<lparr>fs_meta := frame_unpin (fs_meta s), fs_pins := xs @ ys\<rparr>)"


definition latches :: "(FramePin \<times> bool) list \<Rightarrow> nat" where
  "latches ps = length (filter snd ps)"

definition frame_inv :: "FrameState \<Rightarrow> FrameSystem \<Rightarrow> bool" where
  "frame_inv st s \<longleftrightarrow>
     fm_lifecycle (fs_meta s) = lifecycle_word st (of_nat (length (fs_pins s))) \<and>
     length (fs_pins s) < 2 ^ 61 \<and> (fs_pins s \<noteq> [] \<longrightarrow> st = Frame_Resident) \<and>
     (\<forall>x \<in> set (fs_pins s). fp_incarnation (fst x) = fm_incarnation (fs_meta s)) \<and>
     (latches (fs_pins s) = (if odd (fm_version (fs_meta s)) then 1 else 0)) \<and>
     (odd (fm_version (fs_meta s)) \<longrightarrow> fm_dirty (fs_meta s)) \<and>
     (st \<in> {Frame_Free, Frame_Loading, Frame_Evicting} \<longrightarrow> \<not> fm_dirty (fs_meta s)) \<and>
     (st = Frame_Writeback \<longrightarrow> fm_dirty (fs_meta s)) \<and>
     (st \<noteq> Frame_Free \<longrightarrow> fm_incarnation (fs_meta s) \<noteq> 0)"

lemma latches_simps [simp]:
  "latches [] = 0" "latches ((p, True) # ps) = Suc (latches ps)" "latches ((p, False) # ps) = latches ps"
  "latches (xs @ ys) = latches xs + latches ys"
  by (simp_all add: latches_def)







lemma begin_exclusive_cases: "begin_exclusive_state m next_state = transition_unpinned m Frame_Resident next_state"
  by (simp add: begin_exclusive_state_def transition_unpinned_def)



lemma frame_inv_refl: "frame_inv st s \<Longrightarrow> frame_inv st (s\<lparr>fs_meta := fs_meta s\<rparr>)"
  by simp









section \<open>Versions and incarnations along a run\<close>

text \<open>A run that counts how often a writer enters or leaves.\<close>

inductive frame_run :: "FrameSystem \<Rightarrow> nat \<Rightarrow> FrameSystem \<Rightarrow> bool" where
  refl: "frame_run s 0 s"
| quiet: "frame_run s k s' \<Longrightarrow> frame_step s' s'' \<Longrightarrow>
    fm_version (fs_meta s'') = fm_version (fs_meta s') \<Longrightarrow> frame_run s k s''"
| writer: "frame_run s k s' \<Longrightarrow> frame_step s' s'' \<Longrightarrow>
    fm_version (fs_meta s'') \<noteq> fm_version (fs_meta s') \<Longrightarrow> frame_run s (Suc k) s''"

lemma transition_unpinned_fields:
  "fm_version (snd (transition_unpinned m a b)) = fm_version m"
  "fm_incarnation (snd (transition_unpinned m a b)) = fm_incarnation m"
  "fm_dirty (snd (transition_unpinned m a b)) = fm_dirty m"
  by (simp_all add: transition_unpinned_def Let_def)




lemma begin_load_incarnation:
  "fm_incarnation m \<le> fm_incarnation (snd (begin_load m)) \<and>
   (\<forall>i. fst (begin_load m) = Inr i \<longrightarrow> fm_incarnation m < i \<and> fm_incarnation (snd (begin_load m)) = i)"
proof -
  obtain r m' where t: "transition_unpinned m Frame_Free Frame_Loading = (r, m')" by fastforce
  then have "fm_incarnation m' = fm_incarnation m"
    using transition_unpinned_fields(2) [of m Frame_Free Frame_Loading] by simp
  then show ?thesis
    using checked_add_u64_less [of "fm_incarnation m"]
    by (cases r) (auto simp: begin_load_def t bind_eq_Some_conv frame_incarnation_new_def less_imp_le
        split: option.splits if_splits)
qed

lemma frame_call_incarnation: "fm_incarnation m \<le> fm_incarnation (frame_call c m)"
proof (cases c)
  case Call_begin_load
  then show ?thesis using begin_load_incarnation [of m] by simp
qed (simp_all add: try_begin_writeback_def finish_writeback_def finish_writeback_for_evict_def
    finish_writeback_to_def abort_writeback_def try_begin_evict_def abort_evict_def finish_evict_def
    begin_exclusive_cases transition_unpinned_fields)

lemma frame_step_incarnation:
  assumes "frame_step s s'"
  shows "fm_incarnation (fs_meta s) \<le> fm_incarnation (fs_meta s')"
  using assms
  by cases (auto simp: frame_call_incarnation abort_load_def transition_unpinned_fields
      finish_load_pinned_def finish_new_page_pinned_def try_pin_def pin_try_write_def latch_drop_def
      frame_unpin_def Let_def split: option.splits if_splits)

lemma frame_run_incarnation:
  "frame_run s k s' \<Longrightarrow> fm_incarnation (fs_meta s) \<le> fm_incarnation (fs_meta s')"
  by (induction rule: frame_run.induct) (auto dest: frame_step_incarnation)



section \<open>A concrete run\<close>

definition demo_meta :: "FrameState \<Rightarrow> u64 \<Rightarrow> bool \<Rightarrow> u64 \<Rightarrow> FrameMeta" where
  "demo_meta st pins d v = frame_new_free\<lparr>fm_lifecycle := lifecycle_word st pins, fm_dirty := d,
     fm_version := v, fm_incarnation := 1\<rparr>"

definition demo_loading :: FrameSystem where
  "demo_loading = \<lparr>fs_meta = demo_meta Frame_Loading 0 False 0, fs_pins = []\<rparr>"




section \<open>Properties\<close>







text \<open>
  Incarnations are never reused: along every run of a frame its incarnation does not decrease,
  and a successful load reserves one that is strictly higher than every earlier one of the slot.
\<close>
theorem incarnation_never_reused:
  assumes "frame_run s k s'" "begin_load (fs_meta s') = (Inr i, m)"
  shows "fm_incarnation (fs_meta s) < i \<and> fm_incarnation (fs_meta s') < i \<and> fm_incarnation m = i"
  using frame_run_incarnation [OF assms(1)] begin_load_incarnation [of "fs_meta s'"] assms(2) by auto

theorem incarnation_never_reused_witness:
  "fst (begin_load frame_new_free) = Inr 1 \<and> fm_incarnation frame_new_free < 1"
proof -
  let ?s = "\<lparr>fs_meta = frame_new_free, fs_pins = []\<rparr>"
  have load: "begin_load (fs_meta ?s) = (Inr 1, fs_meta demo_loading)" by code_simp
  show ?thesis using incarnation_never_reused [OF frame_run.refl load] load by simp
qed

end
