(* ===== verification/Durable_Fs.thy ===== *)
theory Durable_Fs
  imports Prelude
begin

text \<open>
  Model of \<open>crates/durable-fs/src/lib.rs\<close>: which operating-system call a sync class selects, the walk
  that makes a directory chain durable, and atomic publication of a file by a temporary sibling, a
  sync, a rename and a directory sync.

  The operating system is the standard library's file interface, with what a crash may undo: a
  directory remembers, for every name, the entries that a crash may leave (all entries since the last
  directory sync), and a file whose content is not synced has arbitrary content after a crash.
  Every call may fail; an environment record says which ones do.
\<close>

section \<open>Sync classes\<close>

datatype SyncClass = DeviceBarrier | KernelBarrier

datatype OsSync = Std_sync_data | Std_sync_all | Libc_fsync

definition kernel_fsync :: "bool \<Rightarrow> OsSync" where
  "kernel_fsync macos = (if macos then Libc_fsync else Std_sync_data)"

definition sync_file_data :: "bool \<Rightarrow> SyncClass \<Rightarrow> OsSync" where
  "sync_file_data macos class = (case class of
     DeviceBarrier \<Rightarrow> Std_sync_data
   | KernelBarrier \<Rightarrow> kernel_fsync macos)"

definition sync_file_all :: "bool \<Rightarrow> SyncClass \<Rightarrow> OsSync" where
  "sync_file_all macos class = (case class of
     DeviceBarrier \<Rightarrow> Std_sync_all
   | KernelBarrier \<Rightarrow> (if macos then kernel_fsync macos else Std_sync_all))"

section \<open>Paths\<close>

text \<open>A path is absolute or relative and has components; \<open>parent\<close> and \<open>file_name\<close> are those of \<open>std::path\<close>.\<close>

datatype Path = Path (path_absolute: bool) (path_components: "string list")

definition path_parent :: "Path \<Rightarrow> Path option" where
  "path_parent p = (if path_components p = [] then None
     else Some (Path (path_absolute p) (butlast (path_components p))))"

definition path_is_empty :: "Path \<Rightarrow> bool" where
  "path_is_empty p \<longleftrightarrow> \<not> path_absolute p \<and> path_components p = []"

definition path_file_name :: "Path \<Rightarrow> string option" where
  "path_file_name p = (if path_components p = [] \<or> last (path_components p) = ''..'' then None
     else Some (last (path_components p)))"

abbreviation current_dir :: Path where
  "current_dir \<equiv> Path False [''.'']"

definition publication_parent :: "Path \<Rightarrow> Path" where
  "publication_parent p =
     (case opt_filter (\<lambda>q. \<not> path_is_empty q) (path_parent p) of Some q \<Rightarrow> q | None \<Rightarrow> current_dir)"

text \<open>
  The walk to the root: whether it succeeded and the directories synced, given which directory syncs
  succeed.  On a platform other than Unix a directory sync does nothing.
\<close>

definition fsync_dir :: "bool \<Rightarrow> (Path \<Rightarrow> bool) \<Rightarrow> Path \<Rightarrow> bool" where
  "fsync_dir unix sync p = (if unix then sync p else True)"

function fsync_chain_from :: "bool \<Rightarrow> (Path \<Rightarrow> bool) \<Rightarrow> Path \<Rightarrow> bool \<times> Path list" where
  "fsync_chain_from unix sync current =
     (if \<not> fsync_dir unix sync current then (False, [])
      else case path_parent current of
        None \<Rightarrow> (True, [current])
      | Some parent \<Rightarrow>
          if parent = current then (True, [current])
          else if path_is_empty parent then
            if fsync_dir unix sync current_dir then (True, [current, current_dir]) else (False, [current])
          else let (ok, synced) = fsync_chain_from unix sync parent in (ok, current # synced))"
  by pat_completeness auto
termination
  by (relation "measure (\<lambda>(unix, sync, p). length (path_components p))")
    (auto simp: path_parent_def split: if_splits)

declare fsync_chain_from.simps [simp del]

definition fsync_dir_chain :: "bool \<Rightarrow> (Path \<Rightarrow> bool) \<Rightarrow> Path \<Rightarrow> bool \<times> Path list" where
  "fsync_dir_chain unix sync p = fsync_chain_from unix sync (if path_is_empty p then current_dir else p)"

section \<open>One directory\<close>

record Inode =
  in_data :: bytes
  in_synced :: bool

record Fs =
  fs_entry :: "string \<Rightarrow> nat option"
  fs_possible :: "string \<Rightarrow> nat option set"
  fs_inode :: "nat \<Rightarrow> Inode"
  fs_next :: nat

definition fs_content :: "Fs \<Rightarrow> string \<Rightarrow> bytes option" where
  "fs_content fs name = map_option (\<lambda>i. in_data (fs_inode fs i)) (fs_entry fs name)"

text \<open>What a name may hold after a crash.\<close>

definition entry_contents :: "(nat \<Rightarrow> Inode) \<Rightarrow> nat option \<Rightarrow> bytes option set" where
  "entry_contents inode e = (case e of
     None \<Rightarrow> {None}
   | Some i \<Rightarrow> if in_synced (inode i) then {Some (in_data (inode i))} else range Some)"

definition crash_contents :: "Fs \<Rightarrow> string \<Rightarrow> bytes option set" where
  "crash_contents fs name = (\<Union>e \<in> fs_possible fs name. entry_contents (fs_inode fs) e)"

definition set_entry :: "string \<Rightarrow> nat option \<Rightarrow> Fs \<Rightarrow> Fs" where
  "set_entry name e fs = fs\<lparr>fs_entry := (fs_entry fs)(name := e),
     fs_possible := (fs_possible fs)(name := insert e (fs_possible fs name))\<rparr>"

definition os_create_new :: "string \<Rightarrow> Fs \<Rightarrow> nat \<times> Fs" where
  "os_create_new name fs = (fs_next fs,
     set_entry name (Some (fs_next fs)) (fs\<lparr>fs_next := fs_next fs + 1,
       fs_inode := (fs_inode fs)(fs_next fs := \<lparr>in_data = [], in_synced = False\<rparr>)\<rparr>))"

definition os_append :: "nat \<Rightarrow> bytes \<Rightarrow> Fs \<Rightarrow> Fs" where
  "os_append i bs fs = fs\<lparr>fs_inode := (fs_inode fs)(i := \<lparr>in_data = in_data (fs_inode fs i) @ bs, in_synced = False\<rparr>)\<rparr>"

definition os_sync :: "nat \<Rightarrow> Fs \<Rightarrow> Fs" where
  "os_sync i fs = fs\<lparr>fs_inode := (fs_inode fs)(i := (fs_inode fs i)\<lparr>in_synced := True\<rparr>)\<rparr>"

definition os_remove :: "string \<Rightarrow> Fs \<Rightarrow> Fs" where
  "os_remove name fs = set_entry name None fs"

definition os_rename :: "string \<Rightarrow> string \<Rightarrow> Fs \<Rightarrow> Fs" where
  "os_rename source target fs = set_entry source None (set_entry target (fs_entry fs source) fs)"

definition os_sync_dir :: "Fs \<Rightarrow> Fs" where
  "os_sync_dir fs = fs\<lparr>fs_possible := (\<lambda>name. {fs_entry fs name})\<rparr>"

section \<open>Atomic publication\<close>

datatype IoError = Io_InvalidInput | Io_AlreadyExists | Io_Other

text \<open>
  Which calls succeed: the opening of each temporary by its sequence number, the write (\<open>Some k\<close> when
  it fails after \<open>k\<close> bytes), flush, sync, rename, removal and the directory sync.
\<close>

record PublishEnv =
  env_open :: "nat \<Rightarrow> bool"
  env_write :: "nat option"
  env_flush :: bool
  env_sync :: bool
  env_rename :: bool
  env_remove :: bool
  env_dirsync :: bool

text \<open>Decimal formatting of a number.\<close>

fun decimal :: "nat \<Rightarrow> string" where
  "decimal n = (if n < 10 then [char_of (48 + n)] else decimal (n div 10) @ [char_of (48 + n mod 10)])"

declare decimal.simps [simp del]

definition temporary_name :: "string \<Rightarrow> nat \<Rightarrow> nat \<Rightarrow> string" where
  "temporary_name filename pid sequence = filename @ ''.tmp.'' @ decimal pid @ ''.'' @ decimal sequence"

text \<open>At most 128 attempts; a name that is taken moves on to the next sequence number.\<close>

fun temporary_loop :: "(nat \<Rightarrow> bool) \<Rightarrow> nat \<Rightarrow> string \<Rightarrow> nat \<Rightarrow> nat \<Rightarrow> Fs \<Rightarrow>
    (IoError + string \<times> nat) \<times> nat \<times> Fs" where
  "temporary_loop open_ok pid filename 0 sequence fs = (Inl Io_AlreadyExists, sequence, fs)"
| "temporary_loop open_ok pid filename (Suc attempts) sequence fs =
     (let temporary = temporary_name filename pid sequence in
      if fs_entry fs temporary \<noteq> None then temporary_loop open_ok pid filename attempts (sequence + 1) fs
      else if \<not> open_ok sequence then (Inl Io_Other, sequence + 1, fs)
      else let (i, fs') = os_create_new temporary fs in (Inr (temporary, i), sequence + 1, fs'))"

definition create_temporary_sibling :: "PublishEnv \<Rightarrow> nat \<Rightarrow> Path \<Rightarrow> nat \<Rightarrow> Fs \<Rightarrow>
    (IoError + string \<times> nat) \<times> nat \<times> Fs" where
  "create_temporary_sibling env pid path sequence fs =
     (case path_file_name path of
        None \<Rightarrow> (Inl Io_InvalidInput, sequence, fs)
      | Some filename \<Rightarrow> temporary_loop (env_open env) pid filename 128 sequence fs)"

text \<open>The publishing closure: its result and the states the directory goes through.\<close>

definition publish_closure :: "PublishEnv \<Rightarrow> string \<Rightarrow> nat \<Rightarrow> string \<Rightarrow> bytes \<Rightarrow> Fs \<Rightarrow> (IoError + unit) \<times> Fs list" where
  "publish_closure env temporary i filename data fs =
     (case env_write env of
        Some k \<Rightarrow> (Inl Io_Other, [os_append i (take k data) fs])
      | None \<Rightarrow>
          let written = os_append i data fs in
          if \<not> env_flush env then (Inl Io_Other, [written])
          else if \<not> env_sync env then (Inl Io_Other, [written])
          else let synced = os_sync i written in
            if \<not> env_rename env then (Inl Io_Other, [written, synced])
            else (Inr (), [written, synced, os_rename temporary filename synced]))"

text \<open>The result, the next sequence number, and every state of the directory on the way, in order.\<close>

definition atomic_write :: "PublishEnv \<Rightarrow> nat \<Rightarrow> Path \<Rightarrow> bytes \<Rightarrow> nat \<Rightarrow> Fs \<Rightarrow>
    (IoError + unit) \<times> nat \<times> Fs list" where
  "atomic_write env pid path data sequence fs =
     (case create_temporary_sibling env pid path sequence fs of
        (Inl e, sequence', fs') \<Rightarrow> (Inl e, sequence', [fs, fs'])
      | (Inr (temporary, i), sequence', fs') \<Rightarrow>
          (case publish_closure env temporary i (the (path_file_name path)) data fs' of
             (Inl e, states) \<Rightarrow>
               (Inl e, sequence', [fs, fs'] @ states
                  @ (if env_remove env then [os_remove temporary (last states)] else []))
           | (Inr _, states) \<Rightarrow>
               if env_dirsync env then (Inr (), sequence', [fs, fs'] @ states @ [os_sync_dir (last states)])
               else (Inl Io_Other, sequence', [fs, fs'] @ states)))"

section \<open>What publication does to names\<close>

lemma temporary_name_neq: "temporary_name filename pid sequence \<noteq> filename"
  by (simp add: temporary_name_def)

lemma temporary_loop_cases:
  assumes "temporary_loop open_ok pid filename attempts sequence fs = (r, sequence', fs')"
  shows "(\<exists>e. r = Inl e \<and> fs' = fs) \<or>
    (\<exists>temporary. r = Inr (temporary, fs_next fs) \<and> temporary \<noteq> filename \<and> fs_entry fs temporary = None \<and>
      fs' = snd (os_create_new temporary fs))"
  using assms temporary_name_neq
  by (induction open_ok pid filename attempts sequence fs rule: temporary_loop.induct)
    (auto simp: Let_def os_create_new_def split: if_splits)

text \<open>Names refer to inodes that exist; the next inode number is fresh.\<close>

definition fs_wf :: "Fs \<Rightarrow> bool" where
  "fs_wf fs \<longleftrightarrow> (\<forall>name i. Some i \<in> fs_possible fs name \<longrightarrow> i < fs_next fs) \<and>
     (\<forall>name. fs_entry fs name \<in> fs_possible fs name)"

text \<open>Possible contents of a name depend only on its possible entries and their inodes.\<close>

lemma fs_wf_fresh:
  assumes "fs_wf fs"
  shows "Some (fs_next fs) \<notin> fs_possible fs name" "fs_entry fs name \<noteq> Some (fs_next fs)"
  using assms unfolding fs_wf_def by (blast, metis less_irrefl)

lemma crash_contents_other:
  assumes "fs_wf fs" "fs_possible fs' name = fs_possible fs name"
    and "\<And>i. i \<noteq> fs_next fs \<Longrightarrow> fs_inode fs' i = fs_inode fs i"
  shows "crash_contents fs' name = crash_contents fs name"
proof -
  have "fs_inode fs' i = fs_inode fs i" if "Some i \<in> fs_possible fs name" for i
    using fs_wf_fresh(1) [OF assms(1), of name] assms(3) that by (metis (no_types))
  then have "entry_contents (fs_inode fs') e = entry_contents (fs_inode fs) e" if "e \<in> fs_possible fs name" for e
    using that by (auto simp: entry_contents_def split: option.splits)
  then show ?thesis using assms(2) by (simp add: crash_contents_def)
qed

lemma crash_contents_renamed:
  assumes "fs_wf fs" "fs_possible fs' name = insert (Some (fs_next fs)) (fs_possible fs name)"
    and "\<And>i. i \<noteq> fs_next fs \<Longrightarrow> fs_inode fs' i = fs_inode fs i"
    and "fs_inode fs' (fs_next fs) = \<lparr>in_data = data, in_synced = True\<rparr>"
  shows "crash_contents fs' name = insert (Some data) (crash_contents fs name)"
proof -
  let ?g = "fs'\<lparr>fs_possible := fs_possible fs\<rparr>"
  have "crash_contents fs' name = insert (Some data) (crash_contents ?g name)"
    using assms(2,4) by (simp add: crash_contents_def entry_contents_def)
  also have "crash_contents ?g name = crash_contents fs name"
    using assms(1,3) by (intro crash_contents_other) simp_all
  finally show ?thesis .
qed

text \<open>Every state before the directory sync leaves the target's old or new content.\<close>

definition target_safe :: "Fs \<Rightarrow> string \<Rightarrow> bytes \<Rightarrow> Fs \<Rightarrow> bool" where
  "target_safe fs name data fs' \<longleftrightarrow>
     crash_contents fs' name \<subseteq> insert (Some data) (crash_contents fs name) \<and>
     fs_content fs' name \<in> {fs_content fs name, Some data}"

lemmas os_defs = os_create_new_def os_append_def os_sync_def os_remove_def os_rename_def
  os_sync_dir_def set_entry_def

lemma target_safe_before:
  assumes "fs_wf fs" "fs_possible fs' name = fs_possible fs name" "fs_entry fs' name = fs_entry fs name"
    and "\<And>i. i \<noteq> fs_next fs \<Longrightarrow> fs_inode fs' i = fs_inode fs i"
  shows "target_safe fs name data fs'"
proof -
  note fs_wf_fresh(2) [OF assms(1), of name]
  then have "fs_content fs' name = fs_content fs name"
    using assms(3,4) by (cases "fs_entry fs name") (auto simp: fs_content_def)
  then show ?thesis using crash_contents_other [OF assms(1,2,4)] by (auto simp: target_safe_def)
qed

lemma target_safe_after:
  assumes "fs_wf fs" "fs_possible fs' name \<in> {insert (Some (fs_next fs)) (fs_possible fs name), {Some (fs_next fs)}}"
    and "fs_entry fs' name = Some (fs_next fs)"
    and "\<And>i. i \<noteq> fs_next fs \<Longrightarrow> fs_inode fs' i = fs_inode fs i"
    and "fs_inode fs' (fs_next fs) = \<lparr>in_data = data, in_synced = True\<rparr>"
  shows "target_safe fs name data fs'"
proof -
  have "fs_content fs' name = Some data" using assms(3,5) by (simp add: fs_content_def)
  moreover have "crash_contents fs' name \<subseteq> insert (Some data) (crash_contents fs name)"
  proof (cases "fs_possible fs' name = {Some (fs_next fs)}")
    case True
    then show ?thesis using assms(5) by (simp add: crash_contents_def entry_contents_def)
  next
    case False
    then show ?thesis using assms(2) crash_contents_renamed [OF assms(1) _ assms(4,5)] by simp
  qed
  ultimately show ?thesis by (simp add: target_safe_def)
qed

lemma publish_closure_states:
  assumes wf: "fs_wf fs" and neq: "temporary \<noteq> name" and i: "i = fs_next fs"
    and publish: "publish_closure env temporary i name data (snd (os_create_new temporary fs)) = (r, states)"
  shows "states \<noteq> []" "\<forall>s \<in> set states. target_safe fs name data s"
    and "\<exists>e. r = Inl e \<Longrightarrow> target_safe fs name data (os_remove temporary (last states))"
    and "r = Inr () \<Longrightarrow> fs_entry (last states) name = Some i \<and>
      fs_inode (last states) i = \<lparr>in_data = data, in_synced = True\<rparr> \<and>
      target_safe fs name data (os_sync_dir (last states))"
proof -
  let ?c = "snd (os_create_new temporary fs)"
  let ?s = "os_sync i (os_append i data ?c)"
  let ?r = "os_rename temporary name ?s"
  note before = target_safe_before [OF wf] and after = target_safe_after [OF wf]
  have written: "target_safe fs name data (os_append i bs ?c)"
    "target_safe fs name data (os_remove temporary (os_append i bs ?c))" for bs
    by (rule before; use neq i in \<open>simp add: os_defs\<close>)+
  have synced: "target_safe fs name data ?s" "target_safe fs name data (os_remove temporary ?s)"
    by (rule before; use neq i in \<open>simp add: os_defs\<close>)+
  have renamed: "target_safe fs name data ?r" "target_safe fs name data (os_sync_dir ?r)"
    by (rule after; use neq i in \<open>simp add: os_defs\<close>)+
  have final: "fs_entry ?r name = Some i \<and> fs_inode ?r i = \<lparr>in_data = data, in_synced = True\<rparr>"
    using neq i by (simp add: os_defs)
  consider bs where "r = Inl Io_Other" "states = [os_append i bs ?c]"
    | "r = Inl Io_Other" "states = [os_append i data ?c, ?s]"
    | "r = Inr ()" "states = [os_append i data ?c, ?s, ?r]"
    using publish by (auto simp: publish_closure_def Let_def split: option.splits if_splits)
  then have "states \<noteq> [] \<and> (\<forall>s \<in> set states. target_safe fs name data s) \<and>
    ((\<exists>e. r = Inl e) \<longrightarrow> target_safe fs name data (os_remove temporary (last states))) \<and>
    (r = Inr () \<longrightarrow> fs_entry (last states) name = Some i \<and>
      fs_inode (last states) i = \<lparr>in_data = data, in_synced = True\<rparr> \<and>
      target_safe fs name data (os_sync_dir (last states)))"
    by cases (simp_all add: written synced renamed final)
  then show "states \<noteq> []" "\<forall>s \<in> set states. target_safe fs name data s"
    and "\<exists>e. r = Inl e \<Longrightarrow> target_safe fs name data (os_remove temporary (last states))"
    and "r = Inr () \<Longrightarrow> fs_entry (last states) name = Some i \<and>
      fs_inode (last states) i = \<lparr>in_data = data, in_synced = True\<rparr> \<and>
      target_safe fs name data (os_sync_dir (last states))"
    by simp_all
qed

lemma publish_closure_other:
  assumes "publish_closure env temporary i name data fs = (r, states)" "other \<noteq> name" "other \<noteq> temporary"
  shows "\<forall>s \<in> set states. fs_entry s other = fs_entry fs other"
  using assms by (auto simp: publish_closure_def Let_def os_append_def os_sync_def os_rename_def set_entry_def
      split: option.splits if_splits)

text \<open>Publication leaves every other existing name alone.\<close>

lemma atomic_write_other:
  assumes "path_file_name path = Some name" "other \<noteq> name" "fs_entry fs other \<noteq> None"
    and "atomic_write env pid path data sequence fs = (r, sequence', states)"
  shows "states \<noteq> []" "\<forall>s \<in> set states. fs_entry s other = fs_entry fs other"
proof -
  obtain t sq fs' where sibling: "create_temporary_sibling env pid path sequence fs = (t, sq, fs')"
    by (metis prod_cases3)
  then have loop: "temporary_loop (env_open env) pid name 128 sequence fs = (t, sq, fs')"
    by (simp add: create_temporary_sibling_def assms(1))
  have "states \<noteq> [] \<and> (\<forall>s \<in> set states. fs_entry s other = fs_entry fs other)"
  proof (cases t)
    case (Inl e)
    then have "fs' = fs" using temporary_loop_cases [OF loop] by auto
    then show ?thesis using assms(4) Inl by (auto simp: atomic_write_def sibling)
  next
    case (Inr ti)
    then obtain temporary where t': "t = Inr (temporary, fs_next fs)" "fs_entry fs temporary = None"
      and create: "fs' = snd (os_create_new temporary fs)"
      using temporary_loop_cases [OF loop] by auto
    have t: "t = Inr (temporary, fs_next fs)" "other \<noteq> temporary" using t' assms(3) by auto
    have fs': "fs_entry fs' other = fs_entry fs other" using t(2) by (simp add: create os_create_new_def set_entry_def)
    obtain q ss where p: "publish_closure env temporary (fs_next fs) name data fs' = (q, ss)" by fastforce
    have ne: "ss \<noteq> []" using p by (auto simp: publish_closure_def Let_def split: option.splits if_splits)
    note ss = publish_closure_other [OF p assms(2) t(2)]
    have "fs_entry (last ss) other = fs_entry fs other" using ss ne fs' by simp
    then show ?thesis
      using assms(1,4) ss fs' t(2)
      by (auto simp: atomic_write_def sibling t p os_remove_def set_entry_def os_sync_dir_def
          split: sum.splits if_splits)
  qed
  then show "states \<noteq> []" "\<forall>s \<in> set states. fs_entry s other = fs_entry fs other" by blast+
qed

lemma atomic_write_is_atomic_states:
  assumes "fs_wf fs" "path_file_name path = Some name"
    and "atomic_write env pid path data sequence fs = (r, sequence', states)"
  shows "(\<forall>s \<in> set states. target_safe fs name data s) \<and>
    (r = Inr () \<longrightarrow> fs_content (last states) name = Some data \<and> crash_contents (last states) name = {Some data})"
proof -
  obtain t sq fs' where sibling: "create_temporary_sibling env pid path sequence fs = (t, sq, fs')"
    by (metis prod_cases3)
  have start: "target_safe fs name data fs" by (simp add: target_safe_def subset_insertI)
  from sibling have loop: "temporary_loop (env_open env) pid name 128 sequence fs = (t, sq, fs')"
    by (simp add: create_temporary_sibling_def assms(2))
  show ?thesis
  proof (cases t)
    case (Inl e)
    then have "fs' = fs" using temporary_loop_cases [OF loop] by auto
    then show ?thesis using assms(3) start Inl by (auto simp: atomic_write_def sibling)
  next
    case (Inr ti)
    then obtain temporary where t: "t = Inr (temporary, fs_next fs)" "temporary \<noteq> name"
      and fs': "fs' = snd (os_create_new temporary fs)"
      using temporary_loop_cases [OF loop] by auto
    obtain q ss where p: "publish_closure env temporary (fs_next fs) name data fs' = (q, ss)" by fastforce
    note states = publish_closure_states [OF assms(1) t(2) refl p [unfolded fs']]
    have created: "target_safe fs name data fs'"
      by (rule target_safe_before [OF assms(1)]) (use t(2) in \<open>simp_all add: fs' os_defs\<close>)
    show ?thesis
    proof (cases q)
      case (Inl e)
      then show ?thesis
        using assms(2,3) start created states(1-3) by (auto simp: atomic_write_def sibling t p split: if_splits)
    next
      case (Inr u)
      have "fs_content (os_sync_dir (last ss)) name = Some data \<and>
          crash_contents (os_sync_dir (last ss)) name = {Some data}"
        using states(4) Inr by (simp add: fs_content_def crash_contents_def entry_contents_def os_sync_dir_def)
      then show ?thesis
        using assms(2,3) start created states(1,2,4) Inr
        by (auto simp: atomic_write_def sibling t p split: if_splits)
    qed
  qed
qed

section \<open>The directory chain\<close>

lemma fsync_chain_covers:
  "fsync_chain_from unix sync p = (True, synced) \<Longrightarrow> p \<noteq> current_dir \<Longrightarrow> \<not> path_is_empty p \<Longrightarrow>
   q \<in> (\<lambda>k. Path (path_absolute p) (take k (path_components p))) ` {..length (path_components p)} \<Longrightarrow>
   \<not> path_is_empty q \<Longrightarrow> q \<in> set synced \<and> fsync_dir unix sync q"
proof (induction unix sync p arbitrary: synced q rule: fsync_chain_from.induct)
  case (1 unix sync p)
  obtain k where k: "k \<le> length (path_components p)" "q = Path (path_absolute p) (take k (path_components p))"
    using 1(5) by auto
  have ok: "fsync_dir unix sync p"
    using 1(2) by (subst (asm) fsync_chain_from.simps) (auto split: if_splits)
  show ?case
  proof (cases "k = length (path_components p)")
    case True
    then have "q = p" using k by (cases p) simp
    then show ?thesis
      using 1(2) ok by (subst (asm) fsync_chain_from.simps)
        (auto simp: Let_def split: option.splits if_splits prod.splits)
  next
    case False
    then have ne: "path_components p \<noteq> []" and k': "k \<le> length (butlast (path_components p))"
      using k by auto
    let ?p = "Path (path_absolute p) (butlast (path_components p))"
    have parent: "path_parent p = Some ?p" using ne by (simp add: path_parent_def)
    have q: "q = Path (path_absolute ?p) (take k (path_components ?p))"
      using k' by (simp add: k(2) butlast_conv_take)
    then have "path_components ?p = [] \<Longrightarrow> path_absolute p" using 1(6) by (auto simp: path_is_empty_def)
    then have nempty: "\<not> path_is_empty ?p" by (auto simp: path_is_empty_def)
    have "length (path_components ?p) < length (path_components p)" using ne by simp
    then have "?p \<noteq> p" by (metis less_irrefl)
    then obtain rest where rest: "fsync_chain_from unix sync ?p = (True, rest)" "synced = p # rest"
      using 1(2) ok nempty parent by (subst (asm) fsync_chain_from.simps) (auto simp: Let_def split: prod.splits)
    show ?thesis
    proof (cases "?p = current_dir")
      case True
      then have "q = current_dir" using q 1(6) k' by (auto simp: path_is_empty_def take_Cons' split: if_splits)
      moreover have "current_dir \<in> set rest \<and> fsync_dir unix sync current_dir"
        using rest(1) by (subst (asm) True, subst (asm) fsync_chain_from.simps)
          (auto simp: path_parent_def path_is_empty_def split: if_splits)
      ultimately show ?thesis using rest(2) by simp
    next
      case False
      then show ?thesis
        using 1(1) [OF _ parent \<open>?p \<noteq> p\<close> nempty rest(1) False nempty _ 1(6)] ok q k' rest(2) by auto
    qed
  qed
qed

section \<open>Properties\<close>

text \<open>
  C32.  Publication is atomic under crashes and failures: in every state that \<open>atomic_write\<close> goes
  through, whichever call fails, the target holds its old or the new content, and so it does after a
  crash at that point; and when the call succeeds, the target holds the new content and a crash
  cannot lose it.
\<close>
theorem atomic_write_is_atomic:
  assumes "fs_wf fs" "path_file_name path = Some name"
    and "atomic_write env pid path data sequence fs = (r, sequence', states)"
  shows "(\<forall>s \<in> set states. crash_contents s name \<subseteq> insert (Some data) (crash_contents fs name) \<and>
      fs_content s name \<in> {fs_content fs name, Some data}) \<and>
    (r = Inr () \<longrightarrow> fs_content (last states) name = Some data \<and> crash_contents (last states) name = {Some data})"
  using atomic_write_is_atomic_states [OF assms] by (auto simp: target_safe_def)

theorem atomic_write_is_atomic_witness:
  "let fs = \<lparr>fs_entry = [''a'' \<mapsto> 0], fs_possible = (\<lambda>name. {[''a'' \<mapsto> 0] name}),
         fs_inode = (\<lambda>_. \<lparr>in_data = [1], in_synced = True\<rparr>), fs_next = 1\<rparr>;
       env = \<lparr>env_open = (\<lambda>_. True), env_write = None, env_flush = True, env_sync = True,
         env_rename = True, env_remove = True, env_dirsync = True\<rparr>;
       states = snd (snd (atomic_write env 7 (Path False [''a'']) [2, 3] 0 fs))
   in fs_content fs ''a'' = Some [1] \<and> fs_content (last states) ''a'' = Some [2, 3] \<and>
      crash_contents (last states) ''a'' = {Some [2, 3]}"
proof -
  let ?fs = "\<lparr>fs_entry = [''a'' \<mapsto> 0], fs_possible = (\<lambda>name. {[''a'' \<mapsto> 0] name}),
     fs_inode = (\<lambda>_. \<lparr>in_data = [1], in_synced = True\<rparr>), fs_next = 1\<rparr>"
  let ?env = "\<lparr>env_open = (\<lambda>_. True), env_write = None, env_flush = True, env_sync = True,
     env_rename = True, env_remove = True, env_dirsync = True\<rparr>"
  let ?w = "atomic_write ?env 7 (Path False [''a'']) [2, 3] 0 ?fs"
  have wf: "fs_wf ?fs" by (auto simp: fs_wf_def split: if_splits)
  have name: "path_file_name (Path False [''a'']) = Some ''a''" by code_simp
  have "fst ?w = Inr ()" by code_simp
  then have "?w = (Inr (), fst (snd ?w), snd (snd ?w))" by (metis prod.collapse)
  note published = atomic_write_is_atomic [OF wf name this]
  have "fs_content ?fs ''a'' = Some [1]" by (simp add: fs_content_def)
  then show ?thesis unfolding Let_def using published by blast
qed

end
