(* ===== verification/Store.thy ===== *)
theory Store
  imports Ids Durable_Fs
begin

text \<open>
  Model of \<open>crates/seerdb/src/vnext/store.rs\<close>: the 32-byte header that binds a container file to one
  store incarnation, creating and opening a store directory under its exclusive lock, and the claims
  on its three mutable components.  The directory is that of \<open>Durable_Fs\<close>; an environment says which
  operating-system calls succeed, what \<open>read_dir\<close> lists and what the random source returns.
\<close>

section \<open>Components and errors\<close>

datatype StoreComponent = Comp_Wal | Comp_Undo | Comp_Pages

fun claim_bit :: "StoreComponent \<Rightarrow> u8" where
  "claim_bit Comp_Wal = 1"
| "claim_bit Comp_Undo = 2"
| "claim_bit Comp_Pages = 4"

datatype StoreError =
    SE_Busy
  | SE_ComponentBusy StoreComponent
  | SE_MissingLock
  | SE_MissingIdentity
  | SE_AlreadyExists
  | SE_NotEmpty
  | SE_UnsupportedPlatform
  | SE_InvalidPath string
  | SE_Corruption string string
  | SE_ForeignIncarnation string StoreIncarnation StoreIncarnation
  | SE_InvalidRandomIncarnation
  | SE_Random
  | SE_Io string

definition LOCK_FILE_NAME :: string where "LOCK_FILE_NAME = ''seerdb.lock''"
definition IDENTITY_FILE_NAME :: string where "IDENTITY_FILE_NAME = ''store.identity''"
definition WAL_DIRECTORY_NAME :: string where "WAL_DIRECTORY_NAME = ''wal''"
definition UNDO_FILE_NAME :: string where "UNDO_FILE_NAME = ''undo.log''"
definition IMAGE_FILE_NAME :: string where "IMAGE_FILE_NAME = ''page-images.dat''"

section \<open>The bound header\<close>

definition STORE_IDENTITY_MAGIC :: bytes where "STORE_IDENTITY_MAGIC = [79, 77, 83, 73]"
definition BOUND_HEADER_BYTES :: nat where "BOUND_HEADER_BYTES = 32"
definition BOUND_HEADER_VERSION :: u8 where "BOUND_HEADER_VERSION = 1"
definition BOUND_HEADER_CHECKSUM_OFFSET :: nat where "BOUND_HEADER_CHECKSUM_OFFSET = 28"

lemmas bound_consts = BOUND_HEADER_BYTES_def BOUND_HEADER_VERSION_def BOUND_HEADER_CHECKSUM_OFFSET_def

definition encode_bound_header :: "(bytes \<Rightarrow> u32) \<Rightarrow> bytes \<Rightarrow> StoreIncarnation \<Rightarrow> bytes" where
  "encode_bound_header crc magic incarnation =
     (let prefix = magic @ [BOUND_HEADER_VERSION, 0] @ le_bytes 2 (of_nat BOUND_HEADER_BYTES :: u16)
            @ incarnation @ [0, 0, 0, 0]
      in prefix @ le_bytes 4 (crc prefix))"

definition decode_bound_header :: "(bytes \<Rightarrow> u32) \<Rightarrow> bytes \<Rightarrow> bytes \<Rightarrow> string \<Rightarrow> StoreError + StoreIncarnation" where
  "decode_bound_header crc bs magic path =
     (let corruption = SE_Corruption path in
      if length bs \<noteq> BOUND_HEADER_BYTES then Inl (corruption ''container header must be exactly 32 bytes'')
      else if take 4 bs \<noteq> magic then Inl (corruption ''invalid container header magic'')
      else if bs ! 4 \<noteq> BOUND_HEADER_VERSION then Inl (corruption ''unsupported container header version'')
      else if bs ! 5 \<noteq> 0 then Inl (corruption ''unsupported container header flags'')
      else if of_le_bytes [bs ! 6, bs ! 7] \<noteq> (of_nat BOUND_HEADER_BYTES :: u16)
        then Inl (corruption ''invalid container header size field'')
      else if list_ex (\<lambda>byte. byte \<noteq> 0) (take (BOUND_HEADER_CHECKSUM_OFFSET - 24) (drop 24 bs))
        then Inl (corruption ''nonzero container header reserved field'')
      else if crc (take BOUND_HEADER_CHECKSUM_OFFSET bs) \<noteq> of_le_bytes (drop BOUND_HEADER_CHECKSUM_OFFSET bs)
        then Inl (corruption ''container header checksum mismatch'')
      else ok_or (corruption ''container header incarnation is all zeroes'')
        (store_incarnation_from_bytes (take 16 (drop 8 bs))))"

definition encode_identity :: "(bytes \<Rightarrow> u32) \<Rightarrow> StoreIncarnation \<Rightarrow> bytes" where
  "encode_identity crc incarnation = encode_bound_header crc STORE_IDENTITY_MAGIC incarnation"

definition decode_identity :: "(bytes \<Rightarrow> u32) \<Rightarrow> bytes \<Rightarrow> string \<Rightarrow> StoreError + StoreIncarnation" where
  "decode_identity crc bs path = decode_bound_header crc bs STORE_IDENTITY_MAGIC path"

section \<open>Ownership and claims\<close>

record StoreOwnership =
  so_incarnation :: StoreIncarnation
  so_claimed :: u8

text \<open>The compare-and-swap loop of \<open>claim\<close> is one atomic read-modify-write.\<close>

definition store_claim :: "StoreComponent \<Rightarrow> StoreOwnership \<Rightarrow> (StoreError + StoreComponent) \<times> StoreOwnership" where
  "store_claim component o1 =
     (let bit = claim_bit component in
      if so_claimed o1 AND bit \<noteq> 0 then (Inl (SE_ComponentBusy component), o1)
      else (Inr component, o1\<lparr>so_claimed := so_claimed o1 OR bit\<rparr>))"

definition lease_drop :: "StoreComponent \<Rightarrow> StoreOwnership \<Rightarrow> StoreOwnership" where
  "lease_drop component o1 = o1\<lparr>so_claimed := so_claimed o1 AND NOT (claim_bit component)\<rparr>"

section \<open>The store directory\<close>

record StoreDir =
  sd_exists :: bool
  sd_is_dir :: bool
  sd_fs :: Fs
  sd_regular :: "string \<Rightarrow> bool"
  sd_locked :: bool

record StoreEnv =
  se_unix :: bool
  se_io :: "string \<Rightarrow> bool"
  se_listing :: "string list"
  se_random :: "bytes option"
  se_pid :: nat
  se_sequence :: nat
  se_publish :: PublishEnv
  se_dirsync :: "Path \<Rightarrow> bool"

definition require_supported_platform :: "StoreEnv \<Rightarrow> StoreError + unit" where
  "require_supported_platform env = (if se_unix env then Inr () else Inl SE_UnsupportedPlatform)"

definition store_io :: "StoreEnv \<Rightarrow> string \<Rightarrow> StoreError + unit" where
  "store_io env operation = (if se_io env operation then Inr () else Inl (SE_Io operation))"

definition canonical_directory :: "StoreEnv \<Rightarrow> StoreDir \<Rightarrow> StoreError + unit" where
  "canonical_directory env d =
     (if \<not> (sd_exists d \<and> sd_is_dir d) then
        Inl (SE_InvalidPath ''store directory does not exist or is not a directory'')
      else store_io env ''canonicalize store directory'')"

fun check_entries :: "StoreEnv \<Rightarrow> StoreDir \<Rightarrow> string list \<Rightarrow> StoreError + unit" where
  "check_entries env d [] = Inr ()"
| "check_entries env d (name # names) =
     rbind (store_io env ''read store directory entry'') (\<lambda>_.
     if name = LOCK_FILE_NAME then
       rbind (store_io env ''inspect store lock file'') (\<lambda>_.
       if \<not> sd_regular d name then Inl (SE_InvalidPath ''store lock path is not a regular file'')
       else check_entries env d names)
     else if name = IDENTITY_FILE_NAME then Inl SE_AlreadyExists
     else Inl SE_NotEmpty)"

definition require_only_lock_file :: "StoreEnv \<Rightarrow> StoreDir \<Rightarrow> StoreError + unit" where
  "require_only_lock_file env d =
     rbind (store_io env ''read store directory'') (\<lambda>_. check_entries env d (se_listing env))"

definition open_lock_file :: "StoreEnv \<Rightarrow> StoreDir \<Rightarrow> (StoreError + unit) \<times> StoreDir" where
  "open_lock_file env d =
     (case store_io env ''inspect store lock file'' of
        Inl e \<Rightarrow> (Inl e, d)
      | Inr _ \<Rightarrow>
          if fs_entry (sd_fs d) LOCK_FILE_NAME \<noteq> None \<and> \<not> sd_regular d LOCK_FILE_NAME
          then (Inl (SE_InvalidPath ''store lock path is not a regular file''), d)
          else case store_io env ''open store lock file'' of
            Inl e \<Rightarrow> (Inl e, d)
          | Inr _ \<Rightarrow>
              if fs_entry (sd_fs d) LOCK_FILE_NAME \<noteq> None then (Inr (), d)
              else (Inr (), d\<lparr>sd_fs := snd (os_create_new LOCK_FILE_NAME (sd_fs d)),
                     sd_regular := (sd_regular d)(LOCK_FILE_NAME := True)\<rparr>))"

definition acquire_lock :: "StoreEnv \<Rightarrow> StoreDir \<Rightarrow> (StoreError + unit) \<times> StoreDir" where
  "acquire_lock env d =
     (case store_io env ''lock store directory'' of
        Inl e \<Rightarrow> (Inl e, d)
      | Inr _ \<Rightarrow> if sd_locked d then (Inl SE_Busy, d) else (Inr (), d\<lparr>sd_locked := True\<rparr>))"

definition generate_incarnation :: "StoreEnv \<Rightarrow> StoreError + StoreIncarnation" where
  "generate_incarnation env =
     (case se_random env of
        None \<Rightarrow> Inl SE_Random
      | Some bs \<Rightarrow> ok_or SE_InvalidRandomIncarnation (store_incarnation_from_bytes bs))"

text \<open>Dropping the last capability closes the lock file, which releases the lock.\<close>

definition store_release :: "StoreDir \<Rightarrow> StoreDir" where
  "store_release d = d\<lparr>sd_locked := False\<rparr>"

definition sync_chain :: "StoreEnv \<Rightarrow> Path \<Rightarrow> StoreError + unit" where
  "sync_chain env directory =
     (if fst (fsync_dir_chain (se_unix env) (se_dirsync env) directory) then Inr ()
      else Inl (SE_Io ''synchronize store directory chain''))"

text \<open>What \<open>create\<close> does while it holds the lock, with every state of the directory on the way.\<close>

definition create_locked ::
  "(bytes \<Rightarrow> u32) \<Rightarrow> StoreEnv \<Rightarrow> Path \<Rightarrow> StoreDir \<Rightarrow> (StoreError + StoreOwnership) \<times> StoreDir list" where
  "create_locked crc env directory d =
     (case rbind (require_only_lock_file env d) (\<lambda>_. generate_incarnation env) of
        Inl e \<Rightarrow> (Inl e, [d])
      | Inr incarnation \<Rightarrow>
          let path = Path (path_absolute directory) (path_components directory @ [IDENTITY_FILE_NAME]);
              (r, _, states) = atomic_write (se_publish env) (se_pid env) path
                (encode_identity crc incarnation) (se_sequence env) (sd_fs d);
              dirs = map (\<lambda>fs. d\<lparr>sd_fs := fs, sd_regular := (sd_regular d)(IDENTITY_FILE_NAME := True)\<rparr>) states
          in case r of
               Inl _ \<Rightarrow> (Inl (SE_Io ''publish store identity''), dirs)
             | Inr _ \<Rightarrow>
                 (rbind (sync_chain env directory) (\<lambda>_.
                    Inr \<lparr>so_incarnation = incarnation, so_claimed = 0\<rparr>), dirs))"

definition store_create ::
  "(bytes \<Rightarrow> u32) \<Rightarrow> StoreEnv \<Rightarrow> Path \<Rightarrow> StoreDir \<Rightarrow> (StoreError + StoreOwnership) \<times> StoreDir" where
  "store_create crc env directory d =
     (case require_supported_platform env of
        Inl e \<Rightarrow> (Inl e, d)
      | Inr _ \<Rightarrow>
     if path_is_empty directory then (Inl (SE_InvalidPath ''store directory is empty''), d)
     else if \<not> sd_exists d \<and> \<not> se_io env ''create store directory''
       then (Inl (SE_Io ''create store directory''), d)
     else let d0 = (if sd_exists d then d else d\<lparr>sd_exists := True, sd_is_dir := True\<rparr>) in
       case canonical_directory env d0 of
         Inl e \<Rightarrow> (Inl e, d0)
       | Inr _ \<Rightarrow>
           case open_lock_file env d0 of
             (Inl e, d1) \<Rightarrow> (Inl e, d1)
           | (Inr _, d1) \<Rightarrow>
               case acquire_lock env d1 of
                 (Inl e, d2) \<Rightarrow> (Inl e, d2)
               | (Inr _, d2) \<Rightarrow>
                   case create_locked crc env directory d2 of
                     (Inl e, dirs) \<Rightarrow> (Inl e, store_release (last dirs))
                   | (Inr ownership, dirs) \<Rightarrow> (Inr ownership, last dirs))"

definition open_locked ::
  "(bytes \<Rightarrow> u32) \<Rightarrow> StoreEnv \<Rightarrow> Path \<Rightarrow> StoreIncarnation option \<Rightarrow> StoreDir \<Rightarrow> StoreError + StoreOwnership" where
  "open_locked crc env directory expected d =
     (case fs_content (sd_fs d) IDENTITY_FILE_NAME of
        None \<Rightarrow> Inl SE_MissingIdentity
      | Some bs \<Rightarrow>
          if \<not> sd_regular d IDENTITY_FILE_NAME then Inl SE_MissingIdentity
          else rbind (store_io env ''read store identity'') (\<lambda>_.
          rbind (decode_identity crc bs IDENTITY_FILE_NAME) (\<lambda>incarnation.
          case opt_filter (\<lambda>e. e \<noteq> incarnation) expected of
            Some e \<Rightarrow> Inl (SE_ForeignIncarnation IDENTITY_FILE_NAME e incarnation)
          | None \<Rightarrow>
              rbind (store_io env ''open store identity'') (\<lambda>_.
              rbind (store_io env ''synchronize store identity'') (\<lambda>_.
              rbind (sync_chain env directory) (\<lambda>_.
              Inr \<lparr>so_incarnation = incarnation, so_claimed = 0\<rparr>))))))"

definition store_open ::
  "(bytes \<Rightarrow> u32) \<Rightarrow> StoreEnv \<Rightarrow> Path \<Rightarrow> StoreIncarnation option \<Rightarrow> StoreDir \<Rightarrow>
     (StoreError + StoreOwnership) \<times> StoreDir" where
  "store_open crc env directory expected d =
     (case rbind (require_supported_platform env) (\<lambda>_. canonical_directory env d) of
        Inl e \<Rightarrow> (Inl e, d)
      | Inr _ \<Rightarrow>
          if fs_entry (sd_fs d) LOCK_FILE_NAME = None \<or> \<not> sd_regular d LOCK_FILE_NAME
          then (Inl SE_MissingLock, d)
          else case open_lock_file env d of
            (Inl e, d1) \<Rightarrow> (Inl e, d1)
          | (Inr _, d1) \<Rightarrow>
              case acquire_lock env d1 of
                (Inl e, d2) \<Rightarrow> (Inl e, d2)
              | (Inr _, d2) \<Rightarrow>
                  case open_locked crc env directory expected d2 of
                    Inl e \<Rightarrow> (Inl e, store_release d2)
                  | Inr ownership \<Rightarrow> (Inr ownership, d2))"

section \<open>The header codec\<close>

definition incarnation_ok :: "StoreIncarnation \<Rightarrow> bool" where
  "incarnation_ok i \<longleftrightarrow> length i = 16 \<and> (\<exists>b \<in> set i. b \<noteq> 0)"

lemma store_incarnation_from_bytes_iff:
  "store_incarnation_from_bytes bs = Some i \<longleftrightarrow> i = bs \<and> (\<exists>b \<in> set bs. b \<noteq> 0)"
proof -
  have "(\<exists>j<length bs. bs ! j \<noteq> 0) \<longleftrightarrow> (\<exists>b \<in> set bs. b \<noteq> 0)" by (metis in_set_conv_nth)
  then show ?thesis by (auto simp: store_incarnation_from_bytes_def store_incarnation_scan_iff)
qed

lemma bound_header_complete:
  assumes "length bs = 32"
  obtains m v f s0 s1 i z c where "bs = m @ [v, f] @ [s0, s1] @ i @ z @ c"
    "length m = 4" "length i = 16" "length z = 4" "length c = 4"
proof -
  have "sum_list [4, 1, 1, 1, 1, 16, 4, 4] \<le> length bs" using assms by simp
  from split_fields [OF this] obtain m vv ff ss0 ss1 i z c rest where
    bs: "bs = m @ vv @ ff @ ss0 @ ss1 @ i @ z @ c @ rest" and
    len: "length m = 4" "length vv = 1" "length ff = 1" "length ss0 = 1" "length ss1 = 1"
      "length i = 16" "length z = 4" "length c = 4"
    by (auto simp: map_eq_Cons_conv)
  then obtain v f s0 s1 where "vv = [v]" "ff = [f]" "ss0 = [s0]" "ss1 = [s1]"
    by (auto simp: length_Suc_conv)
  moreover have "rest = []" using assms bs len by simp
  ultimately show thesis using that [of m v f s0 s1 i z c] bs len by simp
qed

lemma zero_field: "length z = 4 \<Longrightarrow> list_ex (\<lambda>byte. byte \<noteq> 0) z \<longleftrightarrow> z \<noteq> [0, 0, 0, 0 :: u8]"
  by (auto elim!: length_4E)

lemma le_bytes_32: "le_bytes 2 (32 :: u16) = [32, 0]"
  by code_simp

lemma u16_32_iff: "of_le_bytes [a, b] = (32 :: u16) \<longleftrightarrow> a = 32 \<and> b = 0"
proof -
  have "of_le_bytes [a, b] = (32 :: u16) \<longleftrightarrow> le_bytes 2 (of_le_bytes [a, b] :: u16) = le_bytes 2 (32 :: u16)"
    by (metis of_le_bytes_u16)
  also have "\<dots> \<longleftrightarrow> [a, b] = [32, 0]"
    unfolding le_bytes_32 by (subst le_bytes_of_le_bytes_u16) simp_all
  finally show ?thesis by simp
qed

lemma decode_bound_header_fields:
  assumes "length magic = 4" "length m = 4" "length i = 16" "length z = 4" "length c = 4"
  shows "decode_bound_header crc (m @ [v, f] @ [s0, s1] @ i @ z @ c) magic path = Inr inc \<longleftrightarrow>
    m = magic \<and> v = 1 \<and> f = 0 \<and> s0 = 32 \<and> s1 = 0 \<and> z = [0, 0, 0, 0] \<and>
    crc (m @ [v, f] @ [s0, s1] @ i @ z) = of_le_bytes c \<and> inc = i \<and> (\<exists>b \<in> set i. b \<noteq> 0)"
proof -
  let ?bs = "m @ [v, f] @ [s0, s1] @ i @ z @ c"
  have reads: "length ?bs = 32" "take 4 ?bs = m" "?bs ! 4 = v" "?bs ! 5 = f" "?bs ! 6 = s0" "?bs ! 7 = s1"
    "take (28 - 24) (drop 24 ?bs) = z" "take 28 ?bs = m @ [v, f] @ [s0, s1] @ i @ z" "drop 28 ?bs = c"
    "take 16 (drop 8 ?bs) = i"
    using assms by (simp_all add: nth_append)
  show ?thesis
    unfolding decode_bound_header_def Let_def bound_consts reads of_nat_numeral
    by (auto simp: zero_field [OF assms(4)] u16_32_iff store_incarnation_from_bytes_iff simp del: of_le_bytes.simps)
qed

lemma decode_bound_header_exact:
  assumes "length magic = 4"
  shows "decode_bound_header crc bs magic path = Inr inc \<longleftrightarrow>
    encode_bound_header crc magic inc = bs \<and> incarnation_ok inc"
proof (cases "length bs = 32")
  case True
  then obtain m v f s0 s1 i z c where bs: "bs = m @ [v, f] @ [s0, s1] @ i @ z @ c"
    and len: "length m = 4" "length i = 16" "length z = 4" "length c = 4"
    by (rule bound_header_complete)
  obtain z0 z1 z2 z3 where z: "z = [z0, z1, z2, z3]" using len(3) by (rule length_4E)
  have "encode_bound_header crc magic inc = bs \<and> length inc = 16 \<longleftrightarrow> m = magic \<and> v = 1 \<and> f = 0 \<and> s0 = 32 \<and>
      s1 = 0 \<and> z = [0, 0, 0, 0] \<and> crc (m @ [v, f] @ [s0, s1] @ i @ z) = of_le_bytes c \<and> inc = i"
    using len assms
    by (auto simp: encode_bound_header_def Let_def bound_consts le_bytes_32 bs z)
  then show ?thesis
    unfolding bs decode_bound_header_fields [OF assms len] incarnation_ok_def using bs by blast
next
  case False
  then show ?thesis
    using assms
    by (auto simp: decode_bound_header_def encode_bound_header_def Let_def bound_consts incarnation_ok_def)
qed

interpretation identity_codec: byte_codec "\<lambda>i. Inr (encode_identity crc i)"
  "\<lambda>bs. decode_identity crc bs path" incarnation_ok
  by unfold_locales
    (simp add: decode_identity_def encode_identity_def decode_bound_header_exact STORE_IDENTITY_MAGIC_def)

section \<open>Claims\<close>

text \<open>An ownership and the component leases that are alive.\<close>

inductive claims_reachable :: "StoreOwnership \<Rightarrow> StoreComponent list \<Rightarrow> bool" where
  start: "claims_reachable \<lparr>so_incarnation = i, so_claimed = 0\<rparr> []"
| claim: "claims_reachable o1 ls \<Longrightarrow> store_claim c o1 = (Inr l, o2) \<Longrightarrow> claims_reachable o2 (l # ls)"
| drop_lease: "claims_reachable o1 (xs @ c # ys) \<Longrightarrow> claims_reachable (lease_drop c o1) (xs @ ys)"

fun claim_index :: "StoreComponent \<Rightarrow> nat" where
  "claim_index Comp_Wal = 0"
| "claim_index Comp_Undo = 1"
| "claim_index Comp_Pages = 2"

lemma claim_bit_index: "claim_bit c = push_bit (claim_index c) 1"
  by (cases c) simp_all

lemma claim_index_inj [simp]: "claim_index c = claim_index c' \<longleftrightarrow> c = c'"
  by (cases c; cases c') simp_all

lemma claimed_iff: "w AND claim_bit c \<noteq> 0 \<longleftrightarrow> bit w (claim_index c)"
  by (simp add: claim_bit_index bit_iff_and_push_bit_not_eq_0)

lemma claimed_update:
  "bit (w OR claim_bit c) (claim_index c') \<longleftrightarrow> c = c' \<or> bit w (claim_index c')"
  "bit (w AND NOT (claim_bit c)) (claim_index c') \<longleftrightarrow> c \<noteq> c' \<and> bit w (claim_index c')"
proof -
  have "claim_index c' < 8" by (cases c') simp_all
  moreover have "bit (push_bit (claim_index c) 1 :: u8) (claim_index c') \<longleftrightarrow> c = c'"
    by (cases c; cases c') (simp_all add: bit_push_bit_iff bit_1_iff)
  ultimately show "bit (w OR claim_bit c) (claim_index c') \<longleftrightarrow> c = c' \<or> bit w (claim_index c')"
    "bit (w AND NOT (claim_bit c)) (claim_index c') \<longleftrightarrow> c \<noteq> c' \<and> bit w (claim_index c')"
    by (auto simp: claim_bit_index bit_or_iff bit_and_iff bit_not_iff)
qed

lemma store_claim_cases:
  "store_claim c o1 = (if bit (so_claimed o1) (claim_index c) then (Inl (SE_ComponentBusy c), o1)
     else (Inr c, o1\<lparr>so_claimed := so_claimed o1 OR claim_bit c\<rparr>))"
  unfolding store_claim_def Let_def claimed_iff ..

lemma claims_inv:
  assumes "claims_reachable o1 ls"
  shows "distinct ls \<and> (\<forall>c. bit (so_claimed o1) (claim_index c) \<longleftrightarrow> c \<in> set ls)"
  using assms
proof (induction rule: claims_reachable.induct)
  case (claim o1 ls c l o2)
  then have "\<not> bit (so_claimed o1) (claim_index c)" "l = c" "o2 = o1\<lparr>so_claimed := so_claimed o1 OR claim_bit c\<rparr>"
    unfolding store_claim_cases by (auto split: if_splits)
  then show ?case using claim.IH by (simp add: claimed_update) blast
next
  case (drop_lease o1 xs c ys)
  then show ?case by (simp add: lease_drop_def claimed_update) blast
qed simp

text \<open>
  C34.  At most one handle owns each mutable component of a store: however claims and releases
  interleave, no component is leased twice, and a claim is refused exactly when the component is
  leased, without any effect; a successful claim leaves the other components' leases alone.
\<close>
theorem component_claims_exclusive:
  assumes "claims_reachable o1 ls"
  shows "distinct ls \<and>
    store_claim c o1 = (if c \<in> set ls then (Inl (SE_ComponentBusy c), o1)
      else (Inr c, o1\<lparr>so_claimed := so_claimed o1 OR claim_bit c\<rparr>))"
  using claims_inv [OF assms] unfolding store_claim_cases by simp

theorem component_claims_exclusive_witness:
  "fst (store_claim Comp_Undo \<lparr>so_incarnation = [1], so_claimed = 2\<rparr>) = Inl (SE_ComponentBusy Comp_Undo) \<and>
   fst (store_claim Comp_Wal \<lparr>so_incarnation = [1], so_claimed = 2\<rparr>) = Inr Comp_Wal"
proof -
  have "store_claim Comp_Undo \<lparr>so_incarnation = [1], so_claimed = 0\<rparr> =
      (Inr Comp_Undo, \<lparr>so_incarnation = [1], so_claimed = 2\<rparr>)" by code_simp
  from claims_reachable.claim [OF claims_reachable.start this] show ?thesis
    using component_claims_exclusive [of _ "[Comp_Undo]" Comp_Undo]
      component_claims_exclusive [of _ "[Comp_Undo]" Comp_Wal] by simp
qed

section \<open>Creating and opening\<close>

lemma store_names [simp]:
  "LOCK_FILE_NAME \<noteq> IDENTITY_FILE_NAME" "IDENTITY_FILE_NAME \<noteq> LOCK_FILE_NAME"
  by (simp_all add: LOCK_FILE_NAME_def IDENTITY_FILE_NAME_def)

lemma identity_file_name [simp]:
  "path_file_name (Path a (cs @ [IDENTITY_FILE_NAME])) = Some IDENTITY_FILE_NAME"
  by (simp add: path_file_name_def IDENTITY_FILE_NAME_def)

lemma check_entries_identity:
  "IDENTITY_FILE_NAME \<in> set names \<Longrightarrow> \<exists>e. check_entries env d names = Inl e"
proof (induction names)
  case (Cons name names)
  then show ?case by (cases "store_io env ''read store directory entry''"; cases "store_io env ''inspect store lock file''") auto
qed simp

lemma open_lock_file_state:
  assumes "open_lock_file env d = (r, d')" "fs_wf (sd_fs d)"
  shows "fs_wf (sd_fs d')" "name \<noteq> LOCK_FILE_NAME \<Longrightarrow> fs_entry (sd_fs d') name = fs_entry (sd_fs d) name"
    and "name \<noteq> LOCK_FILE_NAME \<Longrightarrow> fs_content (sd_fs d') name = fs_content (sd_fs d) name"
    and "sd_exists d' = sd_exists d \<and> sd_is_dir d' = sd_is_dir d \<and> sd_locked d' = sd_locked d"
    and "r = Inr () \<Longrightarrow> fs_entry (sd_fs d') LOCK_FILE_NAME \<noteq> None \<and> sd_regular d' LOCK_FILE_NAME"
proof -
  let ?fs = "snd (os_create_new LOCK_FILE_NAME (sd_fs d))"
  have new: "fs_wf ?fs" using assms(2) by (auto simp: fs_wf_def os_defs less_SucI)
  have cases: "d' = d \<or> d' = d\<lparr>sd_fs := ?fs, sd_regular := (sd_regular d)(LOCK_FILE_NAME := True)\<rparr>"
    using assms(1) by (auto simp: open_lock_file_def split: sum.splits if_splits)
  then show "fs_wf (sd_fs d')" using assms(2) new by auto
  show entry: "name \<noteq> LOCK_FILE_NAME \<Longrightarrow> fs_entry (sd_fs d') name = fs_entry (sd_fs d) name"
    using cases by (auto simp: os_defs)
  have "fs_entry (sd_fs d) name \<noteq> Some (fs_next (sd_fs d))" by (rule fs_wf_fresh [OF assms(2)])
  then show "name \<noteq> LOCK_FILE_NAME \<Longrightarrow> fs_content (sd_fs d') name = fs_content (sd_fs d) name"
    using cases by (cases "fs_entry (sd_fs d) name") (auto simp: os_defs fs_content_def)
  show "sd_exists d' = sd_exists d \<and> sd_is_dir d' = sd_is_dir d \<and> sd_locked d' = sd_locked d"
    using cases by auto
  show "r = Inr () \<Longrightarrow> fs_entry (sd_fs d') LOCK_FILE_NAME \<noteq> None \<and> sd_regular d' LOCK_FILE_NAME"
    using assms(1) by (auto simp: open_lock_file_def os_defs split: sum.splits if_splits)
qed

lemma acquire_lock_state:
  assumes "acquire_lock env d = (r, d')"
  shows "(r = Inr () \<and> \<not> sd_locked d \<and> d' = d\<lparr>sd_locked := True\<rparr>) \<or> ((\<exists>e. r = Inl e) \<and> d' = d)"
  using assms by (auto simp: acquire_lock_def store_io_def split: if_splits)

text \<open>What a successful \<open>create_locked\<close> published.\<close>

lemma create_locked_ok:
  assumes "create_locked crc env directory d = (Inr own, dirs)" "fs_wf (sd_fs d)"
    and "fs_entry (sd_fs d) LOCK_FILE_NAME \<noteq> None" "sd_regular d LOCK_FILE_NAME"
  shows "dirs \<noteq> []" "so_claimed own = 0" "\<exists>bs. se_random env = Some bs \<and> so_incarnation own = bs \<and> (\<exists>b \<in> set bs. b \<noteq> 0)"
    and "crash_contents (sd_fs (last dirs)) IDENTITY_FILE_NAME = {Some (encode_identity crc (so_incarnation own))}"
    and "fs_content (sd_fs (last dirs)) IDENTITY_FILE_NAME = Some (encode_identity crc (so_incarnation own))"
    and "fs_entry (sd_fs (last dirs)) LOCK_FILE_NAME \<noteq> None"
    and "sd_regular (last dirs) LOCK_FILE_NAME \<and> sd_regular (last dirs) IDENTITY_FILE_NAME"
    and "sd_exists (last dirs) = sd_exists d \<and> sd_is_dir (last dirs) = sd_is_dir d \<and> sd_locked (last dirs) = sd_locked d"
proof -
  obtain inc where inc: "rbind (require_only_lock_file env d) (\<lambda>_. generate_incarnation env) = Inr inc"
    using assms(1) by (auto simp: create_locked_def split: sum.splits)
  let ?path = "Path (path_absolute directory) (path_components directory @ [IDENTITY_FILE_NAME])"
  obtain r sq states where w: "atomic_write (se_publish env) (se_pid env) ?path (encode_identity crc inc)
      (se_sequence env) (sd_fs d) = (r, sq, states)" by (metis prod_cases3)
  have r: "r = Inr ()" and own: "own = \<lparr>so_incarnation = inc, so_claimed = 0\<rparr>"
    and dirs: "dirs = map (\<lambda>fs. d\<lparr>sd_fs := fs, sd_regular := (sd_regular d)(IDENTITY_FILE_NAME := True)\<rparr>) states"
    using assms(1) by (auto simp: create_locked_def inc w Let_def sync_chain_def split: sum.splits if_splits)
  note other = atomic_write_other [OF identity_file_name _ assms(3) w, simplified]
  have states: "states \<noteq> []" by (rule other)
  have last: "last dirs = d\<lparr>sd_fs := last states, sd_regular := (sd_regular d)(IDENTITY_FILE_NAME := True)\<rparr>"
    using states by (simp add: dirs last_map)
  note published = atomic_write_is_atomic_states [OF assms(2) identity_file_name w]
  show "dirs \<noteq> []" using states dirs by simp
  show "so_claimed own = 0" by (simp add: own)
  show "\<exists>bs. se_random env = Some bs \<and> so_incarnation own = bs \<and> (\<exists>b \<in> set bs. b \<noteq> 0)"
    using inc by (auto simp: generate_incarnation_def store_incarnation_from_bytes_iff own split: option.splits)
  show "crash_contents (sd_fs (last dirs)) IDENTITY_FILE_NAME = {Some (encode_identity crc (so_incarnation own))}"
    and "fs_content (sd_fs (last dirs)) IDENTITY_FILE_NAME = Some (encode_identity crc (so_incarnation own))"
    using published r by (simp_all add: last own)
  show "fs_entry (sd_fs (last dirs)) LOCK_FILE_NAME \<noteq> None"
    using other(2) states assms(3) by (simp add: last)
  show "sd_regular (last dirs) LOCK_FILE_NAME \<and> sd_regular (last dirs) IDENTITY_FILE_NAME"
    using assms(4) by (simp add: last)
  show "sd_exists (last dirs) = sd_exists d \<and> sd_is_dir (last dirs) = sd_is_dir d \<and> sd_locked (last dirs) = sd_locked d"
    by (simp add: last)
qed

text \<open>Opening an unlocked, published directory when no call fails.\<close>

definition env_works :: "StoreEnv \<Rightarrow> bool" where
  "env_works env \<longleftrightarrow> se_unix env \<and> (\<forall>operation. se_io env operation) \<and> (\<forall>p. se_dirsync env p)"

lemma sync_chain_works: "env_works env \<Longrightarrow> sync_chain env directory = Inr ()"
proof -
  assume works: "env_works env"
  have "fst (fsync_chain_from (se_unix env) (se_dirsync env) p)" for p
  proof (induction "se_unix env" "se_dirsync env" p rule: fsync_chain_from.induct)
    case (1 p)
    then show ?case
      using works by (subst fsync_chain_from.simps)
        (auto simp: env_works_def fsync_dir_def split: option.splits prod.splits)
  qed
  then show ?thesis by (simp add: sync_chain_def fsync_dir_chain_def)
qed

lemma store_open_published:
  assumes "env_works env" "sd_exists d" "sd_is_dir d" "\<not> sd_locked d"
    and "fs_entry (sd_fs d) LOCK_FILE_NAME \<noteq> None" "sd_regular d LOCK_FILE_NAME"
    and "fs_content (sd_fs d) IDENTITY_FILE_NAME = Some bs" "sd_regular d IDENTITY_FILE_NAME"
    and "decode_identity crc bs IDENTITY_FILE_NAME = Inr inc" "expected \<in> {None, Some inc}"
  shows "store_open crc env directory expected d =
    (Inr \<lparr>so_incarnation = inc, so_claimed = 0\<rparr>, d\<lparr>sd_locked := True\<rparr>)"
  using assms
  by (auto simp: store_open_def env_works_def require_supported_platform_def canonical_directory_def
      store_io_def open_lock_file_def acquire_lock_def open_locked_def sync_chain_works opt_filter_def)

lemma store_create_cases:
  assumes "store_create crc env directory d = (r, d')" "fs_wf (sd_fs d)"
  obtains (early) e where "r = Inl e" "sd_fs d' = sd_fs d"
  | (unlocked) e d0 where "r = Inl e" "sd_fs d0 = sd_fs d" "\<exists>q. open_lock_file env d0 = (q, d')"
  | (locked) d0 d1 dirs where "sd_fs d0 = sd_fs d" "sd_exists d0" "sd_is_dir d0"
      "open_lock_file env d0 = (Inr (), d1)" "\<not> sd_locked d1"
      "create_locked crc env directory (d1\<lparr>sd_locked := True\<rparr>) = (r, dirs)"
      "d' = (if is_ok r then last dirs else store_release (last dirs))"
proof -
  define d0 where "d0 = (if sd_exists d then d else d\<lparr>sd_exists := True, sd_is_dir := True\<rparr>)"
  obtain q d1 where l: "open_lock_file env d0 = (q, d1)" by fastforce
  obtain a d2 where k: "acquire_lock env d1 = (a, d2)" by fastforce
  obtain w dirs where c: "create_locked crc env directory d2 = (w, dirs)" by fastforce
  have fs: "sd_fs d0 = sd_fs d" by (simp add: d0_def)
  show thesis
  proof (cases "se_unix env \<and> \<not> path_is_empty directory \<and> (sd_exists d \<or> se_io env ''create store directory'') \<and>
      canonical_directory env d0 = Inr ()")
    case False
    then have "(\<exists>e. r = Inl e) \<and> sd_fs d' = sd_fs d"
      using assms(1) fs by (auto simp: store_create_def require_supported_platform_def Let_def d0_def [symmetric]
          split: sum.splits if_splits)
    then show thesis using early by blast
  next
    case ok: True
    then have dir: "sd_exists d0 \<and> sd_is_dir d0" by (auto simp: canonical_directory_def split: if_splits)
    have create: "(r, d') = (case q of Inl e \<Rightarrow> (Inl e, d1) | Inr _ \<Rightarrow> (case a of Inl e \<Rightarrow> (Inl e, d2)
        | Inr _ \<Rightarrow> (case w of Inl e \<Rightarrow> (Inl e, store_release (last dirs)) | Inr own \<Rightarrow> (Inr own, last dirs))))"
      using assms(1) ok l k c unfolding store_create_def Let_def d0_def [symmetric]
      by (cases q; cases a; cases w) (auto simp: require_supported_platform_def)
    from acquire_lock_state [OF k] show thesis
    proof (elim disjE conjE exE)
      assume a: "a = Inr ()" "\<not> sd_locked d1" "d2 = d1\<lparr>sd_locked := True\<rparr>"
      show thesis
      proof (cases q)
        case (Inl e)
        then show thesis using create l by (intro unlocked [OF _ fs]) auto
      next
        case (Inr u)
        then have q: "open_lock_file env d0 = (Inr (), d1)" using l by simp
        have "r = w" "d' = (if is_ok r then last dirs else store_release (last dirs))"
          using create a(1) Inr by (cases w; simp)+
        then show thesis using locked [OF fs _ _ q a(2)] c a(3) dir by simp
      qed
    next
      fix e assume "a = Inl e" "d2 = d1"
      then have "\<exists>e. r = Inl e" "d' = d1" using create by (cases q; simp)+
      then show thesis using l unlocked [OF _ fs] by blast
    qed
  qed
qed

text \<open>A concrete environment in which every call succeeds, and a directory without a store.\<close>

definition demo_env :: "string list \<Rightarrow> StoreEnv" where
  "demo_env listing = \<lparr>se_unix = True, se_io = (\<lambda>_. True), se_listing = listing, se_random = Some (replicate 16 1),
     se_pid = 7, se_sequence = 0,
     se_publish = \<lparr>env_open = (\<lambda>_. True), env_write = None, env_flush = True, env_sync = True,
       env_rename = True, env_remove = True, env_dirsync = True\<rparr>,
     se_dirsync = (\<lambda>_. True)\<rparr>"

definition demo_dir :: "string \<Rightarrow> StoreDir" where
  "demo_dir name = \<lparr>sd_exists = True, sd_is_dir = True,
     sd_fs = \<lparr>fs_entry = [name \<mapsto> 0], fs_possible = (\<lambda>n. {[name \<mapsto> 0] n}),
       fs_inode = (\<lambda>_. \<lparr>in_data = [1], in_synced = True\<rparr>), fs_next = 1\<rparr>,
     sd_regular = (\<lambda>_. True), sd_locked = False\<rparr>"

lemma demo_dir_wf: "fs_wf (sd_fs (demo_dir name))"
  by (auto simp: demo_dir_def fs_wf_def split: if_splits)

lemma demo_env_works: "env_works (demo_env listing)"
  by (simp add: env_works_def demo_env_def)

text \<open>
  Creating a store never touches an existing one: when the directory already holds an identity
  file and \<open>read_dir\<close> lists it, \<open>create\<close> fails, whatever else happens, and the identity keeps its content.
\<close>
theorem store_create_keeps_identity:
  assumes "fs_wf (sd_fs d)" "IDENTITY_FILE_NAME \<in> set (se_listing env)"
    and "store_create crc env directory d = (r, d')"
  shows "(\<exists>e. r = Inl e) \<and> fs_content (sd_fs d') IDENTITY_FILE_NAME = fs_content (sd_fs d) IDENTITY_FILE_NAME"
  using assms(3,1)
proof (cases rule: store_create_cases)
  case (early e)
  then show ?thesis by auto
next
  case (unlocked e d0)
  then show ?thesis using open_lock_file_state(3) [of env d0 _ d' IDENTITY_FILE_NAME] assms(1) by auto
next
  case (locked d0 d1 dirs)
  obtain e where "require_only_lock_file env (d1\<lparr>sd_locked := True\<rparr>) = Inl e"
    using check_entries_identity [OF assms(2)]
    by (cases "store_io env ''read store directory''") (fastforce simp: require_only_lock_file_def)+
  then have "r = Inl e" "dirs = [d1\<lparr>sd_locked := True\<rparr>]" using locked by (auto simp: create_locked_def)
  then show ?thesis
    using locked open_lock_file_state(3) [of env d0 _ d1 IDENTITY_FILE_NAME] assms(1)
    by (auto simp: store_release_def)
qed

theorem store_create_keeps_identity_witness:
  "fs_content (sd_fs (snd (store_create (\<lambda>_. 0) (demo_env [IDENTITY_FILE_NAME]) (Path True [''db''])
      (demo_dir IDENTITY_FILE_NAME)))) IDENTITY_FILE_NAME = Some [1]"
proof -
  let ?w = "store_create (\<lambda>_. 0) (demo_env [IDENTITY_FILE_NAME]) (Path True [''db'']) (demo_dir IDENTITY_FILE_NAME)"
  have "IDENTITY_FILE_NAME \<in> set (se_listing (demo_env [IDENTITY_FILE_NAME]))" by (simp add: demo_env_def)
  moreover have "?w = (fst ?w, snd ?w)" by simp
  moreover have "fs_content (sd_fs (demo_dir IDENTITY_FILE_NAME)) IDENTITY_FILE_NAME = Some [1]"
    by (simp add: demo_dir_def fs_content_def)
  ultimately show ?thesis using store_create_keeps_identity [OF demo_dir_wf] by metis
qed

text \<open>
  C33.  A created store can be opened again: after a successful \<open>create\<close> the identity survives any
  crash, a second writer is refused while the first holds the lock, and once it is released opening
  succeeds with the same incarnation.
\<close>
theorem store_create_open_roundtrip:
  assumes "fs_wf (sd_fs d)" "store_create crc env directory d = (Inr own, d')"
    and "length (the (se_random env)) = 16" "env_works env'"
  shows "crash_contents (sd_fs d') IDENTITY_FILE_NAME = {Some (encode_identity crc (so_incarnation own))} \<and>
    fst (store_open crc env' directory None d') = Inl SE_Busy \<and>
    fst (store_open crc env' directory (Some (so_incarnation own)) (store_release d')) = Inr own"
  using assms(2,1)
proof (cases rule: store_create_cases)
  case (locked d0 d1 dirs)
  note lock = open_lock_file_state [OF locked(4)] and ok = create_locked_ok [OF locked(6)]
  have d1: "fs_wf (sd_fs d1)" "fs_entry (sd_fs d1) LOCK_FILE_NAME \<noteq> None" "sd_regular d1 LOCK_FILE_NAME"
    "sd_exists d1" "sd_is_dir d1"
    using lock assms(1) locked(1-3) by auto
  then have created: "crash_contents (sd_fs d') IDENTITY_FILE_NAME = {Some (encode_identity crc (so_incarnation own))}"
    "fs_content (sd_fs d') IDENTITY_FILE_NAME = Some (encode_identity crc (so_incarnation own))"
    "fs_entry (sd_fs d') LOCK_FILE_NAME \<noteq> None" "sd_regular d' LOCK_FILE_NAME" "sd_regular d' IDENTITY_FILE_NAME"
    "sd_exists d'" "sd_is_dir d'" "sd_locked d'" "so_claimed own = 0" "incarnation_ok (so_incarnation own)"
    using ok assms(3) locked(7) by (auto simp: incarnation_ok_def)
  have "decode_identity crc (encode_identity crc (so_incarnation own)) IDENTITY_FILE_NAME = Inr (so_incarnation own)"
    using identity_codec.round_trip [OF created(10) refl] .
  then have "fst (store_open crc env' directory (Some (so_incarnation own)) (store_release d')) = Inr own"
    using store_open_published [OF assms(4), of "store_release d'"] created by (simp add: store_release_def)
  moreover have "fst (store_open crc env' directory None d') = Inl SE_Busy"
    using assms(4) created
    by (auto simp: store_open_def env_works_def require_supported_platform_def canonical_directory_def
      store_io_def open_lock_file_def acquire_lock_def)
  ultimately show ?thesis using created(1) by blast
qed auto

theorem store_create_open_roundtrip_witness:
  "let d' = snd (store_create (\<lambda>_. 0) (demo_env [LOCK_FILE_NAME]) (Path True [''db'']) (demo_dir LOCK_FILE_NAME))
   in fst (store_open (\<lambda>_. 0) (demo_env []) (Path True [''db'']) (Some (replicate 16 1)) (store_release d')) =
      Inr \<lparr>so_incarnation = replicate 16 1, so_claimed = 0\<rparr>"
proof -
  let ?own = "\<lparr>so_incarnation = replicate 16 1, so_claimed = 0\<rparr>"
  let ?w = "store_create (\<lambda>_. 0) (demo_env [LOCK_FILE_NAME]) (Path True [''db'']) (demo_dir LOCK_FILE_NAME)"
  have "fst ?w = Inr ?own" by code_simp
  then have w: "?w = (Inr ?own, snd ?w)" by (metis prod.collapse)
  have "length (the (se_random (demo_env [LOCK_FILE_NAME]))) = 16" by (simp add: demo_env_def)
  from store_create_open_roundtrip [OF demo_dir_wf w this demo_env_works] show ?thesis
    unfolding Let_def by simp
qed

end
