(* ===== verification/Undo_Store.thy ===== *)
theory Undo_Store
  imports Frame_Stream Mvcc Store
begin

text \<open>
  Model of \<open>crates/seerdb/src/vnext/undo_store.rs\<close>: the append-only file of complete before-images,
  with its bound header, checksummed frames, version index, durability frontier and fence, and the
  scan that repairs an incomplete final frame when the store is opened.

  The file is a byte string; file offsets are natural numbers below \<open>2 ^ 64\<close>.  The environment \<open>UndoIo\<close>
  says which file operations fail; a failed append may still have written part of its frame.
\<close>

section \<open>Types\<close>

record UndoFrame =
  uf_offset :: nat
  uf_length :: nat

record UndoStore =
  us_store :: StoreIncarnation
  us_file :: bytes
  us_index :: "UndoFrame list"
  us_end_offset :: nat
  us_durable_version :: u64
  us_fenced :: bool
  us_poisoned :: bool

datatype UndoIoOperation = Undo_Open | Undo_Append | Undo_Read | Undo_Sync | Undo_Repair

datatype UndoStoreError =
    US_Fenced
  | US_ReservedVersion
  | US_MissingVersion VersionId
  | US_InvalidPredecessor VersionId VersionId
  | US_VersionIdExhausted
  | US_FileOffsetExhausted
  | US_RecordTooLarge
  | US_Corruption string
  | US_Store StoreError
  | US_Codec MvccCodecError
  | US_Poisoned
  | US_Io UndoIoOperation

record UndoIo =
  ui_ok :: "UndoIoOperation \<Rightarrow> bool"
  ui_read :: "nat \<Rightarrow> bool"
  ui_written :: nat

definition FRAME_MAGIC :: bytes where "FRAME_MAGIC = [79, 77, 85, 49]"
definition FRAME_VERSION :: u8 where "FRAME_VERSION = 2"
definition UNDO_HEADER_CHECKSUM_OFFSET :: nat where "UNDO_HEADER_CHECKSUM_OFFSET = 20"
definition FRAME_HEADER_SIZE :: nat where "FRAME_HEADER_SIZE = 24"
definition FRAME_CHECKSUM_SIZE :: nat where "FRAME_CHECKSUM_SIZE = 4"
definition MAX_UNDO_RECORD_BYTES :: nat where "MAX_UNDO_RECORD_BYTES = 16 * 1024 * 1024"
definition UNDO_HEADER_MAGIC :: bytes where "UNDO_HEADER_MAGIC = [79, 77, 85, 65]"
definition UNDO_HEADER_BYTES :: nat where "UNDO_HEADER_BYTES = 32"

lemmas undo_consts = FRAME_MAGIC_def FRAME_VERSION_def UNDO_HEADER_CHECKSUM_OFFSET_def FRAME_HEADER_SIZE_def
  FRAME_CHECKSUM_SIZE_def MAX_UNDO_RECORD_BYTES_def UNDO_HEADER_BYTES_def

section \<open>Frames\<close>

definition version_index :: "VersionId \<Rightarrow> UndoStoreError + nat" where
  "version_index v = (if v = 0 then Inl US_ReservedVersion else Inr (unat (v - 1)))"

definition validate_predecessor :: "MvccRecord \<Rightarrow> VersionId \<Rightarrow> UndoStoreError + unit" where
  "validate_predecessor r version =
     (case opt_filter (\<lambda>previous. previous = 0 \<or> previous \<ge> version) (rec_undo_head r) of
        Some previous \<Rightarrow> Inl (US_InvalidPredecessor version previous)
      | None \<Rightarrow> Inr ())"

definition encode_undo_frame :: "(bytes \<Rightarrow> u32) \<Rightarrow> VersionId \<Rightarrow> bytes \<Rightarrow> UndoStoreError + bytes" where
  "encode_undo_frame crc v payload =
     (if length payload > MAX_UNDO_RECORD_BYTES then Inl US_RecordTooLarge
      else rbind (ok_or US_RecordTooLarge (u32_try_from (length payload))) (\<lambda>payload_len.
      rbind (ok_or US_RecordTooLarge
        (Option.bind (checked_add_usize FRAME_HEADER_SIZE (length payload)) (\<lambda>n.
          checked_add_usize n FRAME_CHECKSUM_SIZE))) (\<lambda>_.
      let prefix = FRAME_MAGIC @ [FRAME_VERSION, 0] @ le_bytes 2 (0 :: u16) @ le_bytes 8 v @ le_bytes 4 payload_len;
          body = prefix @ le_bytes 4 (crc prefix) @ payload
      in Inr (body @ le_bytes 4 (crc body)))))"

definition validate_header :: "(bytes \<Rightarrow> u32) \<Rightarrow> bytes \<Rightarrow> UndoStoreError + unit" where
  "validate_header crc header =
     (if length header \<noteq> FRAME_HEADER_SIZE \<or> take 4 header \<noteq> FRAME_MAGIC
        then Inl (US_Corruption ''invalid undo frame magic'')
      else if header ! 4 \<noteq> FRAME_VERSION \<or> header ! 5 \<noteq> 0 \<or> take 2 (drop 6 header) \<noteq> [0, 0]
        then Inl (US_Corruption ''unsupported undo frame version or flags'')
      else if read_u32 header UNDO_HEADER_CHECKSUM_OFFSET \<noteq> Some (crc (take UNDO_HEADER_CHECKSUM_OFFSET header))
        then Inl (US_Corruption ''undo header checksum mismatch'')
      else Inr ())"

definition validate_complete_frame :: "(bytes \<Rightarrow> u32) \<Rightarrow> bytes \<Rightarrow> VersionId \<Rightarrow> UndoStoreError + MvccRecord" where
  "validate_complete_frame crc frame expected_id =
     (if length frame < FRAME_HEADER_SIZE + FRAME_CHECKSUM_SIZE
        then Inl (US_Corruption ''truncated complete undo frame'')
      else let header = take FRAME_HEADER_SIZE frame in
      rbind (validate_header crc header) (\<lambda>_.
      rbind (ok_or (US_Corruption ''missing version ID'') (read_u64 header 8)) (\<lambda>raw_id.
      if raw_id \<noteq> expected_id then Inl (US_Corruption ''undo frame ID disagrees with index'')
      else rbind (ok_or (US_Corruption ''missing payload length'') (read_u32 header 16)) (\<lambda>payload_len.
      rbind (ok_or (US_Corruption ''undo frame length overflows'')
        (Option.bind (checked_add_usize FRAME_HEADER_SIZE (unat payload_len)) (\<lambda>n.
          checked_add_usize n FRAME_CHECKSUM_SIZE))) (\<lambda>expected_len.
      if length frame \<noteq> expected_len then Inl (US_Corruption ''undo frame length disagrees with header'')
      else let checksum_offset = expected_len - FRAME_CHECKSUM_SIZE in
        if crc (take checksum_offset frame) \<noteq> of_le_bytes (drop checksum_offset frame)
          then Inl (US_Corruption ''undo frame checksum mismatch'')
        else rbind (map_err US_Codec (mvcc_from_bytes
               (take (checksum_offset - FRAME_HEADER_SIZE) (drop FRAME_HEADER_SIZE frame)))) (\<lambda>r.
        rbind (validate_predecessor r expected_id) (\<lambda>_. Inr r)))))))"

section \<open>Opening\<close>

datatype ScanStatus = Scan_Complete | Scan_Torn | Scan_Error UndoStoreError

text \<open>
  The scanning loop from an offset, with the number of frames already indexed: the frames that the
  remaining iterations push and how the loop ends.
\<close>

function scan_frames ::
  "(bytes \<Rightarrow> u32) \<Rightarrow> (nat \<Rightarrow> bool) \<Rightarrow> nat \<Rightarrow> bytes \<Rightarrow> nat \<Rightarrow> UndoFrame list \<times> ScanStatus" where
  "scan_frames crc rd count bs offset =
     (if offset < length bs then
        let remaining = length bs - offset in
        if remaining < FRAME_HEADER_SIZE then ([], Scan_Torn)
        else if \<not> rd offset then ([], Scan_Error (US_Io Undo_Open))
        else let header = take FRAME_HEADER_SIZE (drop offset bs) in
        case rbind (validate_header crc header) (\<lambda>_.
             rbind (ok_or (US_Corruption ''missing version ID'') (read_u64 header 8)) (\<lambda>raw_id.
             rbind (ok_or US_VersionIdExhausted (u64_try_from count)) (\<lambda>n.
             rbind (ok_or US_VersionIdExhausted (checked_add_u64 n 1)) (\<lambda>expected_id.
             if raw_id \<noteq> expected_id then Inl (US_Corruption ''retained undo version IDs are not contiguous'')
             else rbind (ok_or (US_Corruption ''missing payload length'') (read_u32 header 16)) (\<lambda>payload_len.
             if unat payload_len > MAX_UNDO_RECORD_BYTES
               then Inl (US_Corruption ''retained undo payload exceeds the size bound'')
             else rbind (ok_or (US_Corruption ''undo frame length overflows'')
               (Option.bind (checked_add_usize FRAME_HEADER_SIZE (unat payload_len)) (\<lambda>n.
                 checked_add_usize n FRAME_CHECKSUM_SIZE))) (\<lambda>frame_len. Inr (raw_id, frame_len))))))) of
          Inl e \<Rightarrow> ([], Scan_Error e)
        | Inr (raw_id, frame_len) \<Rightarrow>
            if remaining < frame_len then ([], Scan_Torn)
            else if \<not> rd (offset + FRAME_HEADER_SIZE) then ([], Scan_Error (US_Io Undo_Open))
            else case validate_complete_frame crc (take frame_len (drop offset bs)) raw_id of
              Inl e \<Rightarrow> ([], Scan_Error e)
            | Inr _ \<Rightarrow>
                let (frames, status) = scan_frames crc rd (count + 1) bs (offset + frame_len)
                  in (\<lparr>uf_offset = offset, uf_length = frame_len\<rparr> # frames, status)
      else ([], Scan_Complete))"
  by pat_completeness auto
termination
  by (relation "measure (\<lambda>(crc, rd, count, bs, offset). length bs - offset)")
    (auto simp: checked_add_usize_eq_Some bind_eq_Some_conv undo_consts split: if_splits)

declare scan_frames.simps [simp del]

definition frames_end :: "UndoFrame list \<Rightarrow> nat" where
  "frames_end frames =
     (if frames = [] then UNDO_HEADER_BYTES else uf_offset (last frames) + uf_length (last frames))"

text \<open>Truncating an incomplete tail: the index, the end offset and the file.\<close>

definition repair_tail :: "UndoIo \<Rightarrow> bytes \<Rightarrow> UndoFrame list \<Rightarrow> nat \<Rightarrow>
    UndoStoreError + UndoFrame list \<times> nat \<times> bytes" where
  "repair_tail io file index valid_len =
     (if ui_ok io Undo_Repair then Inr (index, valid_len, take valid_len file) else Inl (US_Io Undo_Repair))"

definition scan_and_repair :: "(bytes \<Rightarrow> u32) \<Rightarrow> UndoIo \<Rightarrow> bytes \<Rightarrow>
    UndoStoreError + UndoFrame list \<times> nat \<times> bytes" where
  "scan_and_repair crc io file =
     (case scan_frames crc (ui_read io) 0 file UNDO_HEADER_BYTES of
        (index, Scan_Complete) \<Rightarrow> Inr (index, frames_end index, file)
      | (index, Scan_Torn) \<Rightarrow> repair_tail io file index (frames_end index)
      | (index, Scan_Error e) \<Rightarrow> Inl e)"

text \<open>
  Opening: the result, the ownership (whose claim is released on failure) and the file.
\<close>

definition undo_open_claimed :: "(bytes \<Rightarrow> u32) \<Rightarrow> UndoIo \<Rightarrow> StoreIncarnation \<Rightarrow> bytes option \<Rightarrow>
    UndoStoreError + UndoStore" where
  "undo_open_claimed crc io incarnation existing =
     (case existing of
        None \<Rightarrow> Inl (US_Io Undo_Open)
      | Some file \<Rightarrow>
          if \<not> ui_ok io Undo_Open \<or> \<not> ui_read io 0 then Inl (US_Io Undo_Open)
          else rbind (map_err US_Store
            (decode_bound_header crc (take UNDO_HEADER_BYTES file) UNDO_HEADER_MAGIC UNDO_FILE_NAME)) (\<lambda>decoded.
          if decoded \<noteq> incarnation
            then Inl (US_Store (SE_ForeignIncarnation UNDO_FILE_NAME incarnation decoded))
          else rbind (scan_and_repair crc io file) (\<lambda>(index, end_offset, file').
          if \<not> ui_ok io Undo_Sync then Inl (US_Io Undo_Open)
          else rbind (ok_or US_VersionIdExhausted (u64_try_from (length index))) (\<lambda>durable.
          Inr \<lparr>us_store = incarnation, us_file = file', us_index = index, us_end_offset = end_offset,
               us_durable_version = durable, us_fenced = False, us_poisoned = False\<rparr>))))"

definition undo_open :: "(bytes \<Rightarrow> u32) \<Rightarrow> UndoIo \<Rightarrow> StoreOwnership \<Rightarrow> bytes option \<Rightarrow>
    (UndoStoreError + UndoStore) \<times> StoreOwnership" where
  "undo_open crc io own existing =
     (case store_claim Comp_Undo own of
        (Inl e, own') \<Rightarrow> (Inl (US_Store e), own')
      | (Inr component, own') \<Rightarrow>
          (case undo_open_claimed crc io (so_incarnation own) existing of
             Inl e \<Rightarrow> (Inl e, lease_drop component own')
           | Inr us \<Rightarrow> (Inr us, own')))"

definition undo_create :: "(bytes \<Rightarrow> u32) \<Rightarrow> UndoIo \<Rightarrow> StoreOwnership \<Rightarrow> bytes option \<Rightarrow>
    (UndoStoreError + UndoStore) \<times> StoreOwnership \<times> bytes option" where
  "undo_create crc io own existing =
     (case store_claim Comp_Undo own of
        (Inl e, own') \<Rightarrow> (Inl (US_Store e), own', existing)
      | (Inr component, own') \<Rightarrow>
          let header = encode_bound_header crc UNDO_HEADER_MAGIC (so_incarnation own) in
          if existing \<noteq> None then (Inl (US_Io Undo_Open), lease_drop component own', existing)
          else if \<not> ui_ok io Undo_Open
            then (Inl (US_Io Undo_Open), lease_drop component own', Some (take (ui_written io) header))
          else (Inr \<lparr>us_store = so_incarnation own, us_file = header, us_index = [],
                  us_end_offset = UNDO_HEADER_BYTES, us_durable_version = 0, us_fenced = False,
                  us_poisoned = False\<rparr>, own', Some header))"

section \<open>Operations\<close>

definition ensure_open :: "UndoStore \<Rightarrow> UndoStoreError + unit" where
  "ensure_open us = (if us_fenced us then Inl US_Fenced else Inr ())"

text \<open>Writing bytes at an offset of the file.\<close>

definition write_at :: "nat \<Rightarrow> bytes \<Rightarrow> bytes \<Rightarrow> bytes" where
  "write_at offset bs file = take offset file @ bs @ drop (offset + length bs) file"

definition undo_append :: "(bytes \<Rightarrow> u32) \<Rightarrow> UndoIo \<Rightarrow> MvccRecord \<Rightarrow> UndoStore \<Rightarrow>
    (UndoStoreError + VersionId) \<times> UndoStore" where
  "undo_append crc io r us =
     (case rbind (map_err US_Codec (mvcc_to_bytes r)) (\<lambda>payload.
        if length payload > MAX_UNDO_RECORD_BYTES then Inl US_RecordTooLarge
        else if us_poisoned us then Inl US_Poisoned
        else rbind (ensure_open us) (\<lambda>_.
        rbind (ok_or US_VersionIdExhausted (checked_add_usize (length (us_index us)) 1)) (\<lambda>n.
        rbind (ok_or US_VersionIdExhausted (u64_try_from n)) (\<lambda>raw_id.
        if raw_id = 0 then Inl US_VersionIdExhausted
        else rbind (validate_predecessor r raw_id) (\<lambda>_.
        rbind (encode_undo_frame crc raw_id payload) (\<lambda>frame.
        rbind (ok_or US_FileOffsetExhausted (checked_add_usize (us_end_offset us) (length frame))) (\<lambda>end_offset.
        Inr (raw_id, frame, end_offset)))))))) of
        Inl e \<Rightarrow> (Inl e, us)
      | Inr (raw_id, frame, end_offset) \<Rightarrow>
          if \<not> ui_ok io Undo_Append
          then (Inl (US_Io Undo_Append),
                us\<lparr>us_file := write_at (us_end_offset us) (take (ui_written io) frame) (us_file us),
                   us_fenced := True\<rparr>)
          else (Inr raw_id,
                us\<lparr>us_file := write_at (us_end_offset us) frame (us_file us),
                   us_index := us_index us @ [\<lparr>uf_offset = us_end_offset us, uf_length = length frame\<rparr>],
                   us_end_offset := end_offset\<rparr>))"

definition read_undo_frame :: "(bytes \<Rightarrow> u32) \<Rightarrow> UndoIo \<Rightarrow> bytes \<Rightarrow> UndoFrame \<Rightarrow> VersionId \<Rightarrow> UndoStoreError + MvccRecord" where
  "read_undo_frame crc io file frame expected_id =
     (if \<not> ui_read io (uf_offset frame) then Inl (US_Io Undo_Read)
      else case get_range file (uf_offset frame) (uf_offset frame + uf_length frame) of
        None \<Rightarrow> Inl (US_Io Undo_Read)
      | Some bs \<Rightarrow> validate_complete_frame crc bs expected_id)"

definition undo_get :: "(bytes \<Rightarrow> u32) \<Rightarrow> UndoIo \<Rightarrow> UndoStore \<Rightarrow> VersionId \<Rightarrow> UndoStoreError + MvccRecord" where
  "undo_get crc io us v =
     rbind (version_index v) (\<lambda>index.
     if us_poisoned us then Inl US_Poisoned
     else rbind (ok_or (US_MissingVersion v) (get_at (us_index us) index)) (\<lambda>frame.
     read_undo_frame crc io (us_file us) frame v))"

definition undo_sync_through :: "UndoIo \<Rightarrow> VersionId \<Rightarrow> UndoStore \<Rightarrow> (UndoStoreError + VersionId) \<times> UndoStore" where
  "undo_sync_through io v us =
     (case version_index v of
        Inl e \<Rightarrow> (Inl e, us)
      | Inr requested \<Rightarrow>
          if us_poisoned us then (Inl US_Poisoned, us)
          else if us_fenced us then (Inl US_Fenced, us)
          else if requested \<ge> length (us_index us) then (Inl (US_MissingVersion v), us)
          else if v \<le> us_durable_version us then (Inr (us_durable_version us), us)
          else if \<not> ui_ok io Undo_Sync then (Inl (US_Io Undo_Sync), us\<lparr>us_fenced := True\<rparr>)
          else case u64_try_from (length (us_index us)) of
            None \<Rightarrow> (Inl US_VersionIdExhausted, us)
          | Some latest \<Rightarrow> (Inr latest, us\<lparr>us_durable_version := latest\<rparr>))"

definition undo_durable_version :: "UndoStore \<Rightarrow> VersionId option" where
  "undo_durable_version us = (if us_durable_version us \<noteq> 0 then Some (us_durable_version us) else None)"

definition undo_is_fenced :: "UndoStore \<Rightarrow> bool" where
  "undo_is_fenced us = us_fenced us"

section \<open>The frame codec\<close>

definition undo_header :: "(bytes \<Rightarrow> u32) \<Rightarrow> u64 \<Rightarrow> u32 \<Rightarrow> bytes" where
  "undo_header crc v n =
     (let prefix = FRAME_MAGIC @ [FRAME_VERSION, 0] @ le_bytes 2 (0 :: u16) @ le_bytes 8 v @ le_bytes 4 n
      in prefix @ le_bytes 4 (crc prefix))"

definition undo_frame_bytes :: "(bytes \<Rightarrow> u32) \<Rightarrow> u64 \<Rightarrow> bytes \<Rightarrow> bytes" where
  "undo_frame_bytes crc v payload =
     (let body = undo_header crc v (of_nat (length payload)) @ payload in body @ le_bytes 4 (crc body))"

lemma le_bytes_zero_u16: "le_bytes 2 (0 :: u16) = [0, 0]"
  by code_simp

lemma undo_header_fields:
  "length (undo_header crc v n) = 24"
  "read_u64 (undo_header crc v n) 8 = Some v"
  "read_u32 (undo_header crc v n) 16 = Some n"
  "validate_header crc (undo_header crc v n) = Inr ()"
  by (simp_all add: undo_header_def Let_def validate_header_def undo_consts le_bytes_zero_u16 codec_simps)

lemma undo_frame_bytes_length [simp]: "length (undo_frame_bytes crc v payload) = 28 + length payload"
  by (simp add: undo_frame_bytes_def Let_def undo_header_fields)

lemma encode_undo_frame_iff:
  "encode_undo_frame crc v payload = Inr f \<longleftrightarrow>
     length payload \<le> MAX_UNDO_RECORD_BYTES \<and> f = undo_frame_bytes crc v payload"
  by (auto simp: encode_undo_frame_def undo_frame_bytes_def undo_header_def undo_consts Let_def
      u32_try_from_eq_Some bind_eq_Some_conv checked_add_usize_eq_Some)

lemma validate_complete_frame_bytes:
  assumes "length payload \<le> MAX_UNDO_RECORD_BYTES"
  shows "validate_complete_frame crc (undo_frame_bytes crc v payload) v =
    rbind (map_err US_Codec (mvcc_from_bytes payload)) (\<lambda>r. rbind (validate_predecessor r v) (\<lambda>_. Inr r))"
proof -
  let ?n = "of_nat (length payload) :: u32" and ?f = "undo_frame_bytes crc v payload"
  have small: "length payload < 2 ^ 32" using assms by (simp add: undo_consts)
  have n: "unat ?n = length payload"
    using small by (simp add: unat_of_nat take_bit_eq_mod)
  have take_header: "take 24 ?f = undo_header crc v ?n"
    by (simp add: undo_frame_bytes_def Let_def undo_header_fields)
  have body: "take (24 + length payload) ?f = undo_header crc v ?n @ payload"
    "drop (24 + length payload) ?f = le_bytes 4 (crc (undo_header crc v ?n @ payload))"
    by (simp_all add: undo_frame_bytes_def Let_def undo_header_fields)
  have payload: "take (length payload) (drop 24 ?f) = payload"
    by (simp add: undo_frame_bytes_def Let_def undo_header_fields)
  have len: "checked_add_usize 24 (length payload) = Some (24 + length payload)"
    "checked_add_usize (24 + length payload) 4 = Some (28 + length payload)"
    using small by (simp_all add: checked_add_usize_def)
  show ?thesis
    unfolding validate_complete_frame_def Let_def FRAME_HEADER_SIZE_def FRAME_CHECKSUM_SIZE_def take_header
    by (simp add: undo_header_fields n len body payload)
qed

text \<open>The frame of one record at a place of the file.\<close>

definition undo_record_frame :: "(bytes \<Rightarrow> u32) \<Rightarrow> nat \<Rightarrow> MvccRecord \<Rightarrow> bytes option" where
  "undo_record_frame crc count r =
     (case mvcc_to_bytes r of
        Inl _ \<Rightarrow> None
      | Inr payload \<Rightarrow>
          if count + 1 < 2 ^ 64 \<and> length payload \<le> MAX_UNDO_RECORD_BYTES \<and>
             validate_predecessor r (of_nat (count + 1)) = Inr ()
          then Some (undo_frame_bytes crc (of_nat (count + 1)) payload) else None)"

lemma validate_predecessor_iff:
  "validate_predecessor r v = Inr () \<longleftrightarrow> (\<forall>p. rec_undo_head r = Some p \<longrightarrow> p \<noteq> 0 \<and> p < v)"
  by (cases "rec_undo_head r") (auto simp: validate_predecessor_def opt_filter_def)

lemma undo_record_frame_decodes:
  assumes "undo_record_frame crc count r = Some f"
  shows "validate_complete_frame crc f (of_nat (count + 1)) = Inr r"
proof -
  obtain payload where p: "mvcc_to_bytes r = Inr payload" "length payload \<le> MAX_UNDO_RECORD_BYTES"
    "validate_predecessor r (of_nat (count + 1)) = Inr ()" "f = undo_frame_bytes crc (of_nat (count + 1)) payload"
    using assms by (auto simp: undo_record_frame_def split: sum.splits if_splits)
  then have "rec_undo_head r \<noteq> Some 0" by (auto simp: validate_predecessor_iff)
  then have "mvcc_from_bytes payload = Inr r" using p(1) mvcc_codec.round_trip by blast
  then show ?thesis using validate_complete_frame_bytes [OF p(2), of crc "of_nat (count + 1)"] p by simp
qed

section \<open>Scanning\<close>

definition undo_record_length :: "MvccRecord \<Rightarrow> nat" where
  "undo_record_length r = (case mvcc_to_bytes r of Inl _ \<Rightarrow> 0 | Inr payload \<Rightarrow> 28 + length payload)"

definition undo_placed :: "MvccRecord \<Rightarrow> nat \<Rightarrow> UndoFrame" where
  "undo_placed r e = \<lparr>uf_offset = e - undo_record_length r, uf_length = undo_record_length r\<rparr>"

lemma undo_record_frame_length:
  "undo_record_frame crc count r = Some f \<Longrightarrow> length f = undo_record_length r \<and> 28 \<le> length f"
  by (auto simp: undo_record_frame_def undo_record_length_def split: sum.splits if_splits)

text \<open>The checks of one iteration, on the header of a record's frame.\<close>

lemma scan_header:
  assumes "undo_record_frame crc count r = Some f"
  shows "rbind (validate_header crc (take 24 f)) (\<lambda>_.
     rbind (ok_or (US_Corruption ''missing version ID'') (read_u64 (take 24 f) 8)) (\<lambda>raw_id.
     rbind (ok_or US_VersionIdExhausted (u64_try_from count)) (\<lambda>n.
     rbind (ok_or US_VersionIdExhausted (checked_add_u64 n 1)) (\<lambda>expected_id.
     if raw_id \<noteq> expected_id then Inl (US_Corruption ''retained undo version IDs are not contiguous'')
     else rbind (ok_or (US_Corruption ''missing payload length'') (read_u32 (take 24 f) 16)) (\<lambda>payload_len.
     if unat payload_len > MAX_UNDO_RECORD_BYTES
       then Inl (US_Corruption ''retained undo payload exceeds the size bound'')
     else rbind (ok_or (US_Corruption ''undo frame length overflows'')
       (Option.bind (checked_add_usize FRAME_HEADER_SIZE (unat payload_len)) (\<lambda>n.
         checked_add_usize n FRAME_CHECKSUM_SIZE))) (\<lambda>frame_len. Inr (raw_id, frame_len))))))) =
    Inr (of_nat (count + 1), length f)"
proof -
  obtain payload where count: "count + 1 < 2 ^ 64" and p: "length payload \<le> MAX_UNDO_RECORD_BYTES"
    and f: "f = undo_frame_bytes crc (of_nat (count + 1)) payload"
    using assms by (auto simp: undo_record_frame_def split: sum.splits if_splits)
  have n: "unat (of_nat (length payload) :: u32) = length payload"
    using p by (simp add: unat_of_nat take_bit_eq_mod undo_consts)
  have "unat (of_nat count :: u64) = count" using count by (simp add: unat_of_nat take_bit_eq_mod)
  then have next_id: "u64_try_from count = Some (of_nat count)"
    "checked_add_u64 (of_nat count) 1 = Some (of_nat (count + 1))"
    using count by (simp_all add: u64_try_from_def checked_add_u64_def add.commute)
  have header: "take 24 f = undo_header crc (of_nat (count + 1)) (of_nat (length payload))"
    by (simp add: f undo_frame_bytes_def Let_def undo_header_fields)
  have len: "checked_add_usize 24 (length payload) = Some (24 + length payload)"
    "checked_add_usize (24 + length payload) 4 = Some (28 + length payload)"
    using p by (simp_all add: checked_add_usize_def undo_consts)
  have "length f = 28 + length payload" by (simp add: f)
  then show ?thesis
    unfolding header undo_header_fields FRAME_HEADER_SIZE_def FRAME_CHECKSUM_SIZE_def
    using p by (simp add: next_id n len del: of_nat_Suc of_nat_add)
qed

lemma scan_frame_step:
  assumes "undo_record_frame crc count r = Some f"
  shows "scan_frames crc (\<lambda>_. True) count (xs @ f @ ys) (length xs) =
    (let (frames, status) = scan_frames crc (\<lambda>_. True) (count + 1) (xs @ f @ ys) (length xs + length f)
     in (undo_placed r (length xs + length f) # frames, status))"
proof -
  have len: "length f = undo_record_length r" "28 \<le> length f" using undo_record_frame_length [OF assms] by auto
  then have head: "take 24 (drop (length xs) (xs @ f @ ys)) = take 24 f" by simp
  have whole: "take (length f) (drop (length xs) (xs @ f @ ys)) = f" by simp
  have decodes: "validate_complete_frame crc f (of_nat (Suc count)) = Inr r"
    using undo_record_frame_decodes [OF assms] by (simp only: Suc_eq_plus1)
  show ?thesis
    apply (subst scan_frames.simps)
    unfolding Let_def FRAME_HEADER_SIZE_def
    unfolding head scan_header [OF assms, unfolded FRAME_HEADER_SIZE_def]
    using len by (simp add: decodes undo_placed_def whole
        del: of_nat_Suc of_nat_add)
qed

lemma scan_frame_torn:
  assumes "undo_record_frame crc count r = Some f" "0 < n" "n < length f"
  shows "scan_frames crc (\<lambda>_. True) count (xs @ take n f) (length xs) = ([], Scan_Torn)"
proof (cases "n < 24")
  case True
  then show ?thesis using assms(2,3) by (subst scan_frames.simps) (simp add: undo_consts)
next
  case False
  then have head: "take 24 (drop (length xs) (xs @ take n f)) = take 24 f" using assms(3) by (simp add: min_def)
  show ?thesis
    apply (subst scan_frames.simps)
    unfolding Let_def FRAME_HEADER_SIZE_def
    unfolding head scan_header [OF assms(1), unfolded FRAME_HEADER_SIZE_def]
    using assms(2,3) False by simp
qed

interpretation undo_frames: frame_stream "undo_record_frame crc" "\<lambda>count r. Suc count" undo_placed
  "scan_frames crc (\<lambda>_. True)" Scan_Complete Scan_Torn "2 ^ 64"
proof unfold_locales
  show "scan_frames crc (\<lambda>_. True) s bs (length bs) = ([], Scan_Complete)" for s bs
    by (subst scan_frames.simps) simp
qed (simp_all add: scan_frame_step scan_frame_torn)

section \<open>The store as a list of records\<close>

text \<open>The state that \<open>create\<close> returns, and the stores that appends and syncs reach, with the records appended.\<close>

definition undo_fresh :: "(bytes \<Rightarrow> u32) \<Rightarrow> StoreIncarnation \<Rightarrow> UndoStore" where
  "undo_fresh crc inc = \<lparr>us_store = inc, us_file = encode_bound_header crc UNDO_HEADER_MAGIC inc, us_index = [],
     us_end_offset = UNDO_HEADER_BYTES, us_durable_version = 0, us_fenced = False, us_poisoned = False\<rparr>"

inductive undo_reachable :: "(bytes \<Rightarrow> u32) \<Rightarrow> StoreIncarnation \<Rightarrow> UndoStore \<Rightarrow> MvccRecord list \<Rightarrow> bool"
  for crc :: "bytes \<Rightarrow> u32" and inc :: StoreIncarnation where
  start: "incarnation_ok inc \<Longrightarrow> undo_reachable crc inc (undo_fresh crc inc) []"
| append: "undo_reachable crc inc us rs \<Longrightarrow> undo_append crc io r us = (Inr v, us') \<Longrightarrow>
    undo_reachable crc inc us' (rs @ [r])"
| append_failed: "undo_reachable crc inc us rs \<Longrightarrow> undo_append crc io r us = (Inl e, us') \<Longrightarrow>
    undo_reachable crc inc us' rs"
| sync: "undo_reachable crc inc us rs \<Longrightarrow> undo_sync_through io v us = (q, us') \<Longrightarrow> undo_reachable crc inc us' rs"

abbreviation undo_encode :: "(bytes \<Rightarrow> u32) \<Rightarrow> MvccRecord list \<Rightarrow> bytes option" where
  "undo_encode crc \<equiv> encode_all (undo_record_frame crc) (\<lambda>count r. Suc count) 0"

abbreviation undo_places :: "(bytes \<Rightarrow> u32) \<Rightarrow> MvccRecord list \<Rightarrow> UndoFrame list" where
  "undo_places crc \<equiv> placed (undo_record_frame crc) (\<lambda>count r. Suc count) undo_placed 0 UNDO_HEADER_BYTES"

definition undo_tail :: "(bytes \<Rightarrow> u32) \<Rightarrow> nat \<Rightarrow> bytes \<Rightarrow> bool" where
  "undo_tail crc count junk \<longleftrightarrow>
     junk = [] \<or> (\<exists>r f k. undo_record_frame crc count r = Some f \<and> junk = take k f)"

definition undo_inv :: "(bytes \<Rightarrow> u32) \<Rightarrow> StoreIncarnation \<Rightarrow> UndoStore \<Rightarrow> MvccRecord list \<Rightarrow> bool" where
  "undo_inv crc inc us rs \<longleftrightarrow> incarnation_ok inc \<and> us_store us = inc \<and> \<not> us_poisoned us \<and>
     length rs < 2 ^ 64 \<and> unat (us_durable_version us) \<le> length rs \<and>
     (\<exists>fs junk. undo_encode crc rs = Some fs \<and>
        us_file us = encode_bound_header crc UNDO_HEADER_MAGIC inc @ fs @ junk \<and>
        us_index us = undo_places crc rs \<and> us_end_offset us = UNDO_HEADER_BYTES + length fs \<and>
        us_end_offset us < 2 ^ 64 \<and> undo_tail crc (length rs) junk \<and> (\<not> us_fenced us \<longrightarrow> junk = []))"

lemma undo_invI:
  assumes "undo_encode crc rs = Some fs" "us_index us = undo_places crc rs"
    and "us_file us = encode_bound_header crc UNDO_HEADER_MAGIC inc @ fs @ junk"
    and "us_end_offset us = UNDO_HEADER_BYTES + length fs" "us_end_offset us < 2 ^ 64"
    and "undo_tail crc (length rs) junk" "us_fenced us \<or> junk = []"
    and "incarnation_ok inc" "us_store us = inc" "\<not> us_poisoned us" "length rs < 2 ^ 64"
    and "unat (us_durable_version us) \<le> length rs"
  shows "undo_inv crc inc us rs"
  using assms unfolding undo_inv_def by blast

lemma fold_count [simp]: "fold (\<lambda>r (count :: nat). count + 1) rs n = n + length rs"
  "fold (\<lambda>r. Suc) rs n = n + length rs"
  by (induction rs arbitrary: n) auto

lemma undo_bound_header_length [simp]:
  "incarnation_ok inc \<Longrightarrow> length (encode_bound_header crc UNDO_HEADER_MAGIC inc) = UNDO_HEADER_BYTES"
  by (simp add: encode_bound_header_def Let_def UNDO_HEADER_MAGIC_def UNDO_HEADER_BYTES_def incarnation_ok_def)

lemma undo_append_cases:
  assumes "undo_append crc io r us = (q, us')" "length (us_index us) = length rs" "length rs < 2 ^ 64"
  shows "(us' = us \<and> (\<exists>e. q = Inl e)) \<or>
    (\<not> us_fenced us \<and> \<not> us_poisoned us \<and> (\<exists>f. undo_record_frame crc (length rs) r = Some f \<and>
      us_end_offset us + length f < 2 ^ 64 \<and>
      ((q = Inl (US_Io Undo_Append) \<and> us' = us\<lparr>us_file := write_at (us_end_offset us) (take (ui_written io) f) (us_file us),
          us_fenced := True\<rparr>) \<or>
       (q = Inr (of_nat (length rs + 1)) \<and> length rs + 1 < 2 ^ 64 \<and> us' = us\<lparr>us_file := write_at (us_end_offset us) f (us_file us),
          us_index := us_index us @ [\<lparr>uf_offset = us_end_offset us, uf_length = length f\<rparr>],
          us_end_offset := us_end_offset us + length f\<rparr>))))"
  using assms
  by (auto simp: undo_append_def ensure_open_def checked_add_usize_eq_Some u64_try_from_eq_Some
      encode_undo_frame_iff undo_record_frame_def split: sum.splits if_splits)

lemma undo_encode_snoc:
  assumes "undo_encode crc rs = Some fs" "undo_record_frame crc (length rs) r = Some f"
  shows "undo_encode crc (rs @ [r]) = Some (fs @ f)"
    "undo_places crc (rs @ [r]) = undo_places crc rs @ [\<lparr>uf_offset = UNDO_HEADER_BYTES + length fs, uf_length = length f\<rparr>]"
proof -
  show "undo_encode crc (rs @ [r]) = Some (fs @ f)"
    using assms by (simp add: encode_all_append)
  show "undo_places crc (rs @ [r]) = undo_places crc rs @ [\<lparr>uf_offset = UNDO_HEADER_BYTES + length fs, uf_length = length f\<rparr>]"
    unfolding placed_append [OF assms(1)]
    using assms(2) undo_record_frame_length [OF assms(2)] by (simp add: undo_placed_def)
qed

lemma write_at_end: "length file = offset \<Longrightarrow> write_at offset bs file = file @ bs"
  by (simp add: write_at_def)

lemma undo_append_inv:
  assumes inv: "undo_inv crc inc us rs" and app: "undo_append crc io r us = (q, us')"
  shows "undo_inv crc inc us' (case q of Inl _ \<Rightarrow> rs | Inr _ \<Rightarrow> rs @ [r])"
proof -
  let ?h = "encode_bound_header crc UNDO_HEADER_MAGIC inc"
  obtain fs junk where fs: "undo_encode crc rs = Some fs" "us_file us = ?h @ fs @ junk" "us_index us = undo_places crc rs"
      "us_end_offset us = UNDO_HEADER_BYTES + length fs" "\<not> us_fenced us \<longrightarrow> junk = []"
    and basic: "incarnation_ok inc" "us_store us = inc" "\<not> us_poisoned us" "length rs < 2 ^ 64"
      "unat (us_durable_version us) \<le> length rs" "us_end_offset us < 2 ^ 64"
    using inv unfolding undo_inv_def by blast
  have len: "length (us_index us) = length rs" using fs(3) by simp
  from undo_append_cases [OF app len basic(4)] show ?thesis
  proof (elim disjE conjE exE)
    fix e assume "us' = us" "q = Inl e"
    then show ?thesis using inv by simp
  next
    fix f assume f: "\<not> us_fenced us" "undo_record_frame crc (length rs) r = Some f"
      and q: "q = Inl (US_Io Undo_Append)"
      and us': "us' = us\<lparr>us_file := write_at (us_end_offset us) (take (ui_written io) f) (us_file us), us_fenced := True\<rparr>"
    have bytes: "us_file us' = ?h @ fs @ take (ui_written io) f"
      using f fs basic(1) by (simp add: us' write_at_end)
    have tail: "undo_tail crc (length rs) (take (ui_written io) f)" using f(2) by (auto simp: undo_tail_def)
    have "undo_inv crc inc us' rs"
      by (rule undo_invI [OF fs(1) _ bytes _ _ tail]) (use fs basic in \<open>simp_all add: us'\<close>)
    then show ?thesis using q by simp
  next
    fix f assume f: "\<not> us_fenced us" "undo_record_frame crc (length rs) r = Some f" "us_end_offset us + length f < 2 ^ 64"
      and q: "q = Inr (of_nat (length rs + 1))" "length rs + 1 < 2 ^ 64"
      and us': "us' = us\<lparr>us_file := write_at (us_end_offset us) f (us_file us),
          us_index := us_index us @ [\<lparr>uf_offset = us_end_offset us, uf_length = length f\<rparr>],
          us_end_offset := us_end_offset us + length f\<rparr>"
    note snoc = undo_encode_snoc [OF fs(1) f(2)]
    have bytes: "us_file us' = ?h @ (fs @ f) @ []" using f fs basic(1) by (simp add: us' write_at_end)
    have index: "us_index us' = undo_places crc (rs @ [r])" unfolding snoc(2) by (simp add: us' fs)
    have "undo_inv crc inc us' (rs @ [r])"
      by (rule undo_invI [OF snoc(1) index bytes])
        (use fs(4) f(3) q(2) basic in \<open>simp_all add: us' undo_tail_def\<close>)
    then show ?thesis using q by simp
  qed
qed

lemma undo_sync_inv:
  assumes "undo_inv crc inc us rs" "undo_sync_through io v us = (q, us')"
  shows "undo_inv crc inc us' rs"
proof -
  have "length (us_index us) = length rs" using assms(1) by (auto simp: undo_inv_def)
  then have "us' = us \<or> us' = us\<lparr>us_fenced := True\<rparr> \<or> us' = us\<lparr>us_durable_version := of_nat (length rs)\<rparr>"
    using assms(2) by (auto simp: undo_sync_through_def u64_try_from_def split: sum.splits option.splits if_splits)
  moreover have "unat (of_nat (length rs) :: u64) \<le> length rs"
    by (simp add: unat_of_nat take_bit_nat_less_eq_self)
  ultimately show ?thesis using assms(1) unfolding undo_inv_def by auto
qed

lemma undo_reachable_inv: "undo_reachable crc inc us rs \<Longrightarrow> undo_inv crc inc us rs"
proof (induction rule: undo_reachable.induct)
  case start
  then show ?case by (simp add: undo_inv_def undo_fresh_def undo_tail_def undo_consts)
next
  case (append us rs io r v us')
  then show ?case using undo_append_inv [OF append.IH append.hyps(2)] by simp
next
  case (append_failed us rs io r e us')
  then show ?case using undo_append_inv [OF append_failed.IH append_failed.hyps(2)] by simp
next
  case (sync us rs io v q us')
  then show ?case using undo_sync_inv by blast
qed

section \<open>Reading back\<close>

text \<open>What a store holding the given records answers.\<close>

definition undo_lookup :: "MvccRecord list \<Rightarrow> VersionId \<Rightarrow> UndoStoreError + MvccRecord" where
  "undo_lookup rs v =
     (if v = 0 then Inl US_ReservedVersion
      else case get_at rs (unat v - 1) of None \<Rightarrow> Inl (US_MissingVersion v) | Some r \<Rightarrow> Inr r)"

lemma undo_places_read:
  assumes "undo_encode crc rs = Some fs" "k < length rs" "length h = UNDO_HEADER_BYTES"
    and "\<forall>offset. ui_read io offset"
  shows "read_undo_frame crc io (h @ fs @ junk) (undo_places crc rs ! k) (of_nat (k + 1)) = Inr (rs ! k)"
proof -
  let ?r = "rs ! k"
  have split: "rs = take k rs @ ?r # drop (Suc k) rs" using assms(2) by (simp add: id_take_nth_drop)
  have "undo_encode crc (take k rs @ ?r # drop (Suc k) rs) = Some fs" using assms(1) split by simp
  from encode_all_nth [OF this, of undo_placed UNDO_HEADER_BYTES] obtain f1 f f2 where fs: "fs = f1 @ f @ f2"
    and f: "undo_record_frame crc (fold (\<lambda>r count. Suc count) (take k rs) 0) ?r = Some f"
    and place: "undo_places crc (take k rs @ ?r # drop (Suc k) rs) ! length (take k rs) =
      undo_placed ?r (UNDO_HEADER_BYTES + length f1 + length f)" by blast
  have f': "undo_record_frame crc k ?r = Some f" using f assms(2) by simp
  have "undo_places crc rs ! k = undo_placed ?r (UNDO_HEADER_BYTES + length f1 + length f)"
    using place split assms(2) by simp
  also have "\<dots> = \<lparr>uf_offset = UNDO_HEADER_BYTES + length f1, uf_length = length f\<rparr>"
    using undo_record_frame_length [OF f'] by (simp add: undo_placed_def)
  finally have "undo_places crc rs ! k = \<lparr>uf_offset = UNDO_HEADER_BYTES + length f1, uf_length = length f\<rparr>" .
  moreover have "get_range (h @ fs @ junk) (UNDO_HEADER_BYTES + length f1) (UNDO_HEADER_BYTES + length f1 + length f) = Some f"
    using assms(3) by (simp add: get_range_def fs)
  ultimately show ?thesis
    using assms(4) undo_record_frame_decodes [OF f'] by (simp add: read_undo_frame_def)
qed

lemma undo_get_inv:
  assumes inv: "undo_inv crc inc us rs" and io: "\<forall>offset. ui_read io offset"
  shows "undo_get crc io us v = undo_lookup rs v"
proof (cases "v = 0")
  case True
  then show ?thesis by (simp add: undo_get_def undo_lookup_def version_index_def)
next
  case False
  have k: "unat (v - 1) = unat v - 1" using False by (simp add: unat_minus_one)
  have v: "v = of_nat (unat v - 1 + 1)" using False by (simp add: unat_gt_0)
  obtain fs junk where fs: "undo_encode crc rs = Some fs" "us_index us = undo_places crc rs"
      "us_file us = encode_bound_header crc UNDO_HEADER_MAGIC inc @ fs @ junk" "incarnation_ok inc" "\<not> us_poisoned us"
    using inv unfolding undo_inv_def by blast
  show ?thesis
  proof (cases "unat v - 1 < length rs")
    case True
    have "read_undo_frame crc io (us_file us) (undo_places crc rs ! (unat v - 1)) (of_nat (unat v - 1 + 1)) =
        Inr (rs ! (unat v - 1))"
      unfolding fs(3) by (rule undo_places_read [OF fs(1) True _ io]) (simp add: fs(4))
    then show ?thesis
      using False True v by (simp add: undo_get_def undo_lookup_def version_index_def k fs(2,5) get_at_def)
  next
    case beyond: False
    then show ?thesis
      using False by (simp add: undo_get_def undo_lookup_def version_index_def k fs(2,5) get_at_def)
  qed
qed

section \<open>Reopening\<close>

definition undo_io_works :: "UndoIo \<Rightarrow> bool" where
  "undo_io_works io \<longleftrightarrow> (\<forall>operation. ui_ok io operation) \<and> (\<forall>offset. ui_read io offset)"

lemma frames_end_places:
  assumes "undo_encode crc rs = Some fs"
  shows "frames_end (undo_places crc rs) = UNDO_HEADER_BYTES + length fs"
proof (cases rs rule: rev_cases)
  case Nil
  then show ?thesis using assms by (simp add: frames_end_def)
next
  case (snoc as r)
  obtain gs f where g: "undo_encode crc as = Some gs" "undo_record_frame crc (length as) r = Some f" "fs = gs @ f"
    using assms by (auto simp: snoc encode_all_append bind_eq_Some_conv)
  show ?thesis unfolding snoc undo_encode_snoc(2) [OF g(1,2)] by (simp add: frames_end_def g(3))
qed

lemma undo_inv_reopen:
  assumes "undo_encode crc rs = Some fs" "length rs < 2 ^ 64" "UNDO_HEADER_BYTES + length fs < 2 ^ 64" "incarnation_ok inc"
    and "us = \<lparr>us_store = inc, us_file = encode_bound_header crc UNDO_HEADER_MAGIC inc @ fs,
      us_index = undo_places crc rs, us_end_offset = UNDO_HEADER_BYTES + length fs,
      us_durable_version = of_nat (length rs), us_fenced = False, us_poisoned = False\<rparr>"
  shows "undo_inv crc inc us rs"
  using assms(2-)
  by (intro undo_invI [OF assms(1), of us inc "[]"])
    (simp_all add: undo_tail_def unat_of_nat take_bit_nat_less_eq_self)

lemma undo_open_file:
  assumes "undo_encode crc rs = Some fs" "incarnation_ok inc" "undo_io_works io" "length rs < 2 ^ 64"
    and "scan_frames crc (\<lambda>_. True) 0 (encode_bound_header crc UNDO_HEADER_MAGIC inc @ fs @ junk) UNDO_HEADER_BYTES =
      (undo_places crc rs, st)" "st = Scan_Complete \<and> junk = [] \<or> st = Scan_Torn"
  shows "undo_open_claimed crc io inc (Some (encode_bound_header crc UNDO_HEADER_MAGIC inc @ fs @ junk)) =
    Inr \<lparr>us_store = inc, us_file = encode_bound_header crc UNDO_HEADER_MAGIC inc @ fs,
      us_index = undo_places crc rs, us_end_offset = UNDO_HEADER_BYTES + length fs,
      us_durable_version = of_nat (length rs), us_fenced = False, us_poisoned = False\<rparr>"
proof -
  let ?h = "encode_bound_header crc UNDO_HEADER_MAGIC inc"
  have io: "ui_ok io operation" "ui_read io = (\<lambda>_. True)" for operation
    using assms(3) by (auto simp: undo_io_works_def)
  have header: "decode_bound_header crc ?h UNDO_HEADER_MAGIC UNDO_FILE_NAME = Inr inc"
    using assms(2) by (simp add: decode_bound_header_exact UNDO_HEADER_MAGIC_def)
  have "scan_and_repair crc io (?h @ fs @ junk) = Inr (undo_places crc rs, UNDO_HEADER_BYTES + length fs, ?h @ fs)"
    unfolding scan_and_repair_def io(2) assms(5)
    using assms(2,6) io(1) by (auto simp: repair_tail_def frames_end_places [OF assms(1)])
  then show ?thesis
    using assms(2,4) io header by (simp add: undo_open_claimed_def u64_try_from_def)
qed

lemma undo_reopen_inv:
  assumes inv: "undo_inv crc inc us rs" and io: "undo_io_works io" and small: "length (us_file us) < 2 ^ 64"
  obtains us' rs' where "undo_open_claimed crc io inc (Some (us_file us)) = Inr us'" "undo_inv crc inc us' rs'"
    "rs' = rs \<or> (us_fenced us \<and> (\<exists>r. rs' = rs @ [r]))" "us_durable_version us' = of_nat (length rs')" "\<not> us_fenced us'"
proof -
  let ?h = "encode_bound_header crc UNDO_HEADER_MAGIC inc"
  obtain fs junk where fs: "undo_encode crc rs = Some fs" "us_file us = ?h @ fs @ junk"
      "us_end_offset us = UNDO_HEADER_BYTES + length fs" "us_end_offset us < 2 ^ 64"
      "undo_tail crc (length rs) junk" "\<not> us_fenced us \<longrightarrow> junk = []" and inc: "incarnation_ok inc"
      and rs: "length rs < 2 ^ 64"
    using inv unfolding undo_inv_def by blast
  have h: "length ?h = UNDO_HEADER_BYTES" using inc by simp
  note reopened = undo_open_file [OF _ inc io] and stored = undo_inv_reopen [OF _ _ _ inc refl]
  consider "junk = []"
    | r f where "undo_record_frame crc (length rs) r = Some f" "junk = f" "junk \<noteq> []"
    | r f k where "undo_record_frame crc (length rs) r = Some f" "junk = take k f" "0 < k" "k < length f"
    using fs(5) unfolding undo_tail_def by (metis neq0_conv not_less take0 take_all)
  then show thesis
  proof cases
    case 1
    have "scan_frames crc (\<lambda>_. True) 0 (?h @ fs) UNDO_HEADER_BYTES = (undo_places crc rs, Scan_Complete)"
      using undo_frames.parse_all [OF fs(1), of ?h] fs(3,4) h by simp
    then show thesis
      using reopened [OF fs(1) rs, of "[]"] stored [OF fs(1) rs] fs 1 by (intro that [where rs' = rs]) auto
  next
    case (2 r f)
    note snoc = undo_encode_snoc [OF fs(1) 2(1)]
    have len: "UNDO_HEADER_BYTES + length (fs @ f) < 2 ^ 64" using small fs(2) h 2 by simp
    have rs': "length (rs @ [r]) < 2 ^ 64"
      using 2(1) by (auto simp: undo_record_frame_def split: sum.splits if_splits)
    have "scan_frames crc (\<lambda>_. True) 0 (?h @ fs @ f) UNDO_HEADER_BYTES = (undo_places crc (rs @ [r]), Scan_Complete)"
      using undo_frames.parse_all [OF snoc(1), of ?h] len h by simp
    then show thesis
      using reopened [OF snoc(1) rs', of "[]"] stored [OF snoc(1) rs' len] fs(2,6) 2(2,3)
      by (intro that [where rs' = "rs @ [r]"]) auto
  next
    case (3 r f k)
    have "undo_record_frame crc (fold (\<lambda>r count. Suc count) rs 0) r = Some f" using 3(1) by simp
    then have "scan_frames crc (\<lambda>_. True) 0 (?h @ fs @ junk) UNDO_HEADER_BYTES = (undo_places crc rs, Scan_Torn)"
      using undo_frames.parse_all_torn [OF fs(1) _ 3(3,4), of r ?h] small fs(2) h 3(2) by simp
    then show thesis
      using reopened [OF fs(1) rs] stored [OF fs(1) rs] fs by (intro that [where rs' = rs]) auto
  qed
qed

section \<open>What readers rely on\<close>

text \<open>
  The contract of an undo source: the link of every record it returns points strictly backwards.
  Then following links ends.
\<close>

locale undo_source =
  fixes get :: "VersionId \<Rightarrow> 'e + MvccRecord"
  assumes backward: "get v = Inr r \<Longrightarrow> rec_undo_head r = Some p \<Longrightarrow> p \<noteq> 0 \<and> p < v"
begin

lemma links_end: "wf {(p, v). \<exists>r. get v = Inr r \<and> rec_undo_head r = Some p}"
  by (rule wf_subset [OF wf_measure [of unat]]) (auto simp: word_less_nat_alt dest: backward)

lemma link_not_self: "get v = Inr r \<Longrightarrow> rec_undo_head r \<noteq> Some v"
  using backward by blast

end

interpretation undo_store: undo_source "undo_get crc io us"
proof
  fix v r p assume "undo_get crc io us v = Inr r" "rec_undo_head r = Some p"
  then have "validate_predecessor r v = Inr ()"
    by (auto simp: undo_get_def read_undo_frame_def validate_complete_frame_def Let_def split: option.splits if_splits)
  then show "p \<noteq> 0 \<and> p < v" using \<open>rec_undo_head r = Some p\<close> by (simp add: validate_predecessor_iff)
qed

text \<open>A concrete store with one record.\<close>

definition demo_inc :: StoreIncarnation where "demo_inc = replicate 16 1"

definition demo_io :: UndoIo where
  "demo_io = \<lparr>ui_ok = (\<lambda>_. True), ui_read = (\<lambda>_. True), ui_written = 0\<rparr>"

definition demo_record :: MvccRecord where "demo_record = mvcc_new (Frozen 1) None (Inline [7])"

definition demo_undo :: UndoStore where
  "demo_undo = snd (undo_append (\<lambda>_. 0) demo_io demo_record (undo_fresh (\<lambda>_. 0) demo_inc))"

lemma demo_undo_append:
  "undo_append (\<lambda>_. 0) demo_io demo_record (undo_fresh (\<lambda>_. 0) demo_inc) = (Inr 1, demo_undo)"
proof -
  have "fst (undo_append (\<lambda>_. 0) demo_io demo_record (undo_fresh (\<lambda>_. 0) demo_inc)) = Inr 1" by code_simp
  then show ?thesis unfolding demo_undo_def by (metis prod.collapse)
qed

lemma demo_undo_reachable: "undo_reachable (\<lambda>_. 0) demo_inc demo_undo [demo_record]"
proof -
  have "incarnation_ok demo_inc" by (simp add: incarnation_ok_def demo_inc_def)
  from undo_reachable.append [OF undo_reachable.start [OF this] demo_undo_append] show ?thesis by simp
qed

section \<open>Properties\<close>

text \<open>
  C14.  The undo store is an append-only list of records: whatever appends (failed ones included) and
  syncs happened, the record with version \<open>v\<close> is the \<open>v\<close>-th one appended, other versions are missing, and a
  successful append returns the next version and makes exactly that record readable.
\<close>
theorem undo_store_is_a_list:
  assumes "undo_reachable crc inc us rs" "\<forall>offset. ui_read io offset"
  shows "undo_get crc io us v = undo_lookup rs v \<and>
    (\<forall>io' r w us'. undo_append crc io' r us = (Inr w, us') \<longrightarrow>
       unat w = length rs + 1 \<and> undo_get crc io us' v = undo_lookup (rs @ [r]) v)"
proof (intro conjI allI impI)
  note inv = undo_reachable_inv [OF assms(1)]
  show "undo_get crc io us v = undo_lookup rs v" using undo_get_inv [OF inv assms(2)] .
  fix io' r w us' assume app: "undo_append crc io' r us = (Inr w, us')"
  have "length (us_index us) = length rs" "length rs < 2 ^ 64" using inv unfolding undo_inv_def by auto
  from undo_append_cases [OF app this] have "w = of_nat (length rs + 1)" "length rs + 1 < 2 ^ 64" by auto
  then show "unat w = length rs + 1" using u64_try_from_unat [of "length rs + 1" w] by (simp add: u64_try_from_def)
  show "undo_get crc io us' v = undo_lookup (rs @ [r]) v"
    using undo_get_inv [OF undo_append_inv [OF inv app] assms(2)] by simp
qed

theorem undo_store_is_a_list_witness:
  "undo_get (\<lambda>_. 0) demo_io demo_undo 1 = Inr demo_record"
proof -
  have "\<forall>offset. ui_read demo_io offset" by (simp add: demo_io_def)
  from undo_store_is_a_list [OF demo_undo_reachable this, of 1] show ?thesis
    by (simp add: undo_lookup_def get_at_def)
qed

text \<open>
  C12.  Reopening recovers the store: opening the file of any store reached by appends and syncs, with
  possibly a torn last frame from a failed append, succeeds and yields a store with all appended
  records readable and durable; at most the record of the failed append, if it was completely
  written, is recovered in addition, and nothing is fenced.
\<close>
theorem undo_reopen_recovers:
  assumes "undo_reachable crc inc us rs" "undo_io_works io" "length (us_file us) < 2 ^ 64"
  shows "\<exists>us' rs'. undo_open_claimed crc io inc (Some (us_file us)) = Inr us' \<and>
    (rs' = rs \<or> us_fenced us \<and> (\<exists>r. rs' = rs @ [r])) \<and>
    (\<forall>v. undo_get crc io us' v = undo_lookup rs' v) \<and>
    us_durable_version us' = of_nat (length rs') \<and> \<not> us_fenced us'"
proof -
  obtain us' rs' where us': "undo_open_claimed crc io inc (Some (us_file us)) = Inr us'" "undo_inv crc inc us' rs'"
    "rs' = rs \<or> (us_fenced us \<and> (\<exists>r. rs' = rs @ [r]))" "us_durable_version us' = of_nat (length rs')" "\<not> us_fenced us'"
    using undo_reopen_inv [OF undo_reachable_inv [OF assms(1)] assms(2,3)] .
  have "\<forall>v. undo_get crc io us' v = undo_lookup rs' v"
    using undo_get_inv [OF us'(2)] assms(2) by (simp add: undo_io_works_def)
  then show ?thesis using us' by blast
qed

theorem undo_reopen_recovers_witness:
  "\<exists>us'. undo_open_claimed (\<lambda>_. 0) demo_io demo_inc (Some (us_file demo_undo)) = Inr us' \<and>
    undo_get (\<lambda>_. 0) demo_io us' 1 = Inr demo_record"
proof -
  have io: "undo_io_works demo_io" by (simp add: undo_io_works_def demo_io_def)
  have facts: "length (us_file demo_undo) < 2 ^ 64" "\<not> us_fenced demo_undo" by code_simp+
  from undo_reopen_recovers [OF demo_undo_reachable io facts(1)] facts(2)
  obtain us' where us': "undo_open_claimed (\<lambda>_. 0) demo_io demo_inc (Some (us_file demo_undo)) = Inr us'"
    "\<forall>v. undo_get (\<lambda>_. 0) demo_io us' v = undo_lookup [demo_record] v" by blast
  then have "undo_get (\<lambda>_. 0) demo_io us' 1 = Inr demo_record" by (simp add: undo_lookup_def get_at_def)
  then show ?thesis using us'(1) by blast
qed

end
