(* ===== verification/Admission.thy ===== *)
theory Admission
  imports Prelude
begin

text \<open>
  Model of \<open>crates/seerdb/src/vnext/runtime_admission.rs\<close>: the gate that admits commits, drains them
  for a checkpoint and fences the runtime after a failure.  A condition-variable wait is the sequence
  of admission states the waiter finds when it wakes up.
\<close>

section \<open>Operations\<close>

datatype RuntimeAdmissionState = Adm_Open | Adm_Checkpointing | Adm_RecoveryRequired

datatype RuntimeAdmissionError =
  RA_CheckpointInProgress | RA_RecoveryRequired | RA_Poisoned | RA_CommitCountExhausted

record AdmissionState =
  as_checkpointing :: bool
  as_active_commits :: nat

record RuntimeAdmission =
  ra_state :: AdmissionState
  ra_poisoned :: bool
  ra_recovery_required :: bool

definition admission_new :: RuntimeAdmission where
  "admission_new = \<lparr>ra_state = \<lparr>as_checkpointing = False, as_active_commits = 0\<rparr>, ra_poisoned = False,
     ra_recovery_required = False\<rparr>"

definition admission_mode :: "RuntimeAdmission \<Rightarrow> RuntimeAdmissionState" where
  "admission_mode a =
     (if ra_recovery_required a then Adm_RecoveryRequired
      else if as_checkpointing (ra_state a) then Adm_Checkpointing else Adm_Open)"

definition admit_commit :: "RuntimeAdmission \<Rightarrow> (RuntimeAdmissionError + unit) \<times> RuntimeAdmission" where
  "admit_commit a =
     (if ra_poisoned a then (Inl RA_Poisoned, a)
      else case admission_mode a of
        Adm_Open \<Rightarrow>
          (case checked_add_usize (as_active_commits (ra_state a)) 1 of
             None \<Rightarrow> (Inl RA_CommitCountExhausted, a)
           | Some n \<Rightarrow> (Inr (), a\<lparr>ra_state := (ra_state a)\<lparr>as_active_commits := n\<rparr>\<rparr>))
      | Adm_Checkpointing \<Rightarrow> (Inl RA_CheckpointInProgress, a)
      | Adm_RecoveryRequired \<Rightarrow> (Inl RA_RecoveryRequired, a))"

definition ensure_read_admission :: "RuntimeAdmission \<Rightarrow> RuntimeAdmissionError + unit" where
  "ensure_read_admission a =
     (if ra_recovery_required a then Inl RA_RecoveryRequired
      else if ra_poisoned a then Inl RA_Poisoned else Inr ())"

text \<open>The part of \<open>begin_checkpoint\<close> before its wait loop, and the loop from a given state.\<close>

definition checkpoint_enter :: "RuntimeAdmission \<Rightarrow> (RuntimeAdmissionError + unit) \<times> RuntimeAdmission" where
  "checkpoint_enter a =
     (if ra_poisoned a then (Inl RA_Poisoned, a)
      else case admission_mode a of
        Adm_Open \<Rightarrow> (Inr (), a\<lparr>ra_state := (ra_state a)\<lparr>as_checkpointing := True\<rparr>\<rparr>)
      | Adm_Checkpointing \<Rightarrow> (Inl RA_CheckpointInProgress, a)
      | Adm_RecoveryRequired \<Rightarrow> (Inl RA_RecoveryRequired, a))"

text \<open>One wake-up of the drain: \<open>Some\<close> when the call returns, \<open>None\<close> when it waits again.\<close>

definition drain_woken :: "RuntimeAdmission \<Rightarrow> (RuntimeAdmissionError + unit) option" where
  "drain_woken a =
     (if ra_poisoned a then Some (Inl RA_Poisoned)
      else if ra_recovery_required a then Some (Inl RA_RecoveryRequired)
      else if as_active_commits (ra_state a) = 0 then Some (Inr ()) else None)"

fun drain_loop :: "RuntimeAdmission list \<Rightarrow> (RuntimeAdmissionError + unit) option" where
  "drain_loop [] = None"
| "drain_loop (a # wakes) = (case drain_woken a of Some r \<Rightarrow> Some r | None \<Rightarrow> drain_loop wakes)"

definition begin_checkpoint ::
  "RuntimeAdmission \<Rightarrow> RuntimeAdmission list \<Rightarrow> (RuntimeAdmissionError + unit) option \<times> RuntimeAdmission" where
  "begin_checkpoint a wakes =
     (case checkpoint_enter a of
        (Inl e, a') \<Rightarrow> (Some (Inl e), a')
      | (Inr _, a') \<Rightarrow>
          if as_active_commits (ra_state a') = 0 then (Some (Inr ()), a') else (drain_loop wakes, a'))"

definition admission_require_recovery :: "RuntimeAdmission \<Rightarrow> RuntimeAdmission" where
  "admission_require_recovery a = a\<lparr>ra_recovery_required := True\<rparr>"

definition admission_state :: "RuntimeAdmission \<Rightarrow> RuntimeAdmissionError + RuntimeAdmissionState" where
  "admission_state a = (if ra_poisoned a then Inl RA_Poisoned else Inr (admission_mode a))"

definition active_commits :: "RuntimeAdmission \<Rightarrow> RuntimeAdmissionError + nat" where
  "active_commits a = (if ra_poisoned a then Inl RA_Poisoned else Inr (as_active_commits (ra_state a)))"

definition admit_visibility :: "RuntimeAdmission \<Rightarrow> RuntimeAdmissionError + unit" where
  "admit_visibility a =
     (if ra_poisoned a then Inl RA_Poisoned
      else if ra_recovery_required a then Inl RA_RecoveryRequired else Inr ())"

definition release_commit :: "RuntimeAdmission \<Rightarrow> RuntimeAdmission" where
  "release_commit a =
     (if ra_poisoned a then a
      else if as_active_commits (ra_state a) \<noteq> 0
        then a\<lparr>ra_state := (ra_state a)\<lparr>as_active_commits := as_active_commits (ra_state a) - 1\<rparr>\<rparr>
      else a)"

definition finish_checkpoint :: "RuntimeAdmission \<Rightarrow> RuntimeAdmission" where
  "finish_checkpoint a =
     (if ra_poisoned a then a else a\<lparr>ra_state := (ra_state a)\<lparr>as_checkpointing := False\<rparr>\<rparr>)"

section \<open>A runtime with its guards\<close>

text \<open>
  The admission with the guards that are alive: how many commit guards, whether a checkpoint guard
  is held, and whether a thread is inside the drain.  A panicking thread may poison the lock at any
  time.
\<close>

record AdmissionSystem =
  sys_admission :: RuntimeAdmission
  sys_commits :: nat
  sys_draining :: bool
  sys_checkpoint :: bool

inductive adm_step :: "AdmissionSystem \<Rightarrow> AdmissionSystem \<Rightarrow> bool" where
  admit: "admit_commit (sys_admission s) = (Inr u, a) \<Longrightarrow>
    adm_step s (s\<lparr>sys_admission := a, sys_commits := sys_commits s + 1\<rparr>)"
| release: "sys_commits s > 0 \<Longrightarrow>
    adm_step s (s\<lparr>sys_admission := release_commit (sys_admission s), sys_commits := sys_commits s - 1\<rparr>)"
| enter_idle: "checkpoint_enter (sys_admission s) = (Inr u, a) \<Longrightarrow> as_active_commits (ra_state a) = 0 \<Longrightarrow>
    adm_step s (s\<lparr>sys_admission := a, sys_checkpoint := True\<rparr>)"
| enter_wait: "checkpoint_enter (sys_admission s) = (Inr u, a) \<Longrightarrow> as_active_commits (ra_state a) \<noteq> 0 \<Longrightarrow>
    adm_step s (s\<lparr>sys_admission := a, sys_draining := True\<rparr>)"
| drained: "sys_draining s \<Longrightarrow> drain_woken (sys_admission s) = Some (Inr u) \<Longrightarrow>
    adm_step s (s\<lparr>sys_draining := False, sys_checkpoint := True\<rparr>)"
| drain_failed: "sys_draining s \<Longrightarrow> drain_woken (sys_admission s) = Some (Inl e) \<Longrightarrow>
    adm_step s (s\<lparr>sys_draining := False\<rparr>)"
| finish: "sys_checkpoint s \<Longrightarrow>
    adm_step s (s\<lparr>sys_admission := finish_checkpoint (sys_admission s), sys_checkpoint := False\<rparr>)"
| fence: "adm_step s (s\<lparr>sys_admission := admission_require_recovery (sys_admission s)\<rparr>)"
| poison: "adm_step s (s\<lparr>sys_admission := (sys_admission s)\<lparr>ra_poisoned := True\<rparr>\<rparr>)"

inductive adm_reachable :: "AdmissionSystem \<Rightarrow> bool" where
  start: "adm_reachable \<lparr>sys_admission = admission_new, sys_commits = 0, sys_draining = False, sys_checkpoint = False\<rparr>"
| step: "adm_reachable s \<Longrightarrow> adm_step s s' \<Longrightarrow> adm_reachable s'"

definition adm_inv :: "AdmissionSystem \<Rightarrow> bool" where
  "adm_inv s \<longleftrightarrow>
     (let a = sys_admission s; n = as_active_commits (ra_state a) in
      sys_commits s \<le> n \<and> n < 2 ^ 64 \<and> (\<not> ra_poisoned a \<longrightarrow> n = sys_commits s) \<and>
      (sys_checkpoint s \<longrightarrow> as_checkpointing (ra_state a) \<and> n = 0) \<and>
      (sys_draining s \<longrightarrow> as_checkpointing (ra_state a)) \<and>
      \<not> (sys_draining s \<and> sys_checkpoint s))"

lemmas adm_defs = admit_commit_def checkpoint_enter_def admission_mode_def drain_woken_def release_commit_def
  finish_checkpoint_def admission_require_recovery_def

lemma adm_step_inv: "adm_step s s' \<Longrightarrow> adm_inv s \<Longrightarrow> adm_inv s'"
  by (induction rule: adm_step.induct)
    (auto simp: adm_inv_def adm_defs Let_def checked_add_usize_def split: if_splits)

lemma adm_reachable_inv: "adm_reachable s \<Longrightarrow> adm_inv s"
proof (induction rule: adm_reachable.induct)
  case start
  then show ?case by (simp add: adm_inv_def admission_new_def)
next
  case (step s s')
  then show ?case using adm_step_inv by blast
qed

section \<open>Properties\<close>

text \<open>
  C27.  A checkpoint runs alone: however commits, drains, fences and poisonings interleave, while a
  checkpoint guard is held no admitted commit is alive, every new commit and every second
  checkpoint is refused, and the commit count is the number of live commit guards unless the lock
  was poisoned.
\<close>
theorem checkpoint_is_quiescent:
  assumes "adm_reachable s"
  shows "(sys_checkpoint s \<longrightarrow> sys_commits s = 0 \<and>
      (\<exists>e. admit_commit (sys_admission s) = (Inl e, sys_admission s)) \<and>
      (\<exists>e. checkpoint_enter (sys_admission s) = (Inl e, sys_admission s))) \<and>
    (\<forall>n. active_commits (sys_admission s) = Inr n \<longrightarrow> n = sys_commits s)"
  using adm_reachable_inv [OF assms]
  by (auto simp: adm_inv_def Let_def adm_defs active_commits_def)

theorem checkpoint_is_quiescent_witness:
  "let a = snd (begin_checkpoint admission_new []);
       s = \<lparr>sys_admission = a, sys_commits = 0, sys_draining = False, sys_checkpoint = True\<rparr>
   in adm_reachable s \<and> (\<exists>e. admit_commit a = (Inl e, a))"
proof -
  let ?s0 = "\<lparr>sys_admission = admission_new, sys_commits = 0, sys_draining = False, sys_checkpoint = False\<rparr>"
  let ?a = "snd (checkpoint_enter (sys_admission ?s0))"
  have enter: "checkpoint_enter (sys_admission ?s0) = (Inr (), ?a)" "as_active_commits (ra_state ?a) = 0"
    and begin_a: "snd (begin_checkpoint admission_new []) = ?a"
    by code_simp+
  have r: "adm_reachable \<lparr>sys_admission = ?a, sys_commits = 0, sys_draining = False, sys_checkpoint = True\<rparr>"
    using adm_reachable.step [OF adm_reachable.start adm_step.enter_idle [OF enter]] by simp
  show ?thesis unfolding Let_def begin_a using checkpoint_is_quiescent [OF r] r by simp
qed

text \<open>
  C28.  The fence is terminal and lets nobody hang: once the runtime requires recovery, every later
  state of it does, and in each of them commits, checkpoints, reads and visibility publications
  are all refused; a drain that wakes up in such a state returns.
\<close>
theorem fence_is_terminal:
  "ra_recovery_required (sys_admission s) \<and> adm_step\<^sup>*\<^sup>* s s' \<longrightarrow>
    (let a = sys_admission s' in ra_recovery_required a \<and>
      (\<exists>e. admit_commit a = (Inl e, a)) \<and> (\<exists>e. checkpoint_enter a = (Inl e, a)) \<and>
      (\<exists>e. ensure_read_admission a = Inl e) \<and> (\<exists>e. admit_visibility a = Inl e) \<and>
      (\<exists>r. drain_woken a = Some r))"
proof
  assume *: "ra_recovery_required (sys_admission s) \<and> adm_step\<^sup>*\<^sup>* s s'"
  have stays: "ra_recovery_required (sys_admission t')"
    if "adm_step t t'" "ra_recovery_required (sys_admission t)" for t t'
    using that by (induction rule: adm_step.induct) (auto simp: adm_defs split: if_splits option.splits)
  from * have "adm_step\<^sup>*\<^sup>* s s'" "ra_recovery_required (sys_admission s)" by auto
  then have "ra_recovery_required (sys_admission s')"
    by (induction rule: rtranclp_induct) (auto intro: stays)
  then show "let a = sys_admission s' in ra_recovery_required a \<and>
      (\<exists>e. admit_commit a = (Inl e, a)) \<and> (\<exists>e. checkpoint_enter a = (Inl e, a)) \<and>
      (\<exists>e. ensure_read_admission a = Inl e) \<and> (\<exists>e. admit_visibility a = Inl e) \<and>
      (\<exists>r. drain_woken a = Some r)"
    by (auto simp: Let_def adm_defs ensure_read_admission_def admit_visibility_def)
qed

theorem fence_is_terminal_witness:
  "let s = \<lparr>sys_admission = admission_require_recovery admission_new, sys_commits = 0, sys_draining = False,
       sys_checkpoint = False\<rparr> in \<exists>e. ensure_read_admission (sys_admission s) = Inl e"
proof -
  let ?s = "\<lparr>sys_admission = admission_require_recovery admission_new, sys_commits = 0, sys_draining = False,
     sys_checkpoint = False\<rparr>"
  have "ra_recovery_required (sys_admission ?s)" by code_simp
  then show ?thesis unfolding Let_def using fence_is_terminal [of ?s ?s] by (simp add: Let_def)
qed

text \<open>
  A drain ends as soon as it can: its result is decided by the first wake-up that finds the
  runtime drained, fenced or poisoned, it keeps waiting when there is none, and a wake-up grants the
  checkpoint exactly when no commit is active and the runtime is neither fenced nor poisoned.
\<close>
theorem drain_returns:
  "drain_loop wakes =
     (case dropWhile (\<lambda>a. drain_woken a = None) wakes of [] \<Rightarrow> None | a # _ \<Rightarrow> drain_woken a) \<and>
   (drain_woken a = Some (Inr ()) \<longleftrightarrow> active_commits a = Inr 0 \<and> \<not> ra_recovery_required a) \<and>
   (drain_woken a = None \<longleftrightarrow> (\<exists>n. active_commits a = Inr (Suc n)) \<and> \<not> ra_recovery_required a)"
proof (intro conjI)
  show "drain_loop wakes =
     (case dropWhile (\<lambda>a. drain_woken a = None) wakes of [] \<Rightarrow> None | a # _ \<Rightarrow> drain_woken a)"
    by (induction wakes) (auto split: option.splits)
qed (auto simp: drain_woken_def active_commits_def gr0_conv_Suc)

end
