(* ===== verification/Page_Dependency.thy ===== *)
theory Page_Dependency
  imports Sharded_Map Ids
begin

text \<open>
  Model of \<open>crates/seerdb/src/vnext/page_dependency.rs\<close>: the write-ahead requirements of logical
  pages, the durable frontiers, and the page device decorator that refuses a write which is not yet
  covered.  The hash of a page key and the inner device belong to other code: they are parameters.
\<close>

section \<open>Requirements\<close>

record PageDependencies =
  pd_required_wal :: Lsn
  pd_required_undo :: "VersionId option"

definition pd_none :: PageDependencies where
  "pd_none = \<lparr>pd_required_wal = 0, pd_required_undo = None\<rparr>"

definition pd_new :: "Lsn \<Rightarrow> VersionId option \<Rightarrow> PageDependencies" where
  "pd_new required_wal required_undo = \<lparr>pd_required_wal = required_wal, pd_required_undo = required_undo\<rparr>"

definition pd_merged :: "PageDependencies \<Rightarrow> PageDependencies \<Rightarrow> PageDependencies" where
  "pd_merged a b =
     \<lparr>pd_required_wal = max (pd_required_wal a) (pd_required_wal b),
      pd_required_undo = (case (pd_required_undo a, pd_required_undo b) of
         (Some left, Some right) \<Rightarrow> Some (max left right)
       | (Some v, None) \<Rightarrow> Some v
       | (None, Some v) \<Rightarrow> Some v
       | (None, None) \<Rightarrow> None)\<rparr>"

definition is_satisfied_by :: "PageDependencies \<Rightarrow> Lsn \<Rightarrow> u64 \<Rightarrow> bool" where
  "is_satisfied_by d durable_wal durable_undo =
     (durable_wal \<ge> pd_required_wal d \<and>
      (case pd_required_undo d of None \<Rightarrow> True | Some required \<Rightarrow> durable_undo \<ge> required))"

section \<open>The table\<close>

record PageDependencyTable =
  dt_shards :: "(PageKey, PageDependencies) shards"
  dt_durable_wal :: u64
  dt_durable_undo :: u64

datatype PageDependencyError = PD_Poisoned nat

definition DEPENDENCY_SHARDS :: nat where "DEPENDENCY_SHARDS = 64"

definition dependency_shard :: "(PageKey \<Rightarrow> u64) \<Rightarrow> PageKey \<Rightarrow> nat" where
  "dependency_shard hash key = unat (hash key AND of_nat (DEPENDENCY_SHARDS - 1))"

definition dep_new :: PageDependencyTable where
  "dep_new = \<lparr>dt_shards = sm_new, dt_durable_wal = 0, dt_durable_undo = 0\<rparr>"

definition unwrap_or_default :: "PageDependencies option \<Rightarrow> PageDependencies" where
  "unwrap_or_default m = (case m of None \<Rightarrow> pd_none | Some d \<Rightarrow> d)"

definition dep_merge :: "(PageKey \<Rightarrow> u64) \<Rightarrow> PageKey \<Rightarrow> PageDependencies \<Rightarrow> PageDependencyTable \<Rightarrow>
    (PageDependencyError + PageDependencies) \<times> PageDependencyTable" where
  "dep_merge hash key required t =
     (let shard = dependency_shard hash key in
      if poisoned (dt_shards t shard) then (Inl (PD_Poisoned shard), t)
      else let merged = pd_merged (unwrap_or_default (entries (dt_shards t shard) key)) required in
        if merged = pd_none
        then (Inr merged, t\<lparr>dt_shards := sm_set (dependency_shard hash) key None (dt_shards t)\<rparr>)
        else (Inr merged, t\<lparr>dt_shards := sm_set (dependency_shard hash) key (Some merged) (dt_shards t)\<rparr>))"

definition dep_requirements ::
  "(PageKey \<Rightarrow> u64) \<Rightarrow> PageDependencyTable \<Rightarrow> PageKey \<Rightarrow> PageDependencyError + PageDependencies" where
  "dep_requirements hash t key =
     (let shard = dependency_shard hash key in
      if poisoned (dt_shards t shard) then Inl (PD_Poisoned shard)
      else Inr (unwrap_or_default (entries (dt_shards t shard) key)))"

definition frontiers_cover :: "PageDependencyTable \<Rightarrow> PageDependencies \<Rightarrow> bool" where
  "frontiers_cover t required = is_satisfied_by required (dt_durable_wal t) (dt_durable_undo t)"

datatype DepIoError = Dep_Poisoned PageDependencyError | Dep_WouldBlock | Dep_Inner

definition checked_requirements ::
  "(PageKey \<Rightarrow> u64) \<Rightarrow> PageDependencyTable \<Rightarrow> PageKey \<Rightarrow> DepIoError + PageDependencies" where
  "checked_requirements hash t key =
     rbind (map_err Dep_Poisoned (dep_requirements hash t key)) (\<lambda>required.
     if \<not> is_satisfied_by required (dt_durable_wal t) (dt_durable_undo t) then Inl Dep_WouldBlock
     else Inr required)"

definition advance_wal :: "Lsn \<Rightarrow> PageDependencyTable \<Rightarrow> PageDependencyTable" where
  "advance_wal durable t = t\<lparr>dt_durable_wal := max (dt_durable_wal t) durable\<rparr>"

definition advance_undo :: "VersionId \<Rightarrow> PageDependencyTable \<Rightarrow> PageDependencyTable" where
  "advance_undo durable t = t\<lparr>dt_durable_undo := max (dt_durable_undo t) durable\<rparr>"

definition dep_durable_undo :: "PageDependencyTable \<Rightarrow> VersionId option" where
  "dep_durable_undo t = (if dt_durable_undo t \<noteq> 0 then Some (dt_durable_undo t) else None)"

definition is_eligible :: "(PageKey \<Rightarrow> u64) \<Rightarrow> PageDependencyTable \<Rightarrow> PageKey \<Rightarrow> PageDependencyError + bool" where
  "is_eligible hash t key =
     rbind (dep_requirements hash t key) (\<lambda>required.
     Inr (is_satisfied_by required (dt_durable_wal t) (dt_durable_undo t)))"

text \<open>The decorated device: \<open>inner\<close> is the wrapped device's write.\<close>

definition checked_write_page ::
  "(PageKey \<Rightarrow> u64) \<Rightarrow> PageDependencyTable \<Rightarrow> (PageKey \<Rightarrow> bytes \<Rightarrow> 'dev \<Rightarrow> bool \<times> 'dev) \<Rightarrow> PageKey \<Rightarrow> bytes \<Rightarrow> 'dev \<Rightarrow>
     (DepIoError + unit) \<times> 'dev" where
  "checked_write_page hash t inner key source dev =
     (case checked_requirements hash t key of
        Inl e \<Rightarrow> (Inl e, dev)
      | Inr _ \<Rightarrow> (case inner key source dev of (ok, dev') \<Rightarrow> (if ok then Inr () else Inl Dep_Inner, dev')))"

section \<open>Merging is a join\<close>

lemma pd_merged_satisfied [simp]:
  "is_satisfied_by (pd_merged a b) w u \<longleftrightarrow> is_satisfied_by a w u \<and> is_satisfied_by b w u"
  by (auto simp: is_satisfied_by_def pd_merged_def split: option.splits)

lemma pd_merged_commute: "pd_merged a b = pd_merged b a"
  by (auto simp: pd_merged_def max.commute split: option.splits)

lemma pd_merged_assoc: "pd_merged (pd_merged a b) c = pd_merged a (pd_merged b c)"
  by (auto simp: pd_merged_def max.assoc split: option.splits)

lemma pd_merged_idem [simp]: "pd_merged a a = a"
  by (cases a) (auto simp: pd_merged_def split: option.splits)

lemma pd_merged_none [simp]: "pd_merged pd_none a = a" "pd_merged a pd_none = a"
  by (cases a; auto simp: pd_merged_def pd_none_def split: option.splits)+

section \<open>Histories\<close>

datatype DepCall = Call_merge PageKey PageDependencies | Call_advance_wal Lsn | Call_advance_undo VersionId

fun dep_call :: "(PageKey \<Rightarrow> u64) \<Rightarrow> DepCall \<Rightarrow> PageDependencyTable \<Rightarrow> PageDependencyTable" where
  "dep_call hash (Call_merge key required) t = snd (dep_merge hash key required t)"
| "dep_call hash (Call_advance_wal durable) t = advance_wal durable t"
| "dep_call hash (Call_advance_undo durable) t = advance_undo durable t"

definition dep_run :: "(PageKey \<Rightarrow> u64) \<Rightarrow> DepCall list \<Rightarrow> PageDependencyTable" where
  "dep_run hash cs = fold (dep_call hash) cs dep_new"

abbreviation dep_required :: "(PageKey \<Rightarrow> u64) \<Rightarrow> PageDependencyTable \<Rightarrow> PageKey \<Rightarrow> PageDependencies" where
  "dep_required hash t key \<equiv> unwrap_or_default (sm_get (dependency_shard hash) (dt_shards t) key)"

text \<open>What a history requires of a page, and the highest frontiers it announced.\<close>

fun required_of :: "PageKey \<Rightarrow> DepCall list \<Rightarrow> PageDependencies" where
  "required_of key [] = pd_none"
| "required_of key (c # cs) =
     (case c of Call_merge k d \<Rightarrow> (if k = key then pd_merged d (required_of key cs) else required_of key cs)
      | _ \<Rightarrow> required_of key cs)"

lemma dep_merge_required:
  "\<not> sm_poisoned (dependency_shard hash) (dt_shards t) key' \<Longrightarrow>
   dep_required hash (snd (dep_merge hash key' d t)) key =
     (if key = key' then pd_merged (dep_required hash t key) d else dep_required hash t key)"
  by (auto simp: dep_merge_def Let_def sm_poisoned_def sm_get_def sm_set_def unwrap_or_default_def)

lemma dep_call_poisoned [simp]: "poisoned (dt_shards (dep_call hash c t) i) = poisoned (dt_shards t i)"
  by (cases c) (auto simp: dep_merge_def Let_def sm_set_def advance_wal_def advance_undo_def)

lemma dep_fold_unpoisoned: "poisoned (dt_shards (fold (dep_call hash) cs t) i) = poisoned (dt_shards t i)"
  by (induction cs arbitrary: t) auto

lemma dep_fold_required:
  assumes "\<forall>i. \<not> poisoned (dt_shards t i)"
  shows "dep_required hash (fold (dep_call hash) cs t) key = pd_merged (dep_required hash t key) (required_of key cs)"
  using assms
proof (induction cs arbitrary: t)
  case (Cons c cs)
  have "\<forall>i. \<not> poisoned (dt_shards (dep_call hash c t) i)" using Cons.prems by simp
  note IH = Cons.IH [OF this]
  show ?case
  proof (cases c)
    case (Call_merge k d)
    then have "dep_required hash (dep_call hash c t) key =
        (if key = k then pd_merged (dep_required hash t key) d else dep_required hash t key)"
      using dep_merge_required [of hash t k d key] Cons.prems by (simp add: sm_poisoned_def)
    then show ?thesis using IH Call_merge by (auto simp: pd_merged_assoc)
  qed (use IH in \<open>simp_all add: advance_wal_def advance_undo_def\<close>)
qed simp

lemma dep_run_unpoisoned [simp]: "\<not> poisoned (dt_shards (dep_run hash cs) i)"
  by (simp add: dep_run_def dep_fold_unpoisoned dep_new_def)

lemma dep_run_requirements: "dep_requirements hash (dep_run hash cs) key = Inr (required_of key cs)"
proof -
  have "\<forall>i. \<not> poisoned (dt_shards dep_new i)" by (simp add: dep_new_def)
  then have "dep_required hash (dep_run hash cs) key = required_of key cs"
    unfolding dep_run_def by (subst dep_fold_required) (simp_all add: dep_new_def unwrap_or_default_def)
  then show ?thesis by (simp add: dep_requirements_def Let_def sm_get_def)
qed

fun call_covered :: "PageKey \<Rightarrow> Lsn \<Rightarrow> u64 \<Rightarrow> DepCall \<Rightarrow> bool" where
  "call_covered key w u (Call_merge k d) = (if k = key then is_satisfied_by d w u else True)"
| "call_covered key w u (Call_advance_wal durable) = True"
| "call_covered key w u (Call_advance_undo durable) = True"

fun announced_wal :: "DepCall list \<Rightarrow> Lsn" where
  "announced_wal [] = 0"
| "announced_wal (Call_advance_wal d # cs) = max d (announced_wal cs)"
| "announced_wal (c # cs) = announced_wal cs"

fun announced_undo :: "DepCall list \<Rightarrow> VersionId" where
  "announced_undo [] = 0"
| "announced_undo (Call_advance_undo d # cs) = max d (announced_undo cs)"
| "announced_undo (c # cs) = announced_undo cs"

lemma satisfied_none [simp]: "is_satisfied_by pd_none w u"
  by (simp add: is_satisfied_by_def pd_none_def)

lemma required_of_satisfied: "is_satisfied_by (required_of key cs) w u \<longleftrightarrow> list_all (call_covered key w u) cs"
proof (induction cs)
  case (Cons c cs)
  then show ?case by (cases c) auto
qed simp

lemma dep_fold_frontiers:
  "dt_durable_wal (fold (dep_call hash) cs t) = max (dt_durable_wal t) (announced_wal cs)"
  "dt_durable_undo (fold (dep_call hash) cs t) = max (dt_durable_undo t) (announced_undo cs)"
proof (induction cs arbitrary: t)
  case (Cons c cs)
  case 1 show ?case using Cons by (cases c) (auto simp: dep_merge_def Let_def advance_wal_def advance_undo_def max.assoc)
  case 2 show ?case using Cons by (cases c) (auto simp: dep_merge_def Let_def advance_wal_def advance_undo_def max.assoc)
qed simp_all

section \<open>Properties\<close>

text \<open>
  C16.  The write-ahead rule: after any history of merged requirements and frontier advances, a page
  write reaches the device exactly when every requirement ever merged into that page is covered by
  the highest durable log position and undo version announced; otherwise the device is untouched.
\<close>
theorem write_ahead_rule:
  "checked_write_page hash (dep_run hash cs) inner key source dev =
    (if list_all (call_covered key (announced_wal cs) (announced_undo cs)) cs
     then (case inner key source dev of (ok, dev') \<Rightarrow> (if ok then Inr () else Inl Dep_Inner, dev'))
     else (Inl Dep_WouldBlock, dev))"
proof -
  have "dt_durable_wal (dep_run hash cs) = announced_wal cs" "dt_durable_undo (dep_run hash cs) = announced_undo cs"
    by (simp_all add: dep_run_def dep_fold_frontiers dep_new_def)
  then show ?thesis
    by (simp add: checked_write_page_def checked_requirements_def dep_run_requirements required_of_satisfied)
qed

end
