(* ===== verification/Translation.thy ===== *)
theory Translation
  imports Sharded_Map Ids
begin

text \<open>
  Model of \<open>crates/seerdb/src/vnext/translation.rs\<close>: the sharded table from logical pages to exact
  frame incarnations, with the source's mixing of a key into a shard number.
\<close>

datatype TranslationError = TranslationError

datatype PublishResult = Published | Existing FrameRef

record TranslationTable =
  tt_shards :: "(PageKey, FrameRef) shards"
  tt_mask :: u64

definition DEFAULT_SHARDS :: nat where "DEFAULT_SHARDS = 64"

text \<open>A shard count that is not a power of two panics.\<close>

definition is_power_of_two :: "nat \<Rightarrow> bool" where
  "is_power_of_two n \<longleftrightarrow> list_ex (\<lambda>k. n = 2 ^ k) [0..<64]"

definition with_shards :: "nat \<Rightarrow> TranslationTable option" where
  "with_shards shard_count =
     (if \<not> is_power_of_two shard_count then None
      else Some \<lparr>tt_shards = sm_new, tt_mask = of_nat (shard_count - 1)\<rparr>)"

definition rotate_left :: "nat \<Rightarrow> u64 \<Rightarrow> u64" where
  "rotate_left n w = push_bit n w OR drop_bit (64 - n) w"

definition translation_shard :: "u64 \<Rightarrow> PageKey \<Rightarrow> nat" where
  "translation_shard shard_mask key =
     (let v0 = pk_object key XOR rotate_left 29 (pk_page key);
          v1 = v0 XOR drop_bit 33 v0;
          v2 = v1 * 0xff51afd7ed558ccd;
          v3 = v2 XOR drop_bit 33 v2
      in unat (v3 AND shard_mask))"

definition translation_get :: "TranslationTable \<Rightarrow> PageKey \<Rightarrow> TranslationError + FrameRef option" where
  "translation_get t key =
     (let shard = translation_shard (tt_mask t) key in
      if poisoned (tt_shards t shard) then Inl TranslationError else Inr (entries (tt_shards t shard) key))"

definition publish_if_absent ::
  "PageKey \<Rightarrow> FrameRef \<Rightarrow> TranslationTable \<Rightarrow> (TranslationError + PublishResult) \<times> TranslationTable" where
  "publish_if_absent key frame t =
     (let shard = translation_shard (tt_mask t) key in
      if poisoned (tt_shards t shard) then (Inl TranslationError, t)
      else case entries (tt_shards t shard) key of
        None \<Rightarrow> (Inr Published,
          t\<lparr>tt_shards := sm_set (translation_shard (tt_mask t)) key (Some frame) (tt_shards t)\<rparr>)
      | Some existing \<Rightarrow> (Inr (Existing existing), t))"

definition remove_if :: "PageKey \<Rightarrow> FrameRef \<Rightarrow> TranslationTable \<Rightarrow> (TranslationError + bool) \<times> TranslationTable" where
  "remove_if key expected t =
     (let shard = translation_shard (tt_mask t) key in
      if poisoned (tt_shards t shard) then (Inl TranslationError, t)
      else if entries (tt_shards t shard) key = Some expected
      then (Inr True, t\<lparr>tt_shards := sm_set (translation_shard (tt_mask t)) key None (tt_shards t)\<rparr>)
      else (Inr False, t))"

fun shard_count_fold :: "(PageKey, FrameRef) shard list \<Rightarrow> nat \<Rightarrow> TranslationError + nat" where
  "shard_count_fold [] n = Inr n"
| "shard_count_fold (s # ss) n =
     (if poisoned s then Inl TranslationError else shard_count_fold ss (n + card (dom (entries s))))"

definition translation_len :: "TranslationTable \<Rightarrow> TranslationError + nat" where
  "translation_len t = shard_count_fold (map (tt_shards t) [0..<unat (tt_mask t) + 1]) 0"

definition translation_is_empty :: "TranslationTable \<Rightarrow> TranslationError + bool" where
  "translation_is_empty t = rbind (translation_len t) (\<lambda>n. Inr (n = 0))"

section \<open>Shards\<close>

lemma is_power_of_two_iff: "is_power_of_two n \<longleftrightarrow> (\<exists>k<64. n = 2 ^ k)"
  by (auto simp: is_power_of_two_def list_ex_iff)

lemma and_mask_less: "unat (w AND m) \<le> unat (m :: u64)"
  by (metis and.commute word_and_le1 word_le_nat_alt)

lemma with_shards_mask:
  assumes "with_shards n = Some t"
  shows "unat (tt_mask t) + 1 = n \<and> tt_shards t = sm_new"
proof -
  obtain k where k: "k < 64" "n = 2 ^ k" using assms by (auto simp: with_shards_def is_power_of_two_iff split: if_splits)
  have "(2 :: nat) ^ k < 2 ^ 64" using k(1) by (rule power_strict_increasing) simp
  then have "2 ^ k - 1 < (2 :: nat) ^ 64" by simp
  then have "unat (of_nat (2 ^ k - 1) :: u64) = 2 ^ k - 1" by (simp only: unat_of_nat take_bit_eq_mod) simp
  then show ?thesis using assms k(2) by (auto simp: with_shards_def split: if_splits)
qed

lemma translation_shard_bound: "translation_shard m key < unat m + 1"
  using and_mask_less by (simp add: translation_shard_def Let_def less_Suc_eq_le)

section \<open>Refinement of one map\<close>

datatype TranslationCall = Call_publish PageKey FrameRef | Call_remove PageKey FrameRef

fun translation_call :: "TranslationCall \<Rightarrow> TranslationTable \<Rightarrow> TranslationTable" where
  "translation_call (Call_publish key frame) t = snd (publish_if_absent key frame t)"
| "translation_call (Call_remove key expected) t = snd (remove_if key expected t)"

text \<open>The abstract map: a page has at most one frame, taken by the first claim until exactly it is removed.\<close>

fun map_call :: "TranslationCall \<Rightarrow> (PageKey \<rightharpoonup> FrameRef) \<Rightarrow> (PageKey \<rightharpoonup> FrameRef)" where
  "map_call (Call_publish key frame) m = (if m key = None then m(key \<mapsto> frame) else m)"
| "map_call (Call_remove key expected) m = (if m key = Some expected then m(key := None) else m)"

definition translation_abs :: "TranslationTable \<Rightarrow> (PageKey \<rightharpoonup> FrameRef)" where
  "translation_abs t = sm_get (translation_shard (tt_mask t)) (tt_shards t)"

definition translation_inv :: "TranslationTable \<Rightarrow> bool" where
  "translation_inv t \<longleftrightarrow> sm_placed (translation_shard (tt_mask t)) (tt_shards t) \<and>
     (\<forall>i. \<not> poisoned (tt_shards t i) \<and> finite (dom (entries (tt_shards t i))))"

lemma sm_set_entries:
  "(\<forall>i. \<not> poisoned (t i) \<and> finite (dom (entries (t i)))) \<Longrightarrow>
   \<not> poisoned (sm_set sh k v t i) \<and> finite (dom (entries (sm_set sh k v t i)))"
  by (cases v) (auto simp: sm_set_def)

lemma translation_call_inv:
  assumes "translation_inv t"
  shows "translation_inv (translation_call c t)" "tt_mask (translation_call c t) = tt_mask t"
    "translation_abs (translation_call c t) = map_call c (translation_abs t)"
proof -
  have ok: "sm_placed (translation_shard (tt_mask t)) (tt_shards t)"
    "\<forall>i. \<not> poisoned (tt_shards t i) \<and> finite (dom (entries (tt_shards t i)))"
    using assms by (auto simp: translation_inv_def)
  show "translation_inv (translation_call c t)"
    by (cases c) (auto simp: translation_inv_def publish_if_absent_def remove_if_def Let_def ok
        sm_set_entries [OF ok(2)] split: option.splits)
  show "tt_mask (translation_call c t) = tt_mask t"
    by (cases c) (auto simp: publish_if_absent_def remove_if_def Let_def split: option.splits)
  show "translation_abs (translation_call c t) = map_call c (translation_abs t)"
    using ok(2) by (cases c) (auto simp: translation_abs_def publish_if_absent_def remove_if_def Let_def
        sm_get_set_fun sm_get_def [symmetric] split: option.splits)
qed

lemma translation_run_inv:
  "translation_inv t \<Longrightarrow> translation_inv (fold translation_call cs t) \<and>
     tt_mask (fold translation_call cs t) = tt_mask t \<and>
     translation_abs (fold translation_call cs t) = fold map_call cs (translation_abs t)"
  by (induction cs arbitrary: t) (auto simp: translation_call_inv)

lemma shard_count_fold_sum:
  "\<forall>s \<in> set ss. \<not> poisoned s \<Longrightarrow> shard_count_fold ss n = Inr (n + (\<Sum>s\<leftarrow>ss. card (dom (entries s))))"
  by (induction ss arbitrary: n) auto

lemma translation_len_inv:
  assumes "translation_inv t"
  shows "translation_len t = Inr (card (dom (translation_abs t)))"
proof -
  let ?n = "unat (tt_mask t) + 1" and ?d = "\<lambda>i. dom (entries (tt_shards t i))"
  let ?sh = "translation_shard (tt_mask t)"
  have placed: "key \<in> ?d i \<Longrightarrow> ?sh key = i" for key i
    using assms unfolding translation_inv_def sm_placed_def by blast
  have "dom (translation_abs t) = (\<Union>i\<in>{0..<?n}. ?d i)"
  proof
    show "dom (translation_abs t) \<subseteq> (\<Union>i\<in>{0..<?n}. ?d i)"
      using translation_shard_bound [of "tt_mask t"] by (fastforce simp: translation_abs_def sm_get_def)
    show "(\<Union>i\<in>{0..<?n}. ?d i) \<subseteq> dom (translation_abs t)"
      using placed by (fastforce simp: translation_abs_def sm_get_def)
  qed
  moreover have "card (\<Union>i\<in>{0..<?n}. ?d i) = (\<Sum>i\<in>{0..<?n}. card (?d i))"
    using assms placed by (intro card_UN_disjoint) (auto simp: translation_inv_def, metis domI)
  moreover have "translation_len t = Inr (\<Sum>i\<leftarrow>[0..<?n]. card (?d i))"
    using assms by (simp add: translation_len_def translation_inv_def shard_count_fold_sum o_def del: upt_Suc)
  ultimately show ?thesis by (simp add: sum_list_distinct_conv_sum_set del: upt_Suc)
qed

section \<open>Properties\<close>

text \<open>
  C35.  The sharded table is one map: for every power-of-two number of shards and every sequence of
  claims and removals, lookups agree with a single map in which a page keeps the frame of the first
  claim until a removal names exactly that frame incarnation (so a delayed eviction cannot delete a
  newer claim); every key's shard is inside the table, and \<open>len\<close> counts each claim once.
\<close>
theorem translation_refines_map:
  assumes "with_shards n = Some t0"
  shows "let t = fold translation_call cs t0 in
    translation_get t key = Inr (fold map_call cs Map.empty key) \<and>
    translation_shard (tt_mask t) key < n \<and>
    translation_len t = Inr (card (dom (fold map_call cs Map.empty)))"
proof -
  have t0: "unat (tt_mask t0) + 1 = n" "tt_shards t0 = sm_new" using with_shards_mask [OF assms] by auto
  have inv: "translation_inv t0" by (simp add: translation_inv_def t0 sm_new_def sm_placed_def)
  have abs0: "translation_abs t0 = Map.empty" by (simp add: translation_abs_def t0)
  let ?t = "fold translation_call cs t0"
  have run: "translation_inv ?t" "tt_mask ?t = tt_mask t0" "translation_abs ?t = fold map_call cs Map.empty"
    using translation_run_inv [OF inv, of cs] abs0 by simp_all
  have "translation_get ?t key = Inr (translation_abs ?t key)"
    using run(1) by (simp add: translation_get_def translation_inv_def translation_abs_def sm_get_def Let_def)
  moreover have "translation_shard (tt_mask ?t) key < n"
    using translation_shard_bound [of "tt_mask t0" key] t0(1) run(2) by simp
  ultimately show ?thesis using translation_len_inv [OF run(1)] by (simp add: run(3) Let_def)
qed

theorem translation_refines_map_witness:
  "let key = \<lparr>pk_object = 3, pk_page = 9\<rparr>; a = \<lparr>fr_frame = 1, fr_incarnation = 1\<rparr>; b = \<lparr>fr_frame = 2, fr_incarnation = 5\<rparr>;
       t = fold translation_call [Call_publish key a, Call_publish key b, Call_remove key b]
         (the (with_shards 64))
   in translation_get t key = Inr (Some a)"
proof -
  let ?key = "\<lparr>pk_object = 3, pk_page = 9\<rparr>" and ?a = "\<lparr>fr_frame = 1, fr_incarnation = 1\<rparr>"
    and ?b = "\<lparr>fr_frame = 2, fr_incarnation = 5\<rparr>"
  let ?cs = "[Call_publish ?key ?a, Call_publish ?key ?b, Call_remove ?key ?b]"
  have "with_shards 64 \<noteq> None" by code_simp
  then have "with_shards 64 = Some (the (with_shards 64))" by simp
  from translation_refines_map [OF this, of ?cs ?key] show ?thesis by (simp add: Let_def)
qed

end
