(* ===== verification/Byte_Buffer.thy ===== *)
theory Byte_Buffer
  imports Prelude
begin

text \<open>
  Mutable byte buffers: reading a sub-slice, overwriting a sub-slice in place, and what a read
  sees after a write.  A write outside the buffer panics in the source; here it is \<open>None\<close>.
  The second part is about sorted key sequences: the lower bound that a binary search computes and
  the list updates at that position.
\<close>

named_theorems buf_simps \<open>reads over writes in a byte buffer\<close>

section \<open>Slices and writes\<close>

definition slice :: "'a list \<Rightarrow> nat \<Rightarrow> nat \<Rightarrow> 'a list" where
  "slice d o1 n = take n (drop o1 d)"

definition put :: "'a list \<Rightarrow> nat \<Rightarrow> 'a list \<Rightarrow> 'a list" where
  "put d o1 s = take o1 d @ s @ drop (o1 + length s) d"

text \<open>\<open>data[start..start + len].copy_from_slice(source)\<close>, which panics out of range.\<close>

definition copy_from_slice :: "'a list \<Rightarrow> nat \<Rightarrow> 'a list \<Rightarrow> 'a list option" where
  "copy_from_slice d start source =
     (if start + length source \<le> length d then Some (put d start source) else None)"

text \<open>\<open>data.copy_within(from..to, dest)\<close>.\<close>

definition copy_within :: "'a list \<Rightarrow> nat \<Rightarrow> nat \<Rightarrow> nat \<Rightarrow> 'a list option" where
  "copy_within d start end dest =
     (case get_range d start end of
        None \<Rightarrow> None
      | Some source \<Rightarrow> copy_from_slice d dest source)"

text \<open>\<open>start.checked_add(len)\<close> followed by a range \<open>get\<close>.\<close>

definition checked_slice :: "'a list \<Rightarrow> nat \<Rightarrow> nat \<Rightarrow> 'a list option" where
  "checked_slice d start len =
     (case checked_add_usize start len of None \<Rightarrow> None | Some e \<Rightarrow> get_range d start e)"

definition checked_mul_usize :: "nat \<Rightarrow> nat \<Rightarrow> nat option" where
  "checked_mul_usize a b = (if a * b < 2 ^ 64 then Some (a * b) else None)"

definition checked_sub_usize :: "nat \<Rightarrow> nat \<Rightarrow> nat option" where
  "checked_sub_usize a b = (if b \<le> a then Some (a - b) else None)"

definition u16_try_from :: "nat \<Rightarrow> u16 option" where
  "u16_try_from n = (if n < 2 ^ 16 then Some (of_nat n) else None)"

lemma length_slice: "o1 + n \<le> length d \<Longrightarrow> length (slice d o1 n) = n"
  by (simp add: slice_def)

lemma length_slice_min: "length (slice d o1 n) = min n (length d - o1)"
  by (simp add: slice_def)

lemma slice_zero [simp]: "slice d o1 0 = []"
  by (simp add: slice_def)

lemma nth_slice: "i < n \<Longrightarrow> o1 + n \<le> length d \<Longrightarrow> slice d o1 n ! i = d ! (o1 + i)"
  by (simp add: slice_def)

lemma slice_eqI:
  assumes "o1 + n \<le> length d" and "o2 + n \<le> length e"
    and "\<And>i. i < n \<Longrightarrow> d ! (o1 + i) = e ! (o2 + i)"
  shows "slice d o1 n = slice e o2 n"
  using assms by (intro nth_equalityI) (simp_all add: length_slice nth_slice)

lemma slice_append_split: "slice d o1 (m + n) = slice d o1 m @ slice d (o1 + m) n"
  by (simp add: slice_def take_add add.commute)

lemma slice_slice: "a + b \<le> n \<Longrightarrow> slice (slice d o1 n) a b = slice d (o1 + a) b"
  by (simp add: slice_def drop_take min_def add.commute)

lemma slice_sub:
  assumes "slice d o1 n = xs" and "a + b \<le> n"
  shows "slice d (o1 + a) b = take b (drop a xs)"
  using slice_slice [OF assms(2), of d o1] assms(1) by (simp add: slice_def)

lemma length_put [simp, buf_simps]: "o1 + length s \<le> length d \<Longrightarrow> length (put d o1 s) = length d"
  by (simp add: put_def)

lemma nth_put:
  assumes "o1 + length s \<le> length d" and "i < length d"
  shows "put d o1 s ! i = (if o1 \<le> i \<and> i < o1 + length s then s ! (i - o1) else d ! i)"
  using assms by (auto simp: put_def nth_append min_def)

lemma nth_put_other [buf_simps]:
  "o1 + length s \<le> length d \<Longrightarrow> i < length d \<Longrightarrow> i < o1 \<or> o1 + length s \<le> i \<Longrightarrow>
     put d o1 s ! i = d ! i"
  by (auto simp: nth_put)

lemma slice_put_same [buf_simps]:
  "o1 + length s \<le> length d \<Longrightarrow> n = length s \<Longrightarrow> slice (put d o1 s) o1 n = s"
  by (simp add: put_def slice_def)

lemma slice_put_other [buf_simps]:
  assumes "o1 + length s \<le> length d" and "p + n \<le> length d"
    and "p + n \<le> o1 \<or> o1 + length s \<le> p"
  shows "slice (put d o1 s) p n = slice d p n"
  using assms by (intro slice_eqI) (auto simp: nth_put)

lemma slice_put_inside [buf_simps]:
  assumes "o1 + length s \<le> length d" and "o1 \<le> p" and "p + n \<le> o1 + length s"
  shows "slice (put d o1 s) p n = slice s (p - o1) n"
  using assms by (intro slice_eqI) (auto simp: nth_put)

lemma slice_slice_inside [buf_simps]:
  "a + b \<le> n \<Longrightarrow> slice (slice d p n) a b = slice d (p + a) b"
  by (rule slice_slice)

lemma put_Nil [simp]: "put d o1 [] = d"
  by (simp add: put_def)

lemma get_range_slice: "get_range d s e = (if s \<le> e \<and> e \<le> length d then Some (slice d s (e - s)) else None)"
  by (simp add: get_range_def slice_def)

lemma copy_from_slice_eq_Some [simp]:
  "copy_from_slice d o1 s = Some e \<longleftrightarrow> o1 + length s \<le> length d \<and> e = put d o1 s"
  by (auto simp: copy_from_slice_def)

lemma copy_from_slice_ok [simp]:
  "o1 + length s \<le> length d \<Longrightarrow> copy_from_slice d o1 s = Some (put d o1 s)"
  by (simp add: copy_from_slice_def)

lemma copy_within_ok:
  "start \<le> end \<Longrightarrow> end \<le> length d \<Longrightarrow> dest + (end - start) \<le> length d \<Longrightarrow>
     copy_within d start end dest = Some (put d dest (slice d start (end - start)))"
  by (simp add: copy_within_def get_range_slice length_slice)

lemma checked_slice_ok [simp]:
  "length d < 2 ^ 64 \<Longrightarrow> start + len \<le> length d \<Longrightarrow> checked_slice d start len = Some (slice d start len)"
  by (simp add: checked_slice_def get_range_slice)

lemma checked_slice_eq_Some:
  "checked_slice d start len = Some s \<longleftrightarrow>
     start + len < 2 ^ 64 \<and> start + len \<le> length d \<and> s = slice d start len"
  by (auto simp: checked_slice_def checked_add_usize_def get_range_slice)

lemma read_u16_slice:
  "o1 + 2 \<le> length d \<Longrightarrow> length d < 2 ^ 64 \<Longrightarrow> read_u16 d o1 = Some (of_le_bytes (slice d o1 2))"
  by (simp add: read_u16_eq slice_def)

lemma read_u32_slice:
  "o1 + 4 \<le> length d \<Longrightarrow> length d < 2 ^ 64 \<Longrightarrow> read_u32 d o1 = Some (of_le_bytes (slice d o1 4))"
  by (simp add: read_u32_eq slice_def)

lemma read_u64_slice:
  "o1 + 8 \<le> length d \<Longrightarrow> length d < 2 ^ 64 \<Longrightarrow> read_u64 d o1 = Some (of_le_bytes (slice d o1 8))"
  by (simp add: read_u64_eq slice_def)

lemmas read_slice = read_u16_slice read_u32_slice read_u64_slice

section \<open>Operations on a mutable buffer\<close>

text \<open>
  An operation on a mutable state returns its result and the state it leaves; the state survives
  an error, as the borrowed buffer of the source does when an operation returns early.
\<close>

definition sreturn :: "'a \<Rightarrow> 's \<Rightarrow> ('e + 'a) \<times> 's" where
  "sreturn x s = (Inr x, s)"

definition sfail :: "'e \<Rightarrow> 's \<Rightarrow> ('e + 'a) \<times> 's" where
  "sfail e s = (Inl e, s)"

definition sbind :: "('s \<Rightarrow> ('e + 'a) \<times> 's) \<Rightarrow> ('a \<Rightarrow> 's \<Rightarrow> ('e + 'b) \<times> 's) \<Rightarrow> 's \<Rightarrow> ('e + 'b) \<times> 's" where
  "sbind m f s = (case m s of (Inl e, s') \<Rightarrow> (Inl e, s') | (Inr x, s') \<Rightarrow> f x s')"

text \<open>A computation that only reads.\<close>

definition slift :: "'e + 'a \<Rightarrow> 's \<Rightarrow> ('e + 'a) \<times> 's" where
  "slift r s = (r, s)"

definition sget :: "('s \<Rightarrow> 'e + 'a) \<Rightarrow> 's \<Rightarrow> ('e + 'a) \<times> 's" where
  "sget f s = (f s, s)"

lemma state_op_simps [simp]:
  "sreturn x s = (Inr x, s)"
  "sfail e s = (Inl e, s)"
  "slift r s = (r, s)"
  "sget g s = (g s, s)"
  by (simp_all add: sreturn_def sfail_def slift_def sget_def)

lemma sbind_Inr: "m s = (Inr x, s') \<Longrightarrow> sbind m f s = f x s'"
  by (simp add: sbind_def)

lemma sbind_Inl: "m s = (Inl e, s') \<Longrightarrow> sbind m f s = (Inl e, s')"
  by (simp add: sbind_def)

lemma sbind_state_op [simp]:
  "sbind (sreturn x) f s = f x s"
  "sbind (sfail e) f s = (Inl e, s)"
  "sbind (slift (Inr x)) f s = f x s"
  "sbind (slift (Inl e)) f s = (Inl e, s)"
  by (simp_all add: sbind_def)

lemma sbind_sget: "sbind (sget g) f s = (case g s of Inl e \<Rightarrow> (Inl e, s) | Inr x \<Rightarrow> f x s)"
  by (simp add: sbind_def split: sum.splits)

lemma sbind_assoc: "sbind (sbind m f) g = sbind m (\<lambda>x. sbind (f x) g)"
  by (rule ext) (simp add: sbind_def split: sum.splits prod.splits)

lemma sbind_cases:
  assumes "sbind m f s = (r, s')"
  obtains (err) e where "m s = (Inl e, s')" "r = Inl e"
    | (ok) x s'' where "m s = (Inr x, s'')" "f x s'' = (r, s')"
  using assms by (auto simp: sbind_def split: sum.splits prod.splits)

section \<open>Sorted keys\<close>

definition lower_bound :: "'k::linorder list \<Rightarrow> 'k \<Rightarrow> nat" where
  "lower_bound ks k = length (takeWhile (\<lambda>x. x < k) ks)"

lemma lower_bound_le [simp]: "lower_bound ks k \<le> length ks"
  by (simp add: lower_bound_def length_takeWhile_le)

lemma lower_bound_less: "i < lower_bound ks k \<Longrightarrow> ks ! i < k"
  unfolding lower_bound_def by (metis nth_mem set_takeWhileD takeWhile_nth)

lemma lower_bound_ge:
  assumes "sorted ks" and "lower_bound ks k \<le> i" and "i < length ks"
  shows "k \<le> ks ! i"
proof -
  have "k \<le> ks ! lower_bound ks k"
    using nth_length_takeWhile [of "\<lambda>x. x < k" ks] assms unfolding lower_bound_def by auto
  also have "\<dots> \<le> ks ! i" using assms by (simp add: sorted_nth_mono)
  finally show ?thesis .
qed

lemma lower_bound_unique:
  assumes "sorted ks" and "n \<le> length ks"
    and "\<And>i. i < n \<Longrightarrow> ks ! i < k" and "n < length ks \<Longrightarrow> k \<le> ks ! n"
  shows "lower_bound ks k = n"
proof (rule antisym)
  show "lower_bound ks k \<le> n"
  proof (rule ccontr)
    assume "\<not> ?thesis"
    then have "n < lower_bound ks k" by simp
    then have "ks ! n < k" and "n < length ks"
      using lower_bound_less lower_bound_le [of ks k] by (blast, linarith)
    with assms(4) show False by simp
  qed
  show "n \<le> lower_bound ks k"
    using assms lower_bound_ge [of ks k "lower_bound ks k"]
    by (metis leI le_less_trans less_irrefl less_le_trans order_refl)
qed

text \<open>What a binary search answers: the first index with the key, or the insertion index.\<close>

definition search_spec :: "'k::linorder list \<Rightarrow> 'k \<Rightarrow> nat + nat" where
  "search_spec ks k =
     (let n = lower_bound ks k in if n < length ks \<and> ks ! n = k then Inr n else Inl n)"

lemma search_spec_InrD: "search_spec ks k = Inr i \<Longrightarrow> i < length ks \<and> ks ! i = k"
  by (auto simp: search_spec_def Let_def split: if_splits)

lemma search_spec_InlD:
  assumes "sorted ks" and "search_spec ks k = Inl i"
  shows "i \<le> length ks \<and> k \<notin> set ks"
proof -
  have i: "i = lower_bound ks k" and n: "\<not> (i < length ks \<and> ks ! i = k)"
    using assms(2) by (auto simp: search_spec_def Let_def split: if_splits)
  have "ks ! j \<noteq> k" if "j < length ks" for j
  proof (cases "j < i")
    case True
    then show ?thesis using lower_bound_less [of j ks k] i by auto
  next
    case False
    have "k \<le> ks ! i" using assms(1) i False that by (intro lower_bound_ge) auto
    moreover have "ks ! i \<le> ks ! j" using assms(1) False that by (simp add: sorted_nth_mono)
    ultimately show ?thesis using n False that by auto
  qed
  then show ?thesis using i by (auto simp: in_set_conv_nth)
qed

end
