(* ===== verification/Key_Order.thy ===== *)
theory Key_Order
  imports Prelude
begin

text \<open>
  Comparison of byte-string keys and the cached four-byte key head of \<open>page_v4.rs\<close>: when two
  heads differ, they order the keys as the whole keys compare.
\<close>

datatype Ordering = Less | Equal | Greater

definition compare :: "'a::linorder \<Rightarrow> 'a \<Rightarrow> Ordering" where
  "compare a b = (if a < b then Less else if a = b then Equal else Greater)"

definition be_u32 :: "bytes \<Rightarrow> u32" where
  "be_u32 bs = of_le_bytes (rev bs)"

definition key_head :: "bytes \<Rightarrow> u32" where
  "key_head key = (let count = min (length key) 4 in be_u32 (take count key @ replicate (4 - count) 0))"

section \<open>Key heads order keys\<close>

primrec be_nat :: "bytes \<Rightarrow> nat" where
  "be_nat [] = 0"
| "be_nat (b # bs) = unat b * 256 ^ length bs + be_nat bs"

lemma unat_u8_le: "unat (b :: u8) \<le> 255"
proof -
  have "unat b < 2 ^ LENGTH(8)" by (rule unsigned_less)
  then show ?thesis by simp
qed

lemma be_nat_less: "be_nat bs < 256 ^ length bs"
proof (induction bs)
  case (Cons b bs)
  have "unat b * 256 ^ length bs \<le> 255 * 256 ^ length bs"
    using unat_u8_le by simp
  then have "unat b * 256 ^ length bs + be_nat bs < 255 * 256 ^ length bs + 256 ^ length bs"
    using Cons by (rule add_le_less_mono)
  then show ?case by simp
qed simp

lemma be_nat_append: "be_nat (xs @ ys) = be_nat xs * 256 ^ length ys + be_nat ys"
  by (induction xs) (auto simp: algebra_simps power_add)

lemma unat_of_le_bytes_Cons:
  assumes "Suc (length bs) \<le> 4"
  shows "unat (of_le_bytes (b # bs) :: u32) = unat b + 256 * unat (of_le_bytes bs :: u32)"
proof -
  let ?x = "ucast b :: u32" and ?y = "of_le_bytes bs :: u32"
  have ux: "unat ?x = unat b"
    using unat_u8_le [of b] by (simp add: unsigned_ucast_eq take_bit_nat_eq_self)
  have "?x OR push_bit 8 ?y = ?x + push_bit 8 ?y"
    by (rule disjunctive_add [symmetric])
      (auto simp: bit_simps dest: bit_imp_le_length)
  moreover have small: "unat ?y < 2 ^ (8 * length bs)"
  proof -
    have "?y = take_bit (8 * length bs) ?y"
      by (rule bit_word_eqI) (auto simp: bit_take_bit_iff bit_of_le_bytes)
    then show ?thesis
      by (metis take_bit_nat_less_exp unsigned_take_bit_eq)
  qed
  moreover have "unat (push_bit 8 ?y) = 256 * unat ?y"
  proof -
    have "unat ?y * 256 < 2 ^ (8 * length bs) * 256" using small by simp
    also have "\<dots> = 2 ^ (8 * Suc (length bs))" by (simp add: power_add)
    also have "\<dots> \<le> 2 ^ 32" using assms by (intro power_increasing) auto
    finally have "unat ?y * 256 < 2 ^ 32" .
    then show ?thesis
      by (simp add: push_bit_eq_mult unat_word_ariths mult.commute)
  qed
  moreover have "unat ?x + 256 * unat ?y < 2 ^ 32"
  proof -
    have "unat ?x \<le> 255" using unat_u8_le [of b] ux by simp
    moreover have "unat ?y < 2 ^ 24"
      using small power_increasing [of "8 * length bs" 24 "2 :: nat"] assms by linarith
    ultimately show ?thesis by simp
  qed
  ultimately show ?thesis
    using ux by (simp add: unat_word_ariths)
qed

lemma unat_be_u32:
  assumes "length bs \<le> 4"
  shows "unat (be_u32 bs) = be_nat bs"
proof -
  have "unat (of_le_bytes cs :: u32) = be_nat (rev cs)" if "length cs \<le> 4" for cs
    using that
  proof (induction cs)
    case (Cons c cs)
    then show ?case
      using unat_of_le_bytes_Cons [of cs c] by (simp add: be_nat_append del: of_le_bytes.simps)
  qed simp
  from this [of "rev bs"] assms show ?thesis by (simp add: be_u32_def)
qed

lemma be_nat_mono:
  "length xs = length ys \<Longrightarrow> be_nat xs < be_nat ys \<Longrightarrow> xs < ys"
proof (induction xs ys rule: list_induct2)
  case (Cons x xs y ys)
  show ?case
  proof (cases "x = y")
    case True
    with Cons show ?thesis by simp
  next
    case False
    have "x < y"
    proof (rule ccontr)
      assume "\<not> x < y"
      with False have "unat y + 1 \<le> unat x" by (simp add: word_less_nat_alt word_unat_eq_iff)
      then have "(unat y + 1) * 256 ^ length xs \<le> unat x * 256 ^ length xs" by (rule mult_le_mono1)
      with Cons.hyps Cons.prems be_nat_less [of ys] show False by (simp add: algebra_simps)
    qed
    then show ?thesis by simp
  qed
qed simp

definition pad :: "nat \<Rightarrow> bytes \<Rightarrow> bytes" where
  "pad n k = take n k @ replicate (n - length k) 0"

lemma pad_simps:
  "pad 0 k = []"
  "pad (Suc n) [] = 0 # pad n []"
  "pad (Suc n) (x # k) = x # pad n k"
  by (simp_all add: pad_def)

lemma length_pad [simp]: "length (pad n k) = n"
  by (simp add: pad_def)

lemma pad_less: "pad n a < pad n b \<Longrightarrow> a < b"
proof (induction n arbitrary: a b)
  case (Suc n)
  show ?case
  proof (cases a; cases b)
    fix x k assume "a = x # k" and "b = []"
    with Suc.prems have "pad n k < pad n []" by (auto simp: pad_simps)
    then have "k < []" by (rule Suc.IH)
    then show "a < b" by simp
  next
    fix x k y l assume "a = x # k" and "b = y # l"
    with Suc show "a < b" by (auto simp: pad_simps)
  qed (use Suc in \<open>auto simp: pad_simps\<close>)
qed (simp add: pad_simps)

lemma unat_key_head: "unat (key_head k) = be_nat (pad 4 k)"
proof -
  have "take (min (length k) 4) k @ replicate (4 - min (length k) 4) 0 = pad 4 k"
    by (cases "length k \<le> 4") (simp_all add: pad_def min_def)
  then show ?thesis
    unfolding key_head_def Let_def by (simp add: unat_be_u32 del: append_take_drop_id)
qed

text \<open>Different heads decide the comparison of the whole keys.\<close>

lemma key_head_less: "key_head a < key_head b \<Longrightarrow> a < b"
  by (rule pad_less [of 4], rule be_nat_mono) (simp_all add: word_less_nat_alt unat_key_head)

lemma compare_key_head: "key_head a \<noteq> key_head b \<Longrightarrow> compare (key_head a) (key_head b) = compare a b"
  using key_head_less [of a b] key_head_less [of b a] less_linear [of "key_head a" "key_head b"]
  by (auto simp: compare_def)

end
