(* ===== verification/Page_V4.thy ===== *)
theory Page_V4
  imports Byte_Buffer Key_Order Ids
begin

text \<open>
  The slotted page of the native B-link tree (\<open>vnext/btree/page_v4.rs\<close>), byte for byte: the
  64-byte header, the slot array that grows upwards from it, the entry heap that grows downwards
  from the end of the page, the cached four-byte key heads, and the high fence with its right
  sibling.  This theory holds the readers: parsing, binary search, routing, values, and the full
  validation.  \<open>Page_View\<close> relates byte strings to logical pages and \<open>Page_Build\<close> has the writers.

  A \<open>PageError\<close> carries the message of the source, because the tree dispatches on it;
  \<open>PagePanic\<close> stands for an out-of-range slice write, which panics.
\<close>

section \<open>Format\<close>

datatype PageError = PageError string | PagePanic

definition PAGE_MAGIC :: u32 where "PAGE_MAGIC = 0x4f4d4234"
definition PAGE_VERSION :: u16 where "PAGE_VERSION = 4"
definition PAGE_HEADER_SIZE :: nat where "PAGE_HEADER_SIZE = 64"
definition SLOT_SIZE :: nat where "SLOT_SIZE = 12"
definition NONE_PAGE :: u64 where "NONE_PAGE = 0xffffffffffffffff"
definition FLAG_HIGH_FENCE :: u8 where "FLAG_HIGH_FENCE = 1"
definition TAG_INLINE :: u8 where "TAG_INLINE = 0"
definition TAG_BLOB :: u8 where "TAG_BLOB = 1"
definition TAG_TOMBSTONE :: u8 where "TAG_TOMBSTONE = 2"
definition BLOB_SIZE :: nat where "BLOB_SIZE = 16"
definition U16_MAX :: nat where "U16_MAX = 65535"
definition U32_MAX :: nat where "U32_MAX = 4294967295"

lemmas page_consts [simp] =
  PAGE_HEADER_SIZE_def SLOT_SIZE_def BLOB_SIZE_def U16_MAX_def U32_MAX_def

datatype PageKind = Internal | Leaf

definition kind_byte :: "PageKind \<Rightarrow> u8" where
  "kind_byte k = (case k of Internal \<Rightarrow> 1 | Leaf \<Rightarrow> 2)"

record BlobPointer =
  bp_file_id :: u32
  bp_offset :: u64
  bp_length :: u32

definition blob_to_bytes :: "BlobPointer \<Rightarrow> bytes" where
  "blob_to_bytes b = le_bytes 4 (bp_file_id b) @ le_bytes 8 (bp_offset b) @ le_bytes 4 (bp_length b)"

datatype LeafValueOwned = LV_Inline bytes | LV_Blob BlobPointer | LV_Tombstone

record LeafEntryOwned =
  le_key :: bytes
  le_value :: LeafValueOwned

record InternalEntryOwned =
  ine_key :: bytes
  ine_child :: PageId

datatype PageValue = PV_Inline bytes | PV_Blob BlobPointer | PV_Tombstone

datatype InsertResult = Ins_Inserted | Ins_Duplicate | Ins_Full | Ins_FollowRight PageId

datatype RemoveResult = Rem_Removed | Rem_Missing | Rem_FollowRight PageId

record Slot =
  sl_offset :: nat
  sl_key_len :: nat
  sl_payload_len :: nat
  sl_head :: u32

record Header =
  h_kind :: PageKind
  h_flags :: u8
  h_count :: nat
  h_lower :: nat
  h_upper :: nat
  h_prefix_offset :: nat
  h_prefix_len :: nat
  h_high_offset :: nat
  h_high_len :: nat
  h_right_sibling :: "PageId option"
  h_leftmost_child :: "PageId option"

record PageRef =
  pr_data :: bytes
  pr_header :: Header

section \<open>Parsing\<close>

text \<open>\<open>read_u32(data, offset).ok_or(PageError(message))? as usize\<close>.\<close>

definition read_len :: "bytes \<Rightarrow> nat \<Rightarrow> string \<Rightarrow> PageError + nat" where
  "read_len data offset message = ok_or (PageError message) (map_option unat (read_u32 data offset))"

text \<open>The optional page id stored as a raw word with \<open>NONE_PAGE\<close> for absence.\<close>

definition page_option :: "u64 \<Rightarrow> PageId option" where
  "page_option raw = (if raw \<noteq> NONE_PAGE then Some raw else None)"

text \<open>The consistency checks of \<open>PageRef::parse\<close>, on the raw fields.\<close>

definition check_header :: "bytes \<Rightarrow> Header \<Rightarrow> u64 \<Rightarrow> u64 \<Rightarrow> PageError + PageRef" where
  "check_header data h right_raw leftmost_raw =
     rbind (ok_or (PageError ''slot array overflow'') (checked_mul_usize (h_count h) SLOT_SIZE)) (\<lambda>slots.
     rbind (ok_or (PageError ''slot array overflow'') (checked_add_usize PAGE_HEADER_SIZE slots)) (\<lambda>expected_lower.
     if h_lower h \<noteq> expected_lower \<or> h_lower h > h_upper h \<or> h_upper h > length data
     then Inl (PageError ''invalid page free-space bounds'')
     else let has_high = (h_flags h AND FLAG_HIGH_FENCE \<noteq> 0) in
       if has_high \<noteq> (right_raw \<noteq> NONE_PAGE)
       then Inl (PageError ''high fence and right sibling disagree'')
       else rbind (if has_high
                   then rbind (ok_or (PageError ''high fence lies outside page'')
                                 (checked_slice data (h_high_offset h) (h_high_len h))) (\<lambda>_. Inr ())
                   else if h_high_offset h \<noteq> 0 \<or> h_high_len h \<noteq> 0
                   then Inl (PageError ''unused high-fence fields are nonzero'') else Inr ()) (\<lambda>_.
       rbind (if h_prefix_len h \<noteq> 0
              then rbind (ok_or (PageError ''prefix lies outside page'')
                            (checked_slice data (h_prefix_offset h) (h_prefix_len h))) (\<lambda>_. Inr ())
              else if h_prefix_offset h \<noteq> 0
              then Inl (PageError ''unused prefix offset is nonzero'') else Inr ()) (\<lambda>_.
       if h_kind h = Leaf \<and> leftmost_raw \<noteq> NONE_PAGE
       then Inl (PageError ''leaf page has a leftmost child'')
       else if h_kind h = Internal \<and> leftmost_raw = NONE_PAGE
       then Inl (PageError ''internal page lacks a leftmost child'')
       else Inr \<lparr>pr_data = data,
                 pr_header = h\<lparr>h_right_sibling := page_option right_raw,
                               h_leftmost_child := page_option leftmost_raw\<rparr>\<rparr>))))"

definition parse_kind :: "u8 \<Rightarrow> PageError + PageKind" where
  "parse_kind b = (if b = 1 then Inr Internal else if b = 2 then Inr Leaf
                   else Inl (PageError ''invalid page kind''))"

definition page_parse :: "bytes \<Rightarrow> PageError + PageRef" where
  "page_parse data =
     (if length data < PAGE_HEADER_SIZE \<or> length data > U32_MAX
      then Inl (PageError ''page size is outside v4 bounds'')
      else if read_u32 data 0 \<noteq> Some PAGE_MAGIC \<or> read_u16 data 4 \<noteq> Some PAGE_VERSION
      then Inl (PageError ''invalid v4 page magic/version'')
      else rbind (ok_or (PageError ''missing page kind'') (get_at data 6)) (\<lambda>kind_raw.
        rbind (parse_kind kind_raw) (\<lambda>kind.
        rbind (ok_or (PageError ''missing page flags'') (get_at data 7)) (\<lambda>flags.
        rbind (read_len data 8 ''missing slot count'') (\<lambda>count.
        rbind (read_len data 12 ''missing lower bound'') (\<lambda>lower.
        rbind (read_len data 16 ''missing upper bound'') (\<lambda>upper.
        rbind (read_len data 20 ''missing prefix offset'') (\<lambda>prefix_offset.
        rbind (read_len data 24 ''missing prefix length'') (\<lambda>prefix_len.
        rbind (read_len data 28 ''missing high-fence offset'') (\<lambda>high_offset.
        rbind (read_len data 32 ''missing high-fence length'') (\<lambda>high_len.
        rbind (ok_or (PageError ''missing right sibling'') (read_u64 data 36)) (\<lambda>right_raw.
        rbind (ok_or (PageError ''missing leftmost child'') (read_u64 data 44)) (\<lambda>leftmost_raw.
        check_header data
          \<lparr>h_kind = kind, h_flags = flags, h_count = count, h_lower = lower, h_upper = upper,
           h_prefix_offset = prefix_offset, h_prefix_len = prefix_len, h_high_offset = high_offset,
           h_high_len = high_len, h_right_sibling = None, h_leftmost_child = None\<rparr>
          right_raw leftmost_raw)))))))))))))"

definition page_is_leaf :: "PageRef \<Rightarrow> bool" where
  "page_is_leaf p = (h_kind (pr_header p) = Leaf)"

definition page_count :: "PageRef \<Rightarrow> nat" where
  "page_count p = h_count (pr_header p)"

definition right_sibling :: "PageRef \<Rightarrow> PageId option" where
  "right_sibling p = h_right_sibling (pr_header p)"

definition leftmost_child :: "PageRef \<Rightarrow> PageId option" where
  "leftmost_child p = h_leftmost_child (pr_header p)"

definition high_fence :: "PageRef \<Rightarrow> PageError + bytes option" where
  "high_fence p =
     (if h_flags (pr_header p) AND FLAG_HIGH_FENCE = 0 then Inr None
      else ok_or (PageError ''high fence is malformed'')
        (map_option Some (checked_slice (pr_data p) (h_high_offset (pr_header p)) (h_high_len (pr_header p)))))"

definition page_prefix :: "PageRef \<Rightarrow> PageError + bytes" where
  "page_prefix p =
     (if h_prefix_len (pr_header p) = 0 then Inr []
      else ok_or (PageError ''prefix is malformed'')
        (checked_slice (pr_data p) (h_prefix_offset (pr_header p)) (h_prefix_len (pr_header p))))"

definition follow_right :: "PageRef \<Rightarrow> bytes \<Rightarrow> PageError + PageId option" where
  "follow_right p key =
     rbind (high_fence p) (\<lambda>fence.
       case fence of
         None \<Rightarrow> Inr None
       | Some high \<Rightarrow>
           if key \<ge> high
           then ok_or (PageError ''high fence has no right sibling'')
                  (map_option Some (h_right_sibling (pr_header p)))
           else Inr None)"

section \<open>Slots, keys and search\<close>

definition compare_concat :: "bytes \<Rightarrow> bytes \<Rightarrow> bytes \<Rightarrow> Ordering" where
  "compare_concat prefix suffix key = compare (prefix @ suffix) key"

definition page_slot :: "PageRef \<Rightarrow> nat \<Rightarrow> PageError + Slot" where
  "page_slot p index =
     (if index \<ge> h_count (pr_header p) then Inl (PageError ''slot index out of bounds'')
      else let start = PAGE_HEADER_SIZE + index * SLOT_SIZE in
        rbind (ok_or (PageError ''slot offset missing'') (read_u32 (pr_data p) start)) (\<lambda>offset.
        rbind (ok_or (PageError ''slot key length missing'') (read_u16 (pr_data p) (start + 4))) (\<lambda>key_len.
        rbind (ok_or (PageError ''slot payload length missing'') (read_u16 (pr_data p) (start + 6))) (\<lambda>payload_len.
        rbind (ok_or (PageError ''slot head missing'') (read_u32 (pr_data p) (start + 8))) (\<lambda>head.
        Inr \<lparr>sl_offset = unat offset, sl_key_len = unat key_len, sl_payload_len = unat payload_len,
             sl_head = head\<rparr>)))))"

definition starts_with :: "bytes \<Rightarrow> bytes \<Rightarrow> bool" where
  "starts_with key prefix = (take (length prefix) key = prefix)"

definition compare_key :: "PageRef \<Rightarrow> nat \<Rightarrow> bytes \<Rightarrow> PageError + Ordering" where
  "compare_key p index key =
     rbind (page_prefix p) (\<lambda>prefix.
     rbind (page_slot p index) (\<lambda>slot.
     rbind (ok_or (PageError ''key suffix exceeds page'')
              (checked_slice (pr_data p) (sl_offset slot) (sl_key_len slot))) (\<lambda>suffix.
     if starts_with key prefix \<and> sl_head slot \<noteq> key_head (drop (length prefix) key)
     then Inr (compare (sl_head slot) (key_head (drop (length prefix) key)))
     else Inr (compare_concat prefix suffix key))))"

definition full_key :: "PageRef \<Rightarrow> nat \<Rightarrow> PageError + bytes" where
  "full_key p index =
     rbind (page_prefix p) (\<lambda>prefix.
     rbind (page_slot p index) (\<lambda>slot.
     rbind (ok_or (PageError ''key suffix exceeds page'')
              (checked_slice (pr_data p) (sl_offset slot) (sl_key_len slot))) (\<lambda>suffix.
     Inr (prefix @ suffix))))"

function search_loop :: "PageRef \<Rightarrow> bytes \<Rightarrow> nat \<Rightarrow> nat \<Rightarrow> nat option \<Rightarrow> PageError + (nat + nat)" where
  "search_loop p key lo hi found =
     (if lo < hi then
        let mid = lo + (hi - lo) div 2 in
        (case compare_key p mid key of
           Inl e \<Rightarrow> Inl e
         | Inr Less \<Rightarrow> search_loop p key (mid + 1) hi found
         | Inr Equal \<Rightarrow> search_loop p key lo mid (Some mid)
         | Inr Greater \<Rightarrow> search_loop p key lo mid found)
      else Inr (case found of Some index \<Rightarrow> Inr index | None \<Rightarrow> Inl lo))"
  by pat_completeness auto
termination by (relation "measure (\<lambda>(p, key, lo, hi, found). hi - lo)") auto

declare search_loop.simps [simp del]

text \<open>\<open>Result<usize, usize>\<close>: \<open>Inr\<close> the index found, \<open>Inl\<close> the insertion index.\<close>

definition page_search :: "PageRef \<Rightarrow> bytes \<Rightarrow> PageError + (nat + nat)" where
  "page_search p key = search_loop p key 0 (h_count (pr_header p)) None"

section \<open>Routing and values\<close>

definition page_child :: "PageRef \<Rightarrow> nat \<Rightarrow> PageError + PageId" where
  "page_child p index =
     (if h_kind (pr_header p) \<noteq> Internal then Inl (PageError ''leaf page has no child pointer'')
      else rbind (page_slot p index) (\<lambda>slot.
        if sl_payload_len slot \<noteq> 8 then Inl (PageError ''internal child payload length is invalid'')
        else rbind (ok_or (PageError ''child offset overflow'')
                      (checked_add_usize (sl_offset slot) (sl_key_len slot))) (\<lambda>start.
          rbind (ok_or (PageError ''child pointer is missing'') (read_u64 (pr_data p) start)) (\<lambda>child.
          if child = NONE_PAGE then Inl (PageError ''reserved page id used as child'')
          else Inr child))))"

text \<open>The scan of \<open>child_for_key\<close> past equal separators.\<close>

function skip_equal :: "PageRef \<Rightarrow> bytes \<Rightarrow> nat \<Rightarrow> PageError + nat" where
  "skip_equal p key upper =
     (if upper < h_count (pr_header p) then
        (case compare_key p upper key of
           Inl e \<Rightarrow> Inl e
         | Inr c \<Rightarrow> if c = Equal then skip_equal p key (upper + 1) else Inr upper)
      else Inr upper)"
  by pat_completeness auto
termination by (relation "measure (\<lambda>(p, key, upper). h_count (pr_header p) - upper)") auto

declare skip_equal.simps [simp del]

definition child_for_key :: "PageRef \<Rightarrow> bytes \<Rightarrow> PageError + PageId" where
  "child_for_key p key =
     (if h_kind (pr_header p) \<noteq> Internal then Inl (PageError ''leaf page cannot route to a child'')
      else rbind (page_search p key) (\<lambda>result.
        rbind (case result of Inr index \<Rightarrow> skip_equal p key (index + 1) | Inl index \<Rightarrow> Inr index) (\<lambda>insertion.
        if insertion = 0
        then ok_or (PageError ''internal page lacks leftmost child'') (h_leftmost_child (pr_header p))
        else page_child p (insertion - 1))))"

definition decode_leaf_value :: "u8 \<Rightarrow> bytes \<Rightarrow> PageError + PageValue" where
  "decode_leaf_value tag payload =
     (if tag = TAG_INLINE then Inr (PV_Inline payload)
      else if tag = TAG_BLOB \<and> length payload = BLOB_SIZE then
        rbind (ok_or (PageError ''blob file id missing'') (read_u32 payload 0)) (\<lambda>file_id.
        rbind (ok_or (PageError ''blob offset missing'') (read_u64 payload 4)) (\<lambda>offset.
        rbind (ok_or (PageError ''blob length missing'') (read_u32 payload 12)) (\<lambda>len.
        Inr (PV_Blob \<lparr>bp_file_id = file_id, bp_offset = offset, bp_length = len\<rparr>))))
      else if tag = TAG_TOMBSTONE \<and> payload = [] then Inr PV_Tombstone
      else Inl (PageError ''invalid leaf value encoding''))"

definition page_value :: "PageRef \<Rightarrow> nat \<Rightarrow> PageError + PageValue" where
  "page_value p index =
     (if h_kind (pr_header p) \<noteq> Leaf then Inl (PageError ''internal page has no leaf value'')
      else rbind (page_slot p index) (\<lambda>slot.
        rbind (ok_or (PageError ''leaf payload offset overflow'')
                 (checked_add_usize (sl_offset slot) (sl_key_len slot))) (\<lambda>payload_start.
        rbind (ok_or (PageError ''leaf value tag is missing'') (get_at (pr_data p) payload_start)) (\<lambda>tag.
        rbind (ok_or (PageError ''leaf value exceeds page'')
                 (checked_slice (pr_data p) (payload_start + 1) (sl_payload_len slot))) (\<lambda>payload.
        decode_leaf_value tag payload)))))"

definition value_owned :: "PageValue \<Rightarrow> LeafValueOwned" where
  "value_owned v = (case v of PV_Inline b \<Rightarrow> LV_Inline b | PV_Blob q \<Rightarrow> LV_Blob q
                    | PV_Tombstone \<Rightarrow> LV_Tombstone)"

text \<open>A loop \<open>for index in 0..count\<close> that pushes one result per index.\<close>

fun collect :: "(nat \<Rightarrow> 'e + 'a) \<Rightarrow> nat list \<Rightarrow> 'e + 'a list" where
  "collect f [] = Inr []"
| "collect f (i # is) = rbind (f i) (\<lambda>x. rbind (collect f is) (\<lambda>xs. Inr (x # xs)))"

definition leaf_entries_owned :: "PageRef \<Rightarrow> PageError + LeafEntryOwned list" where
  "leaf_entries_owned p =
     (if h_kind (pr_header p) \<noteq> Leaf then Inl (PageError ''internal page has no leaf entries'')
      else collect (\<lambda>index.
        rbind (full_key p index) (\<lambda>key.
        rbind (page_value p index) (\<lambda>v.
        Inr \<lparr>le_key = key, le_value = value_owned v\<rparr>))) [0..<h_count (pr_header p)])"

definition internal_entries_owned :: "PageRef \<Rightarrow> PageError + InternalEntryOwned list" where
  "internal_entries_owned p =
     (if h_kind (pr_header p) \<noteq> Internal then Inl (PageError ''leaf page has no internal entries'')
      else collect (\<lambda>index.
        rbind (full_key p index) (\<lambda>key.
        rbind (page_child p index) (\<lambda>child.
        Inr \<lparr>ine_key = key, ine_child = child\<rparr>))) [0..<h_count (pr_header p)])"

section \<open>Validation\<close>

definition entry_length :: "PageRef \<Rightarrow> Slot \<Rightarrow> PageError + nat" where
  "entry_length p slot =
     ok_or (PageError ''entry length overflow'')
       (Option.bind (checked_add_usize (sl_key_len slot) 1) (\<lambda>len.
          if h_kind (pr_header p) = Leaf then checked_add_usize len (sl_payload_len slot)
          else checked_add_usize (sl_key_len slot) 8))"

fun validate_entries ::
    "PageRef \<Rightarrow> nat list \<Rightarrow> bytes option \<Rightarrow> (nat \<times> nat) list \<Rightarrow> PageError + (nat \<times> nat) list" where
  "validate_entries p [] previous spans = Inr spans"
| "validate_entries p (index # rest) previous spans =
     rbind (page_slot p index) (\<lambda>slot.
     rbind (entry_length p slot) (\<lambda>entry_len.
     rbind (ok_or (PageError ''entry bounds overflow'')
              (checked_add_usize (sl_offset slot) entry_len)) (\<lambda>end.
     if sl_offset slot < h_upper (pr_header p) \<or> end > length (pr_data p)
     then Inl (PageError ''entry lies outside heap'')
     else rbind (full_key p index) (\<lambda>key.
       if (case previous of None \<Rightarrow> False | Some prev \<Rightarrow> prev > key)
       then Inl (PageError ''page keys are not sorted'')
       else rbind (if h_kind (pr_header p) = Leaf
                   then rbind (page_value p index) (\<lambda>_. Inr ())
                   else rbind (page_child p index) (\<lambda>_. Inr ())) (\<lambda>_.
         validate_entries p rest (Some key) (spans @ [(sl_offset slot, end)]))))))"

text \<open>\<open>spans.windows(2).any(|pair| pair[0].1 > pair[1].0)\<close>.\<close>

fun any_overlap :: "(nat \<times> nat) list \<Rightarrow> bool" where
  "any_overlap (a # b # rest) = (snd a > fst b \<or> any_overlap (b # rest))"
| "any_overlap _ = False"

definition validate_full :: "PageRef \<Rightarrow> PageError + unit" where
  "validate_full p =
     rbind (validate_entries p [0..<h_count (pr_header p)] None []) (\<lambda>spans.
     let h = pr_header p;
         spans = (if h_prefix_len h \<noteq> 0
                  then spans @ [(h_prefix_offset h, h_prefix_offset h + h_prefix_len h)] else spans);
         spans = (if h_flags h AND FLAG_HIGH_FENCE \<noteq> 0
                  then spans @ [(h_high_offset h, h_high_offset h + h_high_len h)] else spans)
     in if any_overlap (sort spans) then Inl (PageError ''heap objects overlap'') else Inr ())"

end
