(* ===== verification/Page_View.thy ===== *)
theory Page_View
  imports Page_V4
begin

text \<open>
  The logical content of a v4 page: a fence with the right sibling, the leftmost child of an
  internal page, and a strictly sorted list of keys with their encoded bodies.  The relation
  \<open>page_rep\<close> says that a byte string holds such a page; under it every reader of \<open>Page_V4\<close> is
  computed: the binary search finds the lower bound, routing finds the last child whose separator
  is at most the key, and the entry lists decode to what was encoded.
\<close>

section \<open>What parsing accepts\<close>

definition has_high :: "Header \<Rightarrow> bool" where
  "has_high h = (h_flags h AND FLAG_HIGH_FENCE \<noteq> 0)"

definition header_ok :: "nat \<Rightarrow> Header \<Rightarrow> bool" where
  "header_ok sz h \<longleftrightarrow>
     h_lower h = 64 + 12 * h_count h \<and> h_lower h \<le> h_upper h \<and> h_upper h \<le> sz \<and>
     (has_high h \<longleftrightarrow> h_right_sibling h \<noteq> None) \<and>
     (if has_high h then h_high_offset h + h_high_len h \<le> sz
      else h_high_offset h = 0 \<and> h_high_len h = 0) \<and>
     (if h_prefix_len h \<noteq> 0 then h_prefix_offset h + h_prefix_len h \<le> sz
      else h_prefix_offset h = 0) \<and>
     (h_kind h = Leaf \<longleftrightarrow> h_leftmost_child h = None)"

definition header_at :: "bytes \<Rightarrow> Header \<Rightarrow> bool" where
  "header_at data h \<longleftrightarrow>
     64 \<le> length data \<and> length data \<le> U32_MAX \<and>
     slice data 0 4 = le_bytes 4 PAGE_MAGIC \<and> slice data 4 2 = le_bytes 2 PAGE_VERSION \<and>
     data ! 6 = kind_byte (h_kind h) \<and> data ! 7 = h_flags h \<and>
     unat (of_le_bytes (slice data 8 4) :: u32) = h_count h \<and>
     unat (of_le_bytes (slice data 12 4) :: u32) = h_lower h \<and>
     unat (of_le_bytes (slice data 16 4) :: u32) = h_upper h \<and>
     unat (of_le_bytes (slice data 20 4) :: u32) = h_prefix_offset h \<and>
     unat (of_le_bytes (slice data 24 4) :: u32) = h_prefix_len h \<and>
     unat (of_le_bytes (slice data 28 4) :: u32) = h_high_offset h \<and>
     unat (of_le_bytes (slice data 32 4) :: u32) = h_high_len h \<and>
     page_option (of_le_bytes (slice data 36 8)) = h_right_sibling h \<and>
     page_option (of_le_bytes (slice data 44 8)) = h_leftmost_child h"

lemma of_le_bytes_slice_eq:
  "o1 + 4 \<le> length d \<Longrightarrow> (of_le_bytes (slice d o1 4) = (w :: u32)) = (slice d o1 4 = le_bytes 4 w)"
  "o1 + 2 \<le> length d \<Longrightarrow> (of_le_bytes (slice d o1 2) = (v :: u16)) = (slice d o1 2 = le_bytes 2 v)"
  by (metis le_bytes_of_le_bytes_u32 length_slice of_le_bytes_u32)
    (metis le_bytes_of_le_bytes_u16 length_slice of_le_bytes_u16)

lemma page_option_eq [simp]:
  "page_option raw = None \<longleftrightarrow> raw = NONE_PAGE"
  "page_option raw = Some x \<longleftrightarrow> raw = x \<and> x \<noteq> NONE_PAGE"
  by (auto simp: page_option_def)

lemma parse_kind_Inr: "parse_kind b = Inr k \<longleftrightarrow> b = kind_byte k"
  by (cases k) (auto simp: parse_kind_def kind_byte_def)

definition with_links :: "Header \<Rightarrow> u64 \<Rightarrow> u64 \<Rightarrow> Header" where
  "with_links h right_raw leftmost_raw =
     h\<lparr>h_right_sibling := page_option right_raw, h_leftmost_child := page_option leftmost_raw\<rparr>"

lemma with_links_sel [simp]:
  "h_kind (with_links h r l) = h_kind h"
  "h_flags (with_links h r l) = h_flags h"
  "h_count (with_links h r l) = h_count h"
  "h_lower (with_links h r l) = h_lower h"
  "h_upper (with_links h r l) = h_upper h"
  "h_prefix_offset (with_links h r l) = h_prefix_offset h"
  "h_prefix_len (with_links h r l) = h_prefix_len h"
  "h_high_offset (with_links h r l) = h_high_offset h"
  "h_high_len (with_links h r l) = h_high_len h"
  "h_right_sibling (with_links h r l) = page_option r"
  "h_leftmost_child (with_links h r l) = page_option l"
  by (simp_all add: with_links_def)

lemma check_header_Inr:
  assumes "length data < 2 ^ 64" and "h_count h < 2 ^ 32"
    and "h_high_offset h < 2 ^ 32" and "h_high_len h < 2 ^ 32"
    and "h_prefix_offset h < 2 ^ 32" and "h_prefix_len h < 2 ^ 32"
  shows "check_header data h r l = Inr p \<longleftrightarrow>
           p = \<lparr>pr_data = data, pr_header = with_links h r l\<rparr> \<and> header_ok (length data) (with_links h r l)"
proof -
  have kinds: "h_kind h = Internal \<or> h_kind h = Leaf" by (cases "h_kind h") auto
  show ?thesis
    using assms kinds
    unfolding check_header_def header_ok_def has_high_def Let_def with_links_def [symmetric]
    by (auto simp: checked_mul_usize_def checked_add_usize_def checked_slice_eq_Some split: if_splits)
qed

lemma read_len_Inr:
  "off + 4 \<le> length data \<Longrightarrow> length data < 2 ^ 64 \<Longrightarrow>
     read_len data off m = Inr (unat (of_le_bytes (slice data off 4) :: u32))"
  by (simp add: read_len_def read_u32_slice)

definition raw_header :: "bytes \<Rightarrow> PageKind \<Rightarrow> Header" where
  "raw_header data kind =
     \<lparr>h_kind = kind, h_flags = data ! 7,
      h_count = unat (of_le_bytes (slice data 8 4) :: u32),
      h_lower = unat (of_le_bytes (slice data 12 4) :: u32),
      h_upper = unat (of_le_bytes (slice data 16 4) :: u32),
      h_prefix_offset = unat (of_le_bytes (slice data 20 4) :: u32),
      h_prefix_len = unat (of_le_bytes (slice data 24 4) :: u32),
      h_high_offset = unat (of_le_bytes (slice data 28 4) :: u32),
      h_high_len = unat (of_le_bytes (slice data 32 4) :: u32),
      h_right_sibling = None, h_leftmost_child = None\<rparr>"

lemma page_parse_raw:
  assumes "64 \<le> length data" and "length data \<le> U32_MAX"
    and "slice data 0 4 = le_bytes 4 PAGE_MAGIC" and "slice data 4 2 = le_bytes 2 PAGE_VERSION"
    and "data ! 6 = kind_byte kind"
  shows "page_parse data = check_header data (raw_header data kind)
           (of_le_bytes (slice data 36 8)) (of_le_bytes (slice data 44 8))"
proof -
  have k: "parse_kind (data ! 6) = Inr kind" using assms(5) by (simp add: parse_kind_Inr)
  have l: "length data < 2 ^ 64" using assms(2) by simp
  show ?thesis
    unfolding page_parse_def raw_header_def
    using assms(1-4) l k by (simp add: read_slice read_len_Inr get_at_def)
qed

lemma page_parse_reads:
  assumes "page_parse data = Inr p"
  shows "64 \<le> length data \<and> length data \<le> U32_MAX \<and>
     slice data 0 4 = le_bytes 4 PAGE_MAGIC \<and> slice data 4 2 = le_bytes 2 PAGE_VERSION \<and>
     (\<exists>kind. data ! 6 = kind_byte kind)"
proof -
  have l: "64 \<le> length data" "length data \<le> U32_MAX"
    using assms by (auto simp: page_parse_def split: if_splits)
  then have "length data < 2 ^ 64" by simp
  then have r: "read_u32 data 0 = Some (of_le_bytes (slice data 0 4))"
      "read_u16 data 4 = Some (of_le_bytes (slice data 4 2))"
    using l by (simp_all add: read_slice)
  have m: "of_le_bytes (slice data 0 4) = PAGE_MAGIC" "of_le_bytes (slice data 4 2) = PAGE_VERSION"
    using assms l r by (auto simp: page_parse_def split: if_splits)
  have "\<exists>kind. parse_kind (data ! 6) = Inr kind"
    using assms l r m by (auto simp: page_parse_def get_at_def)
  with m l show ?thesis
    using of_le_bytes_slice_eq(1) [of 0 data PAGE_MAGIC] of_le_bytes_slice_eq(2) [of 4 data PAGE_VERSION]
    by (auto simp: parse_kind_Inr)
qed

lemma page_parse_iff:
  "page_parse data = Inr p \<longleftrightarrow>
     pr_data p = data \<and> header_at data (pr_header p) \<and> header_ok (length data) (pr_header p)"
  (is "?l \<longleftrightarrow> ?r")
proof (cases "64 \<le> length data \<and> length data \<le> U32_MAX \<and>
     slice data 0 4 = le_bytes 4 PAGE_MAGIC \<and> slice data 4 2 = le_bytes 2 PAGE_VERSION \<and>
     (\<exists>kind. data ! 6 = kind_byte kind)")
  case False
  then show ?thesis
    using page_parse_reads [of data p] by (auto simp: header_at_def simp del: page_consts)
next
  case True
  then obtain kind where k: "data ! 6 = kind_byte kind" by blast
  have inj: "kind_byte a = kind_byte b \<longleftrightarrow> a = b" for a b
    by (cases a; cases b) (simp_all add: kind_byte_def)
  let ?h = "with_links (raw_header data kind) (of_le_bytes (slice data 36 8)) (of_le_bytes (slice data 44 8))"
  have b: "unat (w :: u32) < 4294967296" for w
    using unat_u32_bound [of w] by (simp del: unat_u32_bound)
  have "?l \<longleftrightarrow> p = \<lparr>pr_data = data, pr_header = ?h\<rparr> \<and> header_ok (length data) ?h"
    using True k page_parse_raw [of data kind]
    by (subst check_header_Inr [symmetric]) (simp_all add: raw_header_def b)
  also have "\<dots> \<longleftrightarrow> ?r"
  proof -
    have "header_at data h \<longleftrightarrow> h = ?h" for h
      using True k
      by (cases h) (auto simp: header_at_def raw_header_def with_links_def inj)
    then show ?thesis by (cases p) auto
  qed
  finally show ?thesis .
qed

section \<open>The logical page\<close>

record PageView =
  pv_high :: "(bytes \<times> PageId) option"
  pv_leftmost :: "PageId option"
  pv_entries :: "(bytes \<times> bytes) list"

abbreviation pv_leaf :: "PageView \<Rightarrow> bool" where
  "pv_leaf v \<equiv> pv_leftmost v = None"

abbreviation pv_keys :: "PageView \<Rightarrow> bytes list" where
  "pv_keys v \<equiv> map fst (pv_entries v)"

definition value_bytes :: "LeafValueOwned \<Rightarrow> bytes" where
  "value_bytes v = (case v of LV_Inline b \<Rightarrow> TAG_INLINE # b
                    | LV_Blob q \<Rightarrow> TAG_BLOB # blob_to_bytes q | LV_Tombstone \<Rightarrow> [TAG_TOMBSTONE])"

definition body_ok :: "bool \<Rightarrow> bytes \<Rightarrow> bool" where
  "body_ok leaf b \<longleftrightarrow>
     (if leaf then (\<exists>v. b = value_bytes v) \<and> length b \<le> Suc U16_MAX
      else (\<exists>c. c \<noteq> NONE_PAGE \<and> b = le_bytes 8 c))"

definition view_ok :: "PageView \<Rightarrow> bool" where
  "view_ok v \<longleftrightarrow> sorted_wrt (<) (pv_keys v) \<and>
     (\<forall>(k, b) \<in> set (pv_entries v). length k \<le> U16_MAX \<and> body_ok (pv_leaf v) b)"

definition entries_size :: "(bytes \<times> bytes) list \<Rightarrow> nat" where
  "entries_size es = sum_list (map (\<lambda>(k, b). length k + length b) es)"

definition heap_used :: "PageView \<Rightarrow> nat" where
  "heap_used v = (case pv_high v of None \<Rightarrow> 0 | Some (hi, r) \<Rightarrow> length hi) + entries_size (pv_entries v)"

definition slot_bytes :: "nat \<Rightarrow> nat \<Rightarrow> nat \<Rightarrow> u32 \<Rightarrow> bytes" where
  "slot_bytes off kl pl head = le_bytes 4 (of_nat off :: u32) @ le_bytes 2 (of_nat kl :: u16) @
     le_bytes 2 (of_nat pl :: u16) @ le_bytes 4 head"

definition entry_slot :: "bool \<Rightarrow> nat \<Rightarrow> bytes \<times> bytes \<Rightarrow> bytes" where
  "entry_slot leaf off e =
     slot_bytes off (length (fst e)) (length (snd e) - (if leaf then 1 else 0)) (key_head (fst e))"

definition entry_on :: "bytes \<Rightarrow> bool \<Rightarrow> nat \<Rightarrow> nat \<Rightarrow> bytes \<times> bytes \<Rightarrow> bool" where
  "entry_on data leaf off i e \<longleftrightarrow>
     off + length (fst e @ snd e) \<le> length data \<and>
     slice data (64 + 12 * i) 12 = entry_slot leaf off e \<and>
     slice data off (length (fst e @ snd e)) = fst e @ snd e"

definition entry_at :: "bytes \<Rightarrow> bool \<Rightarrow> nat \<Rightarrow> nat \<Rightarrow> bytes \<times> bytes \<Rightarrow> bool" where
  "entry_at data leaf upper i e \<longleftrightarrow> (\<exists>off \<ge> upper. entry_on data leaf off i e)"

definition high_at :: "bytes \<Rightarrow> Header \<Rightarrow> (bytes \<times> PageId) option \<Rightarrow> bool" where
  "high_at data h high \<longleftrightarrow> h_right_sibling h = map_option snd high \<and>
     (case high of None \<Rightarrow> True
      | Some (hi, r) \<Rightarrow> h_high_len h = length hi \<and> h_upper h \<le> h_high_offset h \<and>
          slice data (h_high_offset h) (length hi) = hi)"

definition view_at :: "bytes \<Rightarrow> Header \<Rightarrow> PageView \<Rightarrow> bool" where
  "view_at data h v \<longleftrightarrow>
     h_prefix_len h = 0 \<and> h_leftmost_child h = pv_leftmost v \<and> high_at data h (pv_high v) \<and>
     h_count h = length (pv_entries v) \<and>
     (\<forall>i < length (pv_entries v). entry_at data (pv_leaf v) (h_upper h) i (pv_entries v ! i)) \<and>
     heap_used v + h_upper h \<le> length data"

definition rep_at :: "bytes \<Rightarrow> Header \<Rightarrow> PageView \<Rightarrow> bool" where
  "rep_at data h v \<longleftrightarrow>
     page_parse data = Inr \<lparr>pr_data = data, pr_header = h\<rparr> \<and> view_at data h v \<and> view_ok v"

definition page_rep :: "bytes \<Rightarrow> PageView \<Rightarrow> bool" where
  "page_rep data v \<longleftrightarrow> (\<exists>h. rep_at data h v)"

lemma page_repE:
  assumes "page_rep data v"
  obtains h where "page_parse data = Inr \<lparr>pr_data = data, pr_header = h\<rparr>" "rep_at data h v"
  using assms by (auto simp: page_rep_def rep_at_def)

lemma rep_at_header:
  assumes "rep_at data h v"
  shows "header_at data h" and "header_ok (length data) h"
  using assms by (auto simp: rep_at_def page_parse_iff)

lemma rep_at_bounds:
  assumes "rep_at data h v"
  shows "h_count h = length (pv_entries v)" and "h_lower h = 64 + 12 * length (pv_entries v)"
    and "64 + 12 * length (pv_entries v) \<le> h_upper h" and "h_upper h \<le> length data"
    and "length data \<le> U32_MAX" and "h_kind h = (if pv_leaf v then Leaf else Internal)"
    and "has_high h \<longleftrightarrow> pv_high v \<noteq> None"
  using assms rep_at_header [OF assms]
  by (auto simp: rep_at_def view_at_def header_ok_def header_at_def high_at_def intro: PageKind.exhaust)

lemma length_slot_bytes [simp]: "length (slot_bytes off kl pl head) = 12"
  by (simp add: slot_bytes_def)

lemma length_entry_slot [simp]: "length (entry_slot leaf off e) = 12"
  by (simp add: entry_slot_def)

lemma length_blob_to_bytes [simp]: "length (blob_to_bytes b) = 16"
  by (simp add: blob_to_bytes_def)

lemma value_bytes_nonempty [simp]: "value_bytes v \<noteq> []"
  by (cases v) (simp_all add: value_bytes_def)

lemma le_bytes_8_nonempty [simp]: "le_bytes 8 c \<noteq> []"
  by (metis length_le_bytes list.size(3) zero_neq_numeral)

lemma body_ok_length:
  "body_ok leaf b \<Longrightarrow> 1 \<le> length b \<and> length b - (if leaf then 1 else 0) \<le> U16_MAX"
  by (auto simp: body_ok_def Suc_le_eq split: if_splits)

lemma entries_size_simps [simp]:
  "entries_size [] = 0"
  "entries_size (e # es) = length (fst e) + length (snd e) + entries_size es"
  "entries_size (es @ fs) = entries_size es + entries_size fs"
  by (simp_all add: entries_size_def case_prod_beta)

section \<open>Reading a slot\<close>

lemma page_slot_of_bytes:
  assumes "slice data (64 + 12 * i) 12 = slot_bytes off kl pl head"
    and "i < h_count h" and "64 + 12 * h_count h \<le> length data" and "length data \<le> U32_MAX"
    and "off < 2 ^ 32" and "kl < 2 ^ 16" and "pl < 2 ^ 16"
  shows "page_slot \<lparr>pr_data = data, pr_header = h\<rparr> i =
           Inr \<lparr>sl_offset = off, sl_key_len = kl, sl_payload_len = pl, sl_head = head\<rparr>"
proof -
  have l: "64 + 12 * i + 12 \<le> length data" "length data < 2 ^ 64"
    using assms(2-4) by auto
  have s: "slice data (64 + 12 * i + a) b = take b (drop a (slot_bytes off kl pl head))" if "a + b \<le> 12" for a b
    by (rule slice_sub [OF assms(1) that])
  have r: "slice data (64 + 12 * i) 4 = le_bytes 4 (of_nat off :: u32)"
    "slice data (64 + 12 * i + 4) 2 = le_bytes 2 (of_nat kl :: u16)"
    "slice data (64 + 12 * i + 6) 2 = le_bytes 2 (of_nat pl :: u16)"
    "slice data (64 + 12 * i + 8) 4 = le_bytes 4 head"
    using s [of 0 4] s [of 4 2] s [of 6 2] s [of 8 4] by (simp_all add: slot_bytes_def)
  have u: "read_u32 data (64 + 12 * i) = Some (of_nat off)"
    "read_u16 data (64 + 12 * i + 4) = Some (of_nat kl)"
    "read_u16 data (64 + 12 * i + 6) = Some (of_nat pl)"
    "read_u32 data (64 + 12 * i + 8) = Some head"
    using l r by (simp_all add: read_slice)
  have n: "unat (of_nat off :: u32) = off" "unat (of_nat kl :: u16) = kl" "unat (of_nat pl :: u16) = pl"
    using assms(5-7) by (simp_all add: unat_of_nat take_bit_nat_eq_self)
  show ?thesis
    using assms(2) u n unfolding page_slot_def
    by (simp add: Let_def mult.commute [of _ 12])
qed

section \<open>Readers on a represented page\<close>

lemma entry_on_slot:
  assumes "rep_at data h v" and "i < length (pv_entries v)"
    and "entry_on data (pv_leaf v) off i (pv_entries v ! i)"
  shows "page_slot \<lparr>pr_data = data, pr_header = h\<rparr> i = Inr \<lparr>sl_offset = off,
       sl_key_len = length (fst (pv_entries v ! i)),
       sl_payload_len = length (snd (pv_entries v ! i)) - (if pv_leaf v then 1 else 0),
       sl_head = key_head (fst (pv_entries v ! i))\<rparr>"
proof -
  let ?e = "pv_entries v ! i"
  have "?e \<in> set (pv_entries v)" using assms(2) by simp
  then have ok: "length (fst ?e) \<le> U16_MAX" "body_ok (pv_leaf v) (snd ?e)"
    using assms(1) by (auto simp: rep_at_def view_ok_def)
  show ?thesis
    using assms(2,3) rep_at_bounds [OF assms(1)] ok(1) body_ok_length [OF ok(2)]
    by (intro page_slot_of_bytes) (auto simp: entry_slot_def entry_on_def)
qed

lemma rep_entry:
  assumes "rep_at data h v" and "i < length (pv_entries v)"
  obtains off where
    "page_slot \<lparr>pr_data = data, pr_header = h\<rparr> i = Inr \<lparr>sl_offset = off,
       sl_key_len = length (fst (pv_entries v ! i)),
       sl_payload_len = length (snd (pv_entries v ! i)) - (if pv_leaf v then 1 else 0),
       sl_head = key_head (fst (pv_entries v ! i))\<rparr>"
    "h_upper h \<le> off"
    "off + (length (fst (pv_entries v ! i)) + length (snd (pv_entries v ! i))) \<le> length data"
    "slice data off (length (fst (pv_entries v ! i))) = fst (pv_entries v ! i)"
    "slice data (off + length (fst (pv_entries v ! i))) (length (snd (pv_entries v ! i))) =
       snd (pv_entries v ! i)"
proof -
  let ?e = "pv_entries v ! i"
  obtain off where off: "h_upper h \<le> off" and on: "entry_on data (pv_leaf v) off i ?e"
    using assms by (auto simp: rep_at_def view_at_def entry_at_def)
  then have s: "slice data off (length (fst ?e @ snd ?e)) = fst ?e @ snd ?e"
    by (simp add: entry_on_def)
  have "slice data off (length (fst ?e)) = fst ?e"
    "slice data (off + length (fst ?e)) (length (snd ?e)) = snd ?e"
    using slice_sub [OF s, of 0 "length (fst ?e)"] slice_sub [OF s, of "length (fst ?e)" "length (snd ?e)"]
    by simp_all
  with that [OF entry_on_slot [OF assms on] off] on show thesis by (simp add: entry_on_def)
qed

lemma rep_prefix:
  "rep_at data h v \<Longrightarrow> page_prefix \<lparr>pr_data = data, pr_header = h\<rparr> = Inr []"
  by (simp add: rep_at_def view_at_def page_prefix_def)

lemma rep_full_key:
  assumes "rep_at data h v" and "i < length (pv_entries v)"
  shows "full_key \<lparr>pr_data = data, pr_header = h\<rparr> i = Inr (pv_keys v ! i)"
proof -
  obtain off where "page_slot \<lparr>pr_data = data, pr_header = h\<rparr> i = Inr \<lparr>sl_offset = off,
       sl_key_len = length (fst (pv_entries v ! i)),
       sl_payload_len = length (snd (pv_entries v ! i)) - (if pv_leaf v then 1 else 0),
       sl_head = key_head (fst (pv_entries v ! i))\<rparr>"
    "off + (length (fst (pv_entries v ! i)) + length (snd (pv_entries v ! i))) \<le> length data"
    "slice data off (length (fst (pv_entries v ! i))) = fst (pv_entries v ! i)"
    by (rule rep_entry [OF assms])
  then show ?thesis
    using rep_prefix [OF assms(1)] rep_at_bounds(5) [OF assms(1)] assms(2)
    by (simp add: full_key_def)
qed

lemma rep_compare_key:
  assumes "rep_at data h v" and "i < length (pv_entries v)"
  shows "compare_key \<lparr>pr_data = data, pr_header = h\<rparr> i key = Inr (compare (pv_keys v ! i) key)"
proof -
  obtain off where "page_slot \<lparr>pr_data = data, pr_header = h\<rparr> i = Inr \<lparr>sl_offset = off,
       sl_key_len = length (fst (pv_entries v ! i)),
       sl_payload_len = length (snd (pv_entries v ! i)) - (if pv_leaf v then 1 else 0),
       sl_head = key_head (fst (pv_entries v ! i))\<rparr>"
    "off + (length (fst (pv_entries v ! i)) + length (snd (pv_entries v ! i))) \<le> length data"
    "slice data off (length (fst (pv_entries v ! i))) = fst (pv_entries v ! i)"
    by (rule rep_entry [OF assms])
  then show ?thesis
    using rep_prefix [OF assms(1)] rep_at_bounds(5) [OF assms(1)] assms(2)
      compare_key_head [of "fst (pv_entries v ! i)" key]
    by (auto simp: compare_key_def compare_concat_def)
qed

text \<open>The binary search, for any page on which keys compare as the list \<open>ks\<close>.\<close>

lemma compare_eq [simp]:
  "compare a b = Less \<longleftrightarrow> a < b" "compare a b = Equal \<longleftrightarrow> a = b" "compare a b = Greater \<longleftrightarrow> b < a"
  by (auto simp: compare_def)

lemma search_loop_spec:
  assumes "sorted ks" and "\<And>i. i < length ks \<Longrightarrow> compare_key p i key = Inr (compare (ks ! i) key)"
  shows "lo \<le> hi \<Longrightarrow> hi \<le> length ks \<Longrightarrow> (\<forall>i < lo. ks ! i < key) \<Longrightarrow>
     (case found of None \<Rightarrow> hi < length ks \<longrightarrow> key < ks ! hi | Some m \<Rightarrow> m = hi \<and> hi < length ks \<and> ks ! hi = key) \<Longrightarrow>
     search_loop p key lo hi found = Inr (search_spec ks key)"
proof (induction "hi - lo" arbitrary: lo hi found rule: less_induct)
  case less
  show ?case
  proof (cases "lo < hi")
    case False
    with less.prems have lo: "lo = hi" by simp
    have "lower_bound ks key = hi"
      using less.prems lo assms(1) by (intro lower_bound_unique) (auto split: option.splits)
    moreover have "hi < length ks \<or> hi = length ks" using less.prems(2) by auto
    ultimately show ?thesis using lo False less.prems
      by (subst search_loop.simps) (auto simp: search_spec_def split: option.splits)
  next
    case True
    define mid where "mid = lo + (hi - lo) div 2"
    have mid: "lo \<le> mid" "mid < hi" using True by (auto simp: mid_def)
    have cmp: "compare_key p mid key = Inr (compare (ks ! mid) key)"
      using assms(2) mid less.prems(2) by simp
    have step: "search_loop p key lo hi found =
       (case compare (ks ! mid) key of Less \<Rightarrow> search_loop p key (mid + 1) hi found
        | Equal \<Rightarrow> search_loop p key lo mid (Some mid) | Greater \<Rightarrow> search_loop p key lo mid found)"
      by (subst search_loop.simps) (use True cmp in \<open>simp add: Let_def mid_def [symmetric]\<close>)
    consider "ks ! mid < key" | "ks ! mid = key" | "key < ks ! mid" by (metis less_linear)
    then show ?thesis
    proof cases
      case 1
      have "ks ! i < key" if "i < mid + 1" for i
        using that 1 sorted_nth_mono [OF assms(1), of i mid] mid less.prems(2) by simp
      moreover have "search_loop p key lo hi found = search_loop p key (mid + 1) hi found"
        using 1 step by (simp add: compare_def)
      ultimately show ?thesis using less.hyps [of hi "mid + 1" found] less.prems mid by simp
    next
      case 2
      then have "search_loop p key lo hi found = search_loop p key lo mid (Some mid)"
        using step by (simp add: compare_def)
      with 2 show ?thesis using less.hyps [of mid lo "Some mid"] less.prems mid by simp
    next
      case 3
      then have g: "search_loop p key lo hi found = search_loop p key lo mid found"
        using step by (auto simp: compare_def)
      show ?thesis
      proof (cases found)
        case None
        with 3 g show ?thesis using less.hyps [of mid lo None] less.prems mid by simp
      next
        case (Some m)
        then have "ks ! mid \<le> key"
          using less.prems mid sorted_nth_mono [OF assms(1), of mid hi] by simp
        with 3 show ?thesis by simp
      qed
    qed
  qed
qed

lemma rep_sorted: "rep_at data h v \<Longrightarrow> sorted_wrt (<) (pv_keys v)"
  by (simp add: rep_at_def view_ok_def)

lemma strict_sorted_imp: "sorted_wrt (<) (ks :: 'a::linorder list) \<Longrightarrow> sorted ks"
  by (simp add: strict_sorted_iff)

lemma rep_search:
  assumes "rep_at data h v"
  shows "page_search \<lparr>pr_data = data, pr_header = h\<rparr> key = Inr (search_spec (pv_keys v) key)"
  unfolding page_search_def using rep_at_bounds(1) [OF assms]
  by (intro search_loop_spec strict_sorted_imp rep_sorted [OF assms])
    (simp_all add: rep_compare_key [OF assms])

text \<open>The child that owns a key: the last separator at most the key, else the leftmost child.\<close>

definition upper_bound :: "'k::linorder list \<Rightarrow> 'k \<Rightarrow> nat" where
  "upper_bound ks k = length (takeWhile (\<lambda>x. x \<le> k) ks)"

lemma upper_bound_unique:
  assumes "n \<le> length ks" and "\<And>i. i < n \<Longrightarrow> ks ! i \<le> k" and "n < length ks \<Longrightarrow> k < ks ! n"
  shows "upper_bound ks k = n"
  unfolding upper_bound_def
proof (rule takeWhile_eq_take_P_nth [THEN arg_cong [where f = length], THEN trans])
  show "ks ! i \<le> k" if "i < n" "i < length ks" for i using that assms(2) by simp
  show "\<not> ks ! n \<le> k" if "n < length ks" using that assms(3) by simp
  show "length (take n ks) = n" using assms(1) by simp
qed

lemma upper_bound_search:
  assumes "sorted_wrt (<) ks"
  shows "search_spec ks k = Inr i \<Longrightarrow> upper_bound ks k = Suc i"
    and "search_spec ks k = Inl i \<Longrightarrow> upper_bound ks k = i"
proof -
  note s = strict_sorted_imp [OF assms]
  show "upper_bound ks k = Suc i" if "search_spec ks k = Inr i"
  proof (rule upper_bound_unique)
    have i: "i < length ks" "ks ! i = k" using search_spec_InrD [OF that] by auto
    then show "Suc i \<le> length ks" by simp
    show "ks ! j \<le> k" if "j < Suc i" for j using that i s sorted_nth_mono [of ks j i] by auto
    show "k < ks ! Suc i" if "Suc i < length ks"
      using that i assms sorted_wrt_nth_less [of "(<)" ks i "Suc i"] by simp
  qed
  show "upper_bound ks k = i" if f: "search_spec ks k = Inl i"
  proof (rule upper_bound_unique)
    have i: "i = lower_bound ks k" using f by (auto simp: search_spec_def Let_def split: if_splits)
    show "i \<le> length ks" using i by simp
    show "ks ! j \<le> k" if "j < i" for j using that i lower_bound_less [of j ks k] by simp
    show "k < ks ! i" if "i < length ks"
    proof -
      have "k \<le> ks ! i" using i that s by (intro lower_bound_ge) auto
      moreover have "ks ! i \<noteq> k" using search_spec_InlD [OF s f] that nth_mem by blast
      ultimately show ?thesis by simp
    qed
  qed
qed

lemma rep_skip_equal:
  assumes "rep_at data h v" and "search_spec (pv_keys v) key = Inr i"
  shows "skip_equal \<lparr>pr_data = data, pr_header = h\<rparr> key (i + 1) = Inr (i + 1)"
proof (cases "i + 1 < length (pv_entries v)")
  case True
  have "pv_keys v ! i = key" "i < length (pv_keys v)" using search_spec_InrD [OF assms(2)] by simp_all
  then have "pv_keys v ! (i + 1) \<noteq> key"
    using True rep_sorted [OF assms(1)] sorted_wrt_nth_less [of "(<)" "pv_keys v" i "i + 1"] by force
  then have "compare (pv_keys v ! (i + 1)) key \<noteq> Equal" by simp
  with True show ?thesis
    using rep_compare_key [OF assms(1) True, of key] rep_at_bounds(1) [OF assms(1)]
    by (subst skip_equal.simps) simp
next
  case False
  then show ?thesis using rep_at_bounds(1) [OF assms(1)] by (subst skip_equal.simps) simp
qed

definition entry_child :: "bytes \<times> bytes \<Rightarrow> PageId" where
  "entry_child e = of_le_bytes (snd e)"

definition route :: "PageView \<Rightarrow> bytes \<Rightarrow> PageId" where
  "route v key = (let n = upper_bound (pv_keys v) key in
     if n = 0 then the (pv_leftmost v) else entry_child (pv_entries v ! (n - 1)))"

lemma rep_child:
  assumes "rep_at data h v" and "i < length (pv_entries v)" and "\<not> pv_leaf v"
  shows "page_child \<lparr>pr_data = data, pr_header = h\<rparr> i = Inr (entry_child (pv_entries v ! i))"
proof -
  let ?e = "pv_entries v ! i"
  obtain off where off: "page_slot \<lparr>pr_data = data, pr_header = h\<rparr> i = Inr \<lparr>sl_offset = off,
       sl_key_len = length (fst ?e), sl_payload_len = length (snd ?e) - (if pv_leaf v then 1 else 0),
       sl_head = key_head (fst ?e)\<rparr>"
    "off + (length (fst ?e) + length (snd ?e)) \<le> length data"
    "slice data (off + length (fst ?e)) (length (snd ?e)) = snd ?e"
    by (rule rep_entry [OF assms(1,2)])
  have "?e \<in> set (pv_entries v)" using assms(2) by simp
  then obtain c where c: "c \<noteq> NONE_PAGE" "snd ?e = le_bytes 8 c"
    using assms(1,3) by (force simp: rep_at_def view_ok_def body_ok_def)
  have "length data < 2 ^ 64" using rep_at_bounds(5) [OF assms(1)] by simp
  then have "read_u64 data (off + length (fst ?e)) = Some c"
    using off(2,3) c by (simp add: read_u64_slice)
  with off c show ?thesis
    using rep_at_bounds(5,6) [OF assms(1)] assms(3)
    by (simp add: page_child_def entry_child_def)
qed

lemma rep_child_for_key:
  assumes "rep_at data h v" and "\<not> pv_leaf v"
  shows "child_for_key \<lparr>pr_data = data, pr_header = h\<rparr> key = Inr (route v key)"
proof -
  have ub: "upper_bound (pv_keys v) key \<le> length (pv_entries v)"
    using length_takeWhile_le [of "\<lambda>x. x \<le> key" "pv_keys v"] by (simp add: upper_bound_def)
  have lm: "h_leftmost_child h = pv_leftmost v" using assms(1) by (simp add: rep_at_def view_at_def)
  have "(case search_spec (pv_keys v) key of
          Inr index \<Rightarrow> skip_equal \<lparr>pr_data = data, pr_header = h\<rparr> key (index + 1) | Inl index \<Rightarrow> Inr index)
        = Inr (upper_bound (pv_keys v) key)"
    using rep_skip_equal [OF assms(1)] upper_bound_search [OF rep_sorted [OF assms(1)]]
    by (auto split: sum.splits)
  then show ?thesis
    using rep_search [OF assms(1)] rep_at_bounds(6) [OF assms(1)] assms(2) ub lm
      rep_child [OF assms(1) _ assms(2), of "upper_bound (pv_keys v) key - 1"]
    by (auto simp: child_for_key_def route_def Let_def)
qed

lemma rep_high_fence:
  assumes "rep_at data h v"
  shows "high_fence \<lparr>pr_data = data, pr_header = h\<rparr> = Inr (map_option fst (pv_high v))"
proof (cases "pv_high v")
  case None
  then have "h_flags h AND FLAG_HIGH_FENCE = 0"
    using rep_at_bounds(7) [OF assms] by (simp add: has_high_def)
  with None show ?thesis by (simp add: high_fence_def)
next
  case (Some b)
  then obtain hi r where b: "pv_high v = Some (hi, r)" by (cases b) auto
  then have "h_flags h AND FLAG_HIGH_FENCE \<noteq> 0"
    using rep_at_bounds(7) [OF assms] by (simp add: has_high_def)
  moreover have "h_high_len h = length hi" "slice data (h_high_offset h) (length hi) = hi"
    using assms b by (auto simp: rep_at_def view_at_def high_at_def)
  moreover have "h_high_offset h + h_high_len h \<le> length data"
    using rep_at_header(2) [OF assms] rep_at_bounds(7) [OF assms] b by (auto simp: header_ok_def)
  ultimately show ?thesis
    using b rep_at_bounds(5) [OF assms] by (simp add: high_fence_def)
qed

lemma rep_right_sibling:
  "rep_at data h v \<Longrightarrow> right_sibling \<lparr>pr_data = data, pr_header = h\<rparr> = map_option snd (pv_high v)"
  by (simp add: right_sibling_def rep_at_def view_at_def high_at_def)

lemma rep_leftmost_child:
  "rep_at data h v \<Longrightarrow> leftmost_child \<lparr>pr_data = data, pr_header = h\<rparr> = pv_leftmost v"
  by (simp add: leftmost_child_def rep_at_def view_at_def)

lemma rep_is_leaf: "rep_at data h v \<Longrightarrow> page_is_leaf \<lparr>pr_data = data, pr_header = h\<rparr> \<longleftrightarrow> pv_leaf v"
  using rep_at_bounds(6) [of data h v] by (simp add: page_is_leaf_def)

definition beyond :: "PageView \<Rightarrow> bytes \<Rightarrow> PageId option" where
  "beyond v key = (case pv_high v of None \<Rightarrow> None | Some (hi, r) \<Rightarrow> if key \<ge> hi then Some r else None)"

lemma rep_follow_right:
  "rep_at data h v \<Longrightarrow> follow_right \<lparr>pr_data = data, pr_header = h\<rparr> key = Inr (beyond v key)"
  using rep_high_fence [of data h v] rep_right_sibling [of data h v]
  by (cases "pv_high v") (auto simp: follow_right_def beyond_def right_sibling_def)

section \<open>Entry lists\<close>

definition value_of_body :: "bytes \<Rightarrow> LeafValueOwned" where
  "value_of_body b =
     (if hd b = TAG_INLINE then LV_Inline (tl b)
      else if hd b = TAG_BLOB then LV_Blob \<lparr>bp_file_id = of_le_bytes (slice (tl b) 0 4),
             bp_offset = of_le_bytes (slice (tl b) 4 8), bp_length = of_le_bytes (slice (tl b) 12 4)\<rparr>
      else LV_Tombstone)"

lemma value_of_value_bytes [simp]: "value_of_body (value_bytes v) = v"
  by (cases v) (auto simp: value_of_body_def value_bytes_def TAG_INLINE_def TAG_BLOB_def
      TAG_TOMBSTONE_def blob_to_bytes_def slice_def)

lemma decode_value_bytes:
  "\<exists>pv. decode_leaf_value (hd (value_bytes v)) (tl (value_bytes v)) = Inr pv \<and> value_owned pv = v"
  by (cases v) (auto simp: decode_leaf_value_def value_bytes_def value_owned_def TAG_INLINE_def TAG_BLOB_def
      TAG_TOMBSTONE_def blob_to_bytes_def read_slice slice_def)

lemma rep_value:
  assumes "rep_at data h v" and "i < length (pv_entries v)" and "pv_leaf v"
  shows "\<exists>pv. page_value \<lparr>pr_data = data, pr_header = h\<rparr> i = Inr pv \<and>
           value_owned pv = value_of_body (snd (pv_entries v ! i))"
proof -
  let ?e = "pv_entries v ! i"
  obtain off where off: "page_slot \<lparr>pr_data = data, pr_header = h\<rparr> i = Inr \<lparr>sl_offset = off,
       sl_key_len = length (fst ?e), sl_payload_len = length (snd ?e) - (if pv_leaf v then 1 else 0),
       sl_head = key_head (fst ?e)\<rparr>"
    "off + (length (fst ?e) + length (snd ?e)) \<le> length data"
    "slice data (off + length (fst ?e)) (length (snd ?e)) = snd ?e"
    by (rule rep_entry [OF assms(1,2)])
  have "?e \<in> set (pv_entries v)" using assms(2) by simp
  then obtain w where w: "snd ?e = value_bytes w"
    using assms(1,3) by (force simp: rep_at_def view_ok_def body_ok_def)
  obtain t b where tb: "snd ?e = t # b" using w value_bytes_nonempty [of w] by (metis list.exhaust)
  have len: "length data < 2 ^ 64" using rep_at_bounds(5) [OF assms(1)] by simp
  have "slice data (off + length (fst ?e)) 1 = [t]"
    "slice data (off + length (fst ?e) + 1) (length b) = b"
    using slice_sub [OF off(3), of 0 1] slice_sub [OF off(3), of 1 "length b"] tb by simp_all
  moreover from this(1) have "data ! (off + length (fst ?e)) = t"
    using nth_slice [of 0 1 "off + length (fst ?e)" data] off(2) tb by simp
  ultimately have "page_value \<lparr>pr_data = data, pr_header = h\<rparr> i = decode_leaf_value t b"
    using off tb len rep_at_bounds(6) [OF assms(1)] assms(3)
    by (simp add: page_value_def get_at_def)
  moreover have "value_bytes w = t # b" using w tb by simp
  moreover have "value_of_body (snd ?e) = w" unfolding w by simp
  ultimately show ?thesis using decode_value_bytes [of w] by simp
qed

lemma collect_map: "(\<And>i. i \<in> set is \<Longrightarrow> f i = Inr (g i)) \<Longrightarrow> collect f is = Inr (map g is)"
  by (induction "is") auto

definition leaf_entry :: "bytes \<times> bytes \<Rightarrow> LeafEntryOwned" where
  "leaf_entry e = \<lparr>le_key = fst e, le_value = value_of_body (snd e)\<rparr>"

definition internal_entry :: "bytes \<times> bytes \<Rightarrow> InternalEntryOwned" where
  "internal_entry e = \<lparr>ine_key = fst e, ine_child = entry_child e\<rparr>"

lemma map_nth_upt: "map (\<lambda>i. g (xs ! i)) [0..<length xs] = map g xs"
  by (intro nth_equalityI) simp_all

lemma rep_leaf_entries:
  assumes "rep_at data h v" and "pv_leaf v"
  shows "leaf_entries_owned \<lparr>pr_data = data, pr_header = h\<rparr> = Inr (map leaf_entry (pv_entries v))"
proof -
  have "collect (\<lambda>index. rbind (full_key \<lparr>pr_data = data, pr_header = h\<rparr> index) (\<lambda>key.
        rbind (page_value \<lparr>pr_data = data, pr_header = h\<rparr> index) (\<lambda>v.
        Inr \<lparr>le_key = key, le_value = value_owned v\<rparr>))) [0..<length (pv_entries v)]
      = Inr (map (\<lambda>i. leaf_entry (pv_entries v ! i)) [0..<length (pv_entries v)])"
  proof (rule collect_map)
    fix i assume "i \<in> set [0..<length (pv_entries v)]"
    then have "i < length (pv_entries v)" by simp
    then show "rbind (full_key \<lparr>pr_data = data, pr_header = h\<rparr> i) (\<lambda>key.
        rbind (page_value \<lparr>pr_data = data, pr_header = h\<rparr> i) (\<lambda>v.
        Inr \<lparr>le_key = key, le_value = value_owned v\<rparr>)) = Inr (leaf_entry (pv_entries v ! i))"
      using rep_full_key [OF assms(1), of i] rep_value [OF assms(1) _ assms(2), of i]
      by (auto simp: leaf_entry_def)
  qed
  then show ?thesis
    using rep_at_bounds(1,6) [OF assms(1)] assms(2)
    by (simp add: leaf_entries_owned_def map_nth_upt)
qed

lemma rep_internal_entries:
  assumes "rep_at data h v" and "\<not> pv_leaf v"
  shows "internal_entries_owned \<lparr>pr_data = data, pr_header = h\<rparr> = Inr (map internal_entry (pv_entries v))"
proof -
  have "collect (\<lambda>index. rbind (full_key \<lparr>pr_data = data, pr_header = h\<rparr> index) (\<lambda>key.
        rbind (page_child \<lparr>pr_data = data, pr_header = h\<rparr> index) (\<lambda>child.
        Inr \<lparr>ine_key = key, ine_child = child\<rparr>))) [0..<length (pv_entries v)]
      = Inr (map (\<lambda>i. internal_entry (pv_entries v ! i)) [0..<length (pv_entries v)])"
    by (rule collect_map)
      (simp add: rep_full_key [OF assms(1)] rep_child [OF assms(1) _ assms(2)] internal_entry_def)
  then show ?thesis
    using rep_at_bounds(1,6) [OF assms(1)] assms(2)
    by (simp add: internal_entries_owned_def map_nth_upt)
qed

end
