(* ===== verification/Page_Build.thy ===== *)
theory Page_Build
  imports Page_View
begin

text \<open>
  The writers of the v4 page (\<open>vnext/btree/page_v4.rs\<close>): building a page image from an entry list,
  inserting and removing entries in place, compaction, and the choice of a split point.
  \<open>Page_Refine\<close> proves what they do to the logical page.
\<close>

section \<open>Field writes\<close>

definition write_u16 :: "nat \<Rightarrow> u16 \<Rightarrow> bytes \<Rightarrow> (PageError + unit) \<times> bytes" where
  "write_u16 start w data =
     (case checked_add_usize start 2 of
        None \<Rightarrow> (Inl (PageError ''u16 write offset overflow''), data)
      | Some end \<Rightarrow> if end \<le> length data then (Inr (), put data start (le_bytes 2 w))
          else (Inl (PageError ''u16 write exceeds page''), data))"

definition write_u32 :: "nat \<Rightarrow> u32 \<Rightarrow> bytes \<Rightarrow> (PageError + unit) \<times> bytes" where
  "write_u32 start w data =
     (case checked_add_usize start 4 of
        None \<Rightarrow> (Inl (PageError ''u32 write offset overflow''), data)
      | Some end \<Rightarrow> if end \<le> length data then (Inr (), put data start (le_bytes 4 w))
          else (Inl (PageError ''u32 write exceeds page''), data))"

definition write_u64 :: "nat \<Rightarrow> u64 \<Rightarrow> bytes \<Rightarrow> (PageError + unit) \<times> bytes" where
  "write_u64 start w data =
     (case checked_add_usize start 8 of
        None \<Rightarrow> (Inl (PageError ''u64 write offset overflow''), data)
      | Some end \<Rightarrow> if end \<le> length data then (Inr (), put data start (le_bytes 8 w))
          else (Inl (PageError ''u64 write exceeds page''), data))"

text \<open>Slice assignment and \<open>copy_within\<close>, which panic out of range.\<close>

definition write_slice :: "nat \<Rightarrow> bytes \<Rightarrow> bytes \<Rightarrow> (PageError + unit) \<times> bytes" where
  "write_slice start source data =
     (case copy_from_slice data start source of
        None \<Rightarrow> (Inl PagePanic, data) | Some data' \<Rightarrow> (Inr (), data'))"

definition move_slice :: "nat \<Rightarrow> nat \<Rightarrow> nat \<Rightarrow> bytes \<Rightarrow> (PageError + unit) \<times> bytes" where
  "move_slice start end dest data =
     (case copy_within data start end dest of
        None \<Rightarrow> (Inl PagePanic, data) | Some data' \<Rightarrow> (Inr (), data'))"

definition write_slot :: "nat \<Rightarrow> Slot \<Rightarrow> bytes \<Rightarrow> (PageError + unit) \<times> bytes" where
  "write_slot index slot =
     sbind (slift (rbind (ok_or (PageError ''slot offset overflow'') (checked_mul_usize index SLOT_SIZE))
        (\<lambda>n. ok_or (PageError ''slot offset overflow'') (checked_add_usize PAGE_HEADER_SIZE n)))) (\<lambda>start.
     sbind (slift (ok_or (PageError ''slot offset exceeds u32'') (u32_try_from (sl_offset slot)))) (\<lambda>offset.
     sbind (write_u32 start offset) (\<lambda>_.
     sbind (slift (ok_or (PageError ''key length exceeds u16'') (u16_try_from (sl_key_len slot)))) (\<lambda>key_len.
     sbind (write_u16 (start + 4) key_len) (\<lambda>_.
     sbind (slift (ok_or (PageError ''payload length exceeds u16'') (u16_try_from (sl_payload_len slot)))) (\<lambda>payload_len.
     sbind (write_u16 (start + 6) payload_len) (\<lambda>_.
     write_u32 (start + 8) (sl_head slot))))))))"

section \<open>Building a page image\<close>

datatype EncodedPayload = EP_Leaf LeafValueOwned | EP_Child PageId

record EncodedEntry =
  ee_key :: bytes
  ee_payload :: EncodedPayload

definition encode_payload :: "EncodedPayload \<Rightarrow> PageError + u8 option \<times> bytes" where
  "encode_payload pl =
     (case pl of
        EP_Leaf (LV_Inline b) \<Rightarrow> Inr (Some TAG_INLINE, b)
      | EP_Leaf (LV_Blob pointer) \<Rightarrow> Inr (Some TAG_BLOB, blob_to_bytes pointer)
      | EP_Leaf LV_Tombstone \<Rightarrow> Inr (Some TAG_TOMBSTONE, [])
      | EP_Child child \<Rightarrow>
          if child = NONE_PAGE then Inl (PageError ''reserved page id used as child'')
          else Inr (None, le_bytes 8 child))"

text \<open>One iteration of the entry loop: the new \<open>upper\<close> bound and the page bytes.\<close>

definition build_entry :: "nat \<Rightarrow> nat \<Rightarrow> nat \<Rightarrow> EncodedEntry \<Rightarrow> nat \<Rightarrow> bytes \<Rightarrow> (PageError + nat) \<times> bytes" where
  "build_entry count lower index entry upper =
     (if index \<ge> count \<or> length (ee_key entry) > U16_MAX
      then sfail (PageError ''entry count/key length exceeds page metadata'')
      else sbind (slift (encode_payload (ee_payload entry))) (\<lambda>(tag, payload).
        if length payload > U16_MAX then sfail (PageError ''entry payload exceeds slot length'')
        else sbind (slift (ok_or (PageError ''entry length overflow'')
               (Option.bind (checked_add_usize (length (ee_key entry)) (length payload))
                  (\<lambda>len. checked_add_usize len (if tag = None then 0 else 1))))) (\<lambda>entry_len.
          sbind (slift (ok_or (PageError ''entry heap does not fit page'') (checked_sub_usize upper entry_len))) (\<lambda>upper.
          if upper < lower then sfail (PageError ''page does not fit encoded entries'')
          else sbind (write_slice upper (ee_key entry)) (\<lambda>_.
            let pos = upper + length (ee_key entry) in
            sbind (case tag of None \<Rightarrow> sreturn pos
                   | Some t \<Rightarrow> sbind (write_slice pos [t]) (\<lambda>_. sreturn (pos + 1))) (\<lambda>pos.
            sbind (write_slice pos payload) (\<lambda>_.
            sbind (write_slot index \<lparr>sl_offset = upper, sl_key_len = length (ee_key entry),
                     sl_payload_len = length payload, sl_head = key_head (ee_key entry)\<rparr>) (\<lambda>_.
            sreturn upper))))))))"

fun build_entries ::
    "nat \<Rightarrow> nat \<Rightarrow> nat \<Rightarrow> EncodedEntry list \<Rightarrow> nat \<Rightarrow> bytes \<Rightarrow> (PageError + nat \<times> nat) \<times> bytes" where
  "build_entries count lower index [] upper data = (Inr (index, upper), data)"
| "build_entries count lower index (entry # rest) upper data =
     sbind (build_entry count lower index entry upper)
       (\<lambda>upper. build_entries count lower (index + 1) rest upper) data"

definition page_raw :: "PageId option \<Rightarrow> u64" where
  "page_raw o1 = (case o1 of None \<Rightarrow> NONE_PAGE | Some p \<Rightarrow> p)"

text \<open>The header writes after the entry loop.\<close>

definition write_header ::
    "PageKind \<Rightarrow> u8 \<Rightarrow> nat \<Rightarrow> nat \<Rightarrow> nat \<Rightarrow> nat \<Rightarrow> nat \<Rightarrow> nat \<Rightarrow> nat \<Rightarrow> PageId option \<Rightarrow> PageId option \<Rightarrow>
     bytes \<Rightarrow> (PageError + unit) \<times> bytes" where
  "write_header kind flags count lower upper prefix_offset prefix_len high_offset high_len right leftmost =
     sbind (write_u32 0 PAGE_MAGIC) (\<lambda>_.
     sbind (write_u16 4 PAGE_VERSION) (\<lambda>_.
     sbind (write_slice 6 [kind_byte kind]) (\<lambda>_.
     sbind (write_slice 7 [flags]) (\<lambda>_.
     sbind (write_u32 8 (of_nat count)) (\<lambda>_.
     sbind (write_u32 12 (of_nat lower)) (\<lambda>_.
     sbind (write_u32 16 (of_nat upper)) (\<lambda>_.
     sbind (write_u32 20 (of_nat prefix_offset)) (\<lambda>_.
     sbind (write_u32 24 (of_nat prefix_len)) (\<lambda>_.
     sbind (write_u32 28 (of_nat high_offset)) (\<lambda>_.
     sbind (write_u32 32 (of_nat high_len)) (\<lambda>_.
     sbind (write_u64 36 (page_raw right)) (\<lambda>_.
     write_u64 44 (page_raw leftmost)))))))))))))"

text \<open>The high fence goes first, at the end of the page; the page prefix is always empty.\<close>

definition place_high :: "nat \<Rightarrow> bytes option \<Rightarrow> bytes \<Rightarrow> (PageError + nat \<times> nat \<times> nat \<times> u8) \<times> bytes" where
  "place_high page_size high =
     (case high of
        None \<Rightarrow> sreturn (page_size, 0, 0, 0)
      | Some hi \<Rightarrow>
          sbind (slift (ok_or (PageError ''high fence does not fit page'')
                          (checked_sub_usize page_size (length hi)))) (\<lambda>upper.
          sbind (write_slice upper hi) (\<lambda>_. sreturn (upper, upper, length hi, FLAG_HIGH_FENCE))))"

definition build_image ::
    "nat \<Rightarrow> PageKind \<Rightarrow> PageId option \<Rightarrow> bytes option \<Rightarrow> PageId option \<Rightarrow> EncodedEntry list \<Rightarrow> nat \<Rightarrow>
     bytes \<Rightarrow> (PageError + unit) \<times> bytes" where
  "build_image page_size kind leftmost high right entries count =
     sbind (place_high page_size high) (\<lambda>(upper, high_offset, high_len, flags).
     sbind (slift (rbind (ok_or (PageError ''slot array overflow'') (checked_mul_usize count SLOT_SIZE))
        (\<lambda>n. ok_or (PageError ''slot array overflow'') (checked_add_usize PAGE_HEADER_SIZE n)))) (\<lambda>lower.
     if lower > upper then sfail (PageError ''slot array does not fit page'')
     else sbind (build_entries count lower 0 entries upper) (\<lambda>(actual_count, upper).
       if actual_count \<noteq> count then sfail (PageError ''entry iterator count disagrees with header'')
       else sbind (write_header kind flags count lower upper 0 0 high_offset high_len right leftmost) (\<lambda>_.
         sget (\<lambda>data. rbind (page_parse data) validate_full)))))"

definition build_page ::
    "nat \<Rightarrow> PageKind \<Rightarrow> PageId option \<Rightarrow> bytes option \<Rightarrow> PageId option \<Rightarrow> EncodedEntry list \<Rightarrow> nat \<Rightarrow>
     PageError + bytes" where
  "build_page page_size kind leftmost high right entries count =
     (if page_size < PAGE_HEADER_SIZE + SLOT_SIZE \<or> page_size > U32_MAX
      then Inl (PageError ''page size is outside v4 bounds'')
      else if (high = None) \<noteq> (right = None)
      then Inl (PageError ''high fence and right sibling must appear together'')
      else case build_image page_size kind leftmost high right entries count (replicate page_size 0) of
             (Inl e, _) \<Rightarrow> Inl e
           | (Inr _, data) \<Rightarrow> Inr data)"

definition build_leaf :: "nat \<Rightarrow> bytes option \<Rightarrow> PageId option \<Rightarrow> LeafEntryOwned list \<Rightarrow> PageError + bytes" where
  "build_leaf page_size high right entries =
     build_page page_size Leaf None high right
       (map (\<lambda>entry. \<lparr>ee_key = le_key entry, ee_payload = EP_Leaf (le_value entry)\<rparr>) entries)
       (length entries)"

definition empty_leaf :: "nat \<Rightarrow> PageError + bytes" where
  "empty_leaf page_size = build_leaf page_size None None []"

definition build_internal ::
    "nat \<Rightarrow> bytes option \<Rightarrow> PageId option \<Rightarrow> PageId \<Rightarrow> InternalEntryOwned list \<Rightarrow> PageError + bytes" where
  "build_internal page_size high right leftmost entries =
     (if leftmost = NONE_PAGE then Inl (PageError ''reserved page id used as leftmost child'')
      else build_page page_size Internal (Some leftmost) high right
        (map (\<lambda>entry. \<lparr>ee_key = ine_key entry, ee_payload = EP_Child (ine_child entry)\<rparr>) entries)
        (length entries))"

section \<open>Updates in place\<close>

definition compact :: "bytes \<Rightarrow> (PageError + unit) \<times> bytes" where
  "compact data =
     (case rbind (page_parse data) (\<lambda>page.
             rbind (high_fence page) (\<lambda>high.
             if page_is_leaf page
             then rbind (leaf_entries_owned page) (\<lambda>entries.
                    build_leaf (length data) high (right_sibling page) entries)
             else rbind (ok_or (PageError ''internal page lacks leftmost child'') (leftmost_child page)) (\<lambda>leftmost.
                    rbind (internal_entries_owned page) (\<lambda>entries.
                    build_internal (length data) high (right_sibling page) leftmost entries)))) of
        Inl e \<Rightarrow> (Inl e, data)
      | Inr rebuilt \<Rightarrow> write_slice 0 rebuilt data)"

definition has_contiguous_space :: "bytes \<Rightarrow> nat \<Rightarrow> PageError + bool" where
  "has_contiguous_space data entry_len =
     rbind (page_parse data) (\<lambda>page.
     rbind (ok_or (PageError ''slot growth overflow'')
              (checked_add_usize (h_lower (pr_header page)) SLOT_SIZE)) (\<lambda>needed_lower.
     Inr (case checked_sub_usize (h_upper (pr_header page)) entry_len of
            None \<Rightarrow> False | Some upper \<Rightarrow> needed_lower \<le> upper)))"

text \<open>The two space checks around a compaction that both insertions share.\<close>

definition make_room :: "nat \<Rightarrow> bytes \<Rightarrow> (PageError + bool) \<times> bytes" where
  "make_room entry_len =
     sbind (sget (\<lambda>data. has_contiguous_space data entry_len)) (\<lambda>fits.
     sbind (if fits then sreturn () else compact) (\<lambda>_.
     sget (\<lambda>data. has_contiguous_space data entry_len)))"

text \<open>The slots from \<open>slot_start\<close> on move up by one.\<close>

definition open_slot :: "nat \<Rightarrow> nat \<Rightarrow> bytes \<Rightarrow> (PageError + unit) \<times> bytes" where
  "open_slot slot_start lower =
     (if slot_start < lower then move_slice slot_start lower (slot_start + SLOT_SIZE) else sreturn ())"

definition insert_slot_and_entry :: "nat \<Rightarrow> bytes \<Rightarrow> u8 \<Rightarrow> bytes \<Rightarrow> bytes \<Rightarrow> (PageError + unit) \<times> bytes" where
  "insert_slot_and_entry insertion suffix tag payload =
     sbind (sget page_parse) (\<lambda>page.
     let count = page_count page; lower = h_lower (pr_header page); upper = h_upper (pr_header page) in
     if insertion > count \<or> length suffix > U16_MAX \<or> length payload > U16_MAX
     then sfail (PageError ''leaf insertion metadata exceeds slot bounds'')
     else let entry_len = length suffix + 1 + length payload in
       sbind (slift (ok_or (PageError ''leaf entry offset underflow'') (checked_sub_usize upper entry_len))) (\<lambda>entry_offset.
       let slot_start = PAGE_HEADER_SIZE + insertion * SLOT_SIZE in
       sbind (open_slot slot_start lower) (\<lambda>_.
       sbind (write_slice entry_offset suffix) (\<lambda>_.
       sbind (write_slice (entry_offset + length suffix) [tag]) (\<lambda>_.
       sbind (write_slice (entry_offset + length suffix + 1) payload) (\<lambda>_.
       sbind (write_slot insertion \<lparr>sl_offset = entry_offset, sl_key_len = length suffix,
                sl_payload_len = length payload, sl_head = key_head suffix\<rparr>) (\<lambda>_.
       sbind (write_u32 8 (of_nat (count + 1))) (\<lambda>_.
       sbind (write_u32 12 (of_nat (lower + SLOT_SIZE))) (\<lambda>_.
       write_u32 16 (of_nat entry_offset))))))))))"

definition insert_internal_slot :: "nat \<Rightarrow> bytes \<Rightarrow> PageId \<Rightarrow> bytes \<Rightarrow> (PageError + unit) \<times> bytes" where
  "insert_internal_slot insertion suffix child =
     sbind (sget page_parse) (\<lambda>page.
     let count = page_count page; lower = h_lower (pr_header page); upper = h_upper (pr_header page) in
     if insertion > count \<or> length suffix > U16_MAX
     then sfail (PageError ''internal insertion metadata exceeds slot bounds'')
     else let entry_len = length suffix + 8 in
       sbind (slift (ok_or (PageError ''internal entry offset underflow'') (checked_sub_usize upper entry_len))) (\<lambda>entry_offset.
       let slot_start = PAGE_HEADER_SIZE + insertion * SLOT_SIZE in
       sbind (open_slot slot_start lower) (\<lambda>_.
       sbind (write_slice entry_offset suffix) (\<lambda>_.
       sbind (write_slice (entry_offset + length suffix) (le_bytes 8 child)) (\<lambda>_.
       sbind (write_slot insertion \<lparr>sl_offset = entry_offset, sl_key_len = length suffix,
                sl_payload_len = 8, sl_head = key_head suffix\<rparr>) (\<lambda>_.
       sbind (write_u32 8 (of_nat (count + 1))) (\<lambda>_.
       sbind (write_u32 12 (of_nat (lower + SLOT_SIZE))) (\<lambda>_.
       write_u32 16 (of_nat entry_offset)))))))))"

definition try_insert_inline :: "bytes \<Rightarrow> bytes \<Rightarrow> bytes \<Rightarrow> (PageError + InsertResult) \<times> bytes" where
  "try_insert_inline key payload =
     sbind (sget page_parse) (\<lambda>page.
     if \<not> page_is_leaf page then sfail (PageError ''inline insert targeted an internal page'')
     else sbind (slift (follow_right page key)) (\<lambda>right.
     case right of Some r \<Rightarrow> sreturn (Ins_FollowRight r)
     | None \<Rightarrow>
       sbind (slift (page_search page key)) (\<lambda>result.
       case result of Inr _ \<Rightarrow> sreturn Ins_Duplicate
       | Inl insertion \<Rightarrow>
         sbind (slift (page_prefix page)) (\<lambda>prefix.
         if \<not> starts_with key prefix then sfail (PageError ''inserted key does not share page prefix'')
         else if length payload > U16_MAX then sfail (PageError ''inline value exceeds v4 slot length'')
         else let suffix_len = length key - length prefix in
           if suffix_len > U16_MAX then sfail (PageError ''key suffix exceeds v4 slot length'')
           else sbind (slift (ok_or (PageError ''entry length overflow'')
                  (Option.bind (checked_add_usize suffix_len 1) (\<lambda>len. checked_add_usize len (length payload))))) (\<lambda>entry_len.
             sbind (make_room entry_len) (\<lambda>fits.
             if \<not> fits then sreturn Ins_Full
             else sbind (insert_slot_and_entry insertion (drop (length prefix) key) TAG_INLINE payload) (\<lambda>_.
               sreturn Ins_Inserted)))))))"

definition try_insert_internal :: "bytes \<Rightarrow> PageId \<Rightarrow> bytes \<Rightarrow> (PageError + InsertResult) \<times> bytes" where
  "try_insert_internal key child =
     (if child = NONE_PAGE then sfail (PageError ''reserved page id used as child'')
      else sbind (sget page_parse) (\<lambda>page.
     if page_is_leaf page then sfail (PageError ''separator insert targeted a leaf'')
     else sbind (slift (follow_right page key)) (\<lambda>right.
     case right of Some r \<Rightarrow> sreturn (Ins_FollowRight r)
     | None \<Rightarrow>
       sbind (slift (page_search page key)) (\<lambda>result.
       case result of Inr _ \<Rightarrow> sreturn Ins_Duplicate
       | Inl insertion \<Rightarrow>
         sbind (slift (page_prefix page)) (\<lambda>prefix.
         if \<not> starts_with key prefix then sfail (PageError ''separator does not share page prefix'')
         else let suffix_len = length key - length prefix in
           if suffix_len > U16_MAX then sfail (PageError ''separator suffix exceeds v4 slot length'')
           else sbind (slift (ok_or (PageError ''internal entry length overflow'')
                  (checked_add_usize suffix_len 8))) (\<lambda>entry_len.
             sbind (make_room entry_len) (\<lambda>fits.
             if \<not> fits then sreturn Ins_Full
             else sbind (insert_internal_slot insertion (drop (length prefix) key) child) (\<lambda>_.
               sreturn Ins_Inserted))))))))"

text \<open>The slots after \<open>start\<close> move down by one.\<close>

definition close_slot :: "nat \<Rightarrow> nat \<Rightarrow> bytes \<Rightarrow> (PageError + unit) \<times> bytes" where
  "close_slot start end =
     (if start + SLOT_SIZE < end then move_slice (start + SLOT_SIZE) end start else sreturn ())"

definition remove_leaf :: "bytes \<Rightarrow> bytes \<Rightarrow> (PageError + RemoveResult) \<times> bytes" where
  "remove_leaf key =
     sbind (sget page_parse) (\<lambda>page.
     if \<not> page_is_leaf page then sfail (PageError ''leaf removal targeted an internal page'')
     else sbind (slift (follow_right page key)) (\<lambda>right.
     case right of Some r \<Rightarrow> sreturn (Rem_FollowRight r)
     | None \<Rightarrow>
       sbind (slift (page_search page key)) (\<lambda>result.
       case result of Inl _ \<Rightarrow> sreturn Rem_Missing
       | Inr index \<Rightarrow>
         let count = page_count page;
             start = PAGE_HEADER_SIZE + index * SLOT_SIZE;
             end = PAGE_HEADER_SIZE + count * SLOT_SIZE in
         sbind (close_slot start end) (\<lambda>_.
         sbind (write_slice (end - SLOT_SIZE) (replicate SLOT_SIZE 0)) (\<lambda>_.
         sbind (write_u32 8 (of_nat (count - 1))) (\<lambda>_.
         sbind (write_u32 12 (of_nat (PAGE_HEADER_SIZE + (count - 1) * SLOT_SIZE))) (\<lambda>_.
         sreturn Rem_Removed)))))))"

section \<open>Choosing a split point\<close>

definition USIZE_MAX :: nat where "USIZE_MAX = 2 ^ 64 - 1"

fun split_total :: "(nat \<Rightarrow> nat) \<Rightarrow> nat list \<Rightarrow> nat \<Rightarrow> PageError + nat" where
  "split_total cost [] acc = Inr acc"
| "split_total cost (index # rest) acc =
     rbind (ok_or (PageError ''split cost overflow'') (checked_add_usize acc (cost index))) (split_total cost rest)"

definition abs_diff :: "nat \<Rightarrow> nat \<Rightarrow> nat" where
  "abs_diff a b = (if a < b then b - a else a - b)"

fun split_scan :: "(nat \<Rightarrow> nat) \<Rightarrow> nat \<Rightarrow> nat list \<Rightarrow> nat \<Rightarrow> nat \<Rightarrow> nat \<Rightarrow> PageError + nat" where
  "split_scan cost whole [] left best best_distance = Inr best"
| "split_scan cost whole (candidate # rest) left best best_distance =
     rbind (ok_or (PageError ''split cost overflow'') (checked_add_usize left (cost (candidate - 1)))) (\<lambda>left.
     let distance = abs_diff left (whole - left) in
     if distance < best_distance then split_scan cost whole rest left candidate distance
     else split_scan cost whole rest left best best_distance)"

definition choose_split :: "nat \<Rightarrow> (nat \<Rightarrow> nat) \<Rightarrow> PageError + nat" where
  "choose_split count cost =
     (if count < 2 then Inl (PageError ''cannot split fewer than two entries'')
      else rbind (split_total cost [0..<count] 0) (\<lambda>whole.
        split_scan cost whole [1..<count] 0 1 USIZE_MAX))"

definition leaf_entry_cost :: "LeafEntryOwned \<Rightarrow> PageError + nat" where
  "leaf_entry_cost entry =
     (let payload = (case le_value entry of LV_Inline b \<Rightarrow> length b | LV_Blob _ \<Rightarrow> BLOB_SIZE | LV_Tombstone \<Rightarrow> 0) in
      ok_or (PageError ''leaf entry cost overflow'')
        (Option.bind (checked_add_usize SLOT_SIZE (length (le_key entry)))
           (\<lambda>len. checked_add_usize len (1 + payload))))"

definition choose_leaf_split :: "LeafEntryOwned list \<Rightarrow> PageError + nat" where
  "choose_leaf_split entries =
     choose_split (length entries)
       (\<lambda>index. case leaf_entry_cost (entries ! index) of Inl _ \<Rightarrow> USIZE_MAX | Inr c \<Rightarrow> c)"

definition choose_internal_split :: "InternalEntryOwned list \<Rightarrow> PageError + nat" where
  "choose_internal_split entries =
     choose_split (length entries) (\<lambda>index. SLOT_SIZE + length (ine_key (entries ! index)) + 8)"

end
