(* ===== verification/Page_Refine.thy ===== *)
theory Page_Refine
  imports Page_Build
begin

text \<open>
  What the writers of \<open>Page_Build\<close> do to the logical page of \<open>Page_View\<close>: a built page represents
  its entries, and it is built exactly when they fit; an insertion and a removal in place
  represent the updated entry list; compaction keeps the content.
\<close>

section \<open>Writes that stay inside the page\<close>

lemma put_put_adjacent:
  assumes "o1 + length a + length b \<le> length d" and "p = o1 + length a"
  shows "put (put d o1 a) p b = put d o1 (a @ b)"
  using assms by (intro nth_equalityI) (auto simp: nth_put nth_append)

lemma sbind_writes [buf_simps]:
  "start + 2 \<le> length d \<Longrightarrow> length d < 2 ^ 64 \<Longrightarrow>
     sbind (write_u16 start w16) f d = f () (put d start (le_bytes 2 w16))"
  "start + 4 \<le> length d \<Longrightarrow> length d < 2 ^ 64 \<Longrightarrow>
     sbind (write_u32 start w32) f d = f () (put d start (le_bytes 4 w32))"
  "start + 8 \<le> length d \<Longrightarrow> length d < 2 ^ 64 \<Longrightarrow>
     sbind (write_u64 start w64) f d = f () (put d start (le_bytes 8 w64))"
  "start + length s \<le> length d \<Longrightarrow> sbind (write_slice start s) f d = f () (put d start s)"
  "start \<le> end \<Longrightarrow> end \<le> length d \<Longrightarrow> dest + (end - start) \<le> length d \<Longrightarrow>
     sbind (move_slice start end dest) f d = f () (put d dest (slice d start (end - start)))"
  by (simp_all add: sbind_def write_u16_def write_u32_def write_u64_def write_slice_def move_slice_def
      copy_within_ok)

lemma write_ends [buf_simps]:
  "start + 4 \<le> length d \<Longrightarrow> length d < 2 ^ 64 \<Longrightarrow>
     write_u32 start w32 d = (Inr (), put d start (le_bytes 4 w32))"
  "start + 8 \<le> length d \<Longrightarrow> length d < 2 ^ 64 \<Longrightarrow>
     write_u64 start w64 d = (Inr (), put d start (le_bytes 8 w64))"
  by (simp_all add: write_u32_def write_u64_def)

lemma sbind_write_slot:
  assumes "64 + 12 * i + 12 \<le> length d" and "length d \<le> U32_MAX"
    and "off < 2 ^ 32" and "kl \<le> U16_MAX" and "pl \<le> U16_MAX"
  shows "sbind (write_slot i \<lparr>sl_offset = off, sl_key_len = kl, sl_payload_len = pl, sl_head = head\<rparr>) f d =
           f () (put d (64 + 12 * i) (slot_bytes off kl pl head))"
proof -
  have l: "length d < 2 ^ 64" "i * 12 < 2 ^ 64" using assms(1,2) by auto
  have "put (put (put (put d (64 + 12 * i) (le_bytes 4 (of_nat off :: u32))) (64 + 12 * i + 4)
          (le_bytes 2 (of_nat kl :: u16))) (64 + 12 * i + 6) (le_bytes 2 (of_nat pl :: u16)))
          (64 + 12 * i + 8) (le_bytes 4 head) = put d (64 + 12 * i) (slot_bytes off kl pl head)"
    using assms(1) by (simp add: put_put_adjacent slot_bytes_def)
  then show ?thesis
    unfolding write_slot_def sbind_assoc using assms l
    by (simp add: buf_simps checked_mul_usize_def u32_try_from_def u16_try_from_def mult.commute [of _ 12])
qed

definition header_bytes :: "PageKind \<Rightarrow> u8 \<Rightarrow> nat \<Rightarrow> nat \<Rightarrow> nat \<Rightarrow> nat \<Rightarrow> nat \<Rightarrow> nat \<Rightarrow> nat \<Rightarrow> u64 \<Rightarrow> u64 \<Rightarrow> bytes" where
  "header_bytes kind flags count lower upper po pl ho hl r l =
     le_bytes 4 PAGE_MAGIC @ le_bytes 2 PAGE_VERSION @ [kind_byte kind] @ [flags] @
     le_bytes 4 (of_nat count :: u32) @ le_bytes 4 (of_nat lower :: u32) @ le_bytes 4 (of_nat upper :: u32) @
     le_bytes 4 (of_nat po :: u32) @ le_bytes 4 (of_nat pl :: u32) @
     le_bytes 4 (of_nat ho :: u32) @ le_bytes 4 (of_nat hl :: u32) @ le_bytes 8 r @ le_bytes 8 l"

lemma length_header_bytes [simp]: "length (header_bytes kind flags count lower upper po pl ho hl r l) = 52"
  by (simp add: header_bytes_def)

lemma sbind_write_header:
  assumes "64 \<le> length d" and "length d \<le> U32_MAX"
  shows "sbind (write_header kind flags count lower upper po pl ho hl right leftmost) f d =
     f () (put d 0 (header_bytes kind flags count lower upper po pl ho hl (page_raw right) (page_raw leftmost)))"
proof -
  have l: "length d < 2 ^ 64" using assms(2) by simp
  show ?thesis
    unfolding write_header_def sbind_assoc header_bytes_def using assms l
    by (simp add: buf_simps put_put_adjacent)
qed

lemma header_at_put:
  assumes "64 \<le> length d" and "length d \<le> U32_MAX"
    and "count < 2 ^ 32" and "lower < 2 ^ 32" and "upper < 2 ^ 32" and "ho < 2 ^ 32" and "hl < 2 ^ 32"
  shows "header_at (put d 0 (header_bytes kind flags count lower upper 0 0 ho hl r l))
    \<lparr>h_kind = kind, h_flags = flags, h_count = count, h_lower = lower, h_upper = upper,
     h_prefix_offset = 0, h_prefix_len = 0, h_high_offset = ho, h_high_len = hl,
     h_right_sibling = page_option r, h_leftmost_child = page_option l\<rparr>"
proof -
  let ?b = "header_bytes kind flags count lower upper 0 0 ho hl r l"
  have s: "slice (put d 0 ?b) o1 n = slice ?b o1 n" if "o1 + n \<le> 52" for o1 n
    using that assms(1) by (simp add: slice_put_inside)
  have "put d 0 ?b ! 6 = ?b ! 6" "put d 0 ?b ! 7 = ?b ! 7" using assms(1) by (simp_all add: nth_put)
  moreover have "?b ! 6 = kind_byte kind" "?b ! 7 = flags"
    by (simp_all add: header_bytes_def nth_append)
  moreover have "slice ?b 0 4 = le_bytes 4 PAGE_MAGIC" "slice ?b 4 2 = le_bytes 2 PAGE_VERSION"
    "slice ?b 8 4 = le_bytes 4 (of_nat count :: u32)" "slice ?b 12 4 = le_bytes 4 (of_nat lower :: u32)"
    "slice ?b 16 4 = le_bytes 4 (of_nat upper :: u32)" "slice ?b 20 4 = le_bytes 4 (of_nat 0 :: u32)"
    "slice ?b 24 4 = le_bytes 4 (of_nat 0 :: u32)" "slice ?b 28 4 = le_bytes 4 (of_nat ho :: u32)"
    "slice ?b 32 4 = le_bytes 4 (of_nat hl :: u32)" "slice ?b 36 8 = le_bytes 8 r" "slice ?b 44 8 = le_bytes 8 l"
    by (simp_all add: header_bytes_def slice_def)
  ultimately show ?thesis
    using assms by (simp add: header_at_def s unat_of_nat take_bit_nat_eq_self)
qed

section \<open>The entry loop\<close>

definition ee_body :: "EncodedEntry \<Rightarrow> bytes" where
  "ee_body e = (case ee_payload e of EP_Leaf v \<Rightarrow> value_bytes v | EP_Child c \<Rightarrow> le_bytes 8 c)"

definition ee_pair :: "EncodedEntry \<Rightarrow> bytes \<times> bytes" where
  "ee_pair e = (ee_key e, ee_body e)"

definition ee_ok :: "bool \<Rightarrow> EncodedEntry \<Rightarrow> bool" where
  "ee_ok leaf e \<longleftrightarrow> length (ee_key e) \<le> U16_MAX \<and>
     (case ee_payload e of EP_Leaf v \<Rightarrow> leaf \<and> length (value_bytes v) \<le> Suc U16_MAX
      | EP_Child c \<Rightarrow> \<not> leaf \<and> c \<noteq> NONE_PAGE)"

definition capacity_error :: "PageError \<Rightarrow> bool" where
  "capacity_error e \<longleftrightarrow> e \<in> {PageError ''slot array does not fit page'',
     PageError ''entry heap does not fit page'', PageError ''page does not fit encoded entries''}"

abbreviation ee_size :: "EncodedEntry \<Rightarrow> nat" where
  "ee_size e \<equiv> length (ee_key e) + length (ee_body e)"

lemma ee_ok_body: "ee_ok leaf e \<Longrightarrow> body_ok leaf (ee_body e)"
  by (auto simp: ee_ok_def body_ok_def ee_body_def split: EncodedPayload.splits)

lemma ee_ok_payload:
  assumes "ee_ok leaf e"
  obtains (leaf) t b where "leaf" "encode_payload (ee_payload e) = Inr (Some t, b)" "ee_body e = t # b"
      "length b \<le> U16_MAX"
    | (child) b where "\<not> leaf" "encode_payload (ee_payload e) = Inr (None, b)" "ee_body e = b" "length b = 8"
proof (cases "ee_payload e")
  case (EP_Leaf v)
  then show ?thesis using assms leaf
    by (cases v) (auto simp: ee_ok_def encode_payload_def ee_body_def value_bytes_def)
next
  case (EP_Child c)
  then show ?thesis using assms child by (auto simp: ee_ok_def encode_payload_def ee_body_def)
qed

lemma build_entry_ok:
  assumes ok: "ee_ok leaf e" and "index < count" and lower: "lower = 64 + 12 * count"
    and fit: "lower + ee_size e \<le> upper" and "upper \<le> length d" and "length d \<le> U32_MAX"
  shows "build_entry count lower index e upper d =
     (Inr (upper - ee_size e),
      put (put d (upper - ee_size e) (ee_key e @ ee_body e)) (64 + 12 * index)
        (entry_slot leaf (upper - ee_size e) (ee_pair e)))"
proof -
  have l: "length d < 2 ^ 64" "64 + 12 * index + 12 \<le> length d" "upper - ee_size e < 2 ^ 32"
      "length (ee_key e) \<le> U16_MAX"
    using assms by (auto simp: ee_ok_def)
  from ok show ?thesis
  proof (cases rule: ee_ok_payload)
    case (leaf t b)
    then show ?thesis
      unfolding build_entry_def using assms(2-) l
      by (simp add: Let_def buf_simps sbind_assoc checked_add_usize_def checked_sub_usize_def
          sbind_write_slot put_put_adjacent entry_slot_def ee_pair_def)
  next
    case (child b)
    then show ?thesis
      unfolding build_entry_def using assms(2-) l
      by (simp add: Let_def buf_simps sbind_assoc checked_add_usize_def checked_sub_usize_def
          sbind_write_slot put_put_adjacent entry_slot_def ee_pair_def)
  qed
qed

lemma build_entry_full:
  assumes ok: "ee_ok leaf e" and "index < count"
    and fit: "upper < lower + ee_size e" and "upper \<le> length d" and "length d \<le> U32_MAX"
  shows "\<exists>m. build_entry count lower index e upper d = (Inl m, d) \<and> capacity_error m"
proof -
  have l: "length (ee_key e) \<le> U16_MAX" using assms by (auto simp: ee_ok_def)
  from ok show ?thesis
  proof (cases rule: ee_ok_payload)
    case (leaf t b)
    then show ?thesis
      unfolding build_entry_def using assms(2-) l
      by (auto simp: checked_add_usize_def checked_sub_usize_def capacity_error_def)
  next
    case (child b)
    then show ?thesis
      unfolding build_entry_def using assms(2-) l
      by (auto simp: checked_add_usize_def checked_sub_usize_def capacity_error_def)
  qed
qed

abbreviation ee_total :: "EncodedEntry list \<Rightarrow> nat" where
  "ee_total es \<equiv> entries_size (map ee_pair es)"

definition loop_frame :: "nat \<Rightarrow> nat \<Rightarrow> nat \<Rightarrow> nat \<Rightarrow> bytes \<Rightarrow> bytes \<Rightarrow> bool" where
  "loop_frame slots_from slots_to heap_from heap_to d d' \<longleftrightarrow> length d' = length d \<and>
     (\<forall>i < length d. (i < slots_from \<or> slots_to \<le> i) \<longrightarrow> (i < heap_from \<or> heap_to \<le> i) \<longrightarrow> d' ! i = d ! i)"

lemma loop_frame_slice:
  assumes "loop_frame sf st hf ht d d'" and "o1 + n \<le> length d"
    and "o1 + n \<le> sf \<or> st \<le> o1" and "o1 + n \<le> hf \<or> ht \<le> o1"
  shows "slice d' o1 n = slice d o1 n"
  using assms by (intro slice_eqI) (auto simp: loop_frame_def)

lemma ee_pair_sel [simp]: "fst (ee_pair e) = ee_key e" "snd (ee_pair e) = ee_body e"
  by (simp_all add: ee_pair_def)

lemma build_entries_ok:
  assumes "\<forall>e \<in> set es. ee_ok leaf e" and "index + length es \<le> count" and "lower = 64 + 12 * count"
    and "lower + ee_total es \<le> upper" and "upper \<le> length d" and "length d \<le> U32_MAX"
  shows "\<exists>d'. build_entries count lower index es upper d = (Inr (index + length es, upper - ee_total es), d') \<and>
     (\<forall>j < length es. entry_on d' leaf (upper - ee_total (take (Suc j) es)) (index + j) (ee_pair (es ! j))) \<and>
     loop_frame (64 + 12 * index) (64 + 12 * (index + length es)) (upper - ee_total es) upper d d'"
  using assms
proof (induction es arbitrary: index upper d)
  case Nil
  then show ?case by (simp add: loop_frame_def)
next
  case (Cons e es)
  let ?u = "upper - ee_size e"
  define d1 where "d1 = put (put d ?u (ee_key e @ ee_body e)) (64 + 12 * index) (entry_slot leaf ?u (ee_pair e))"
  have fits: "lower + ee_size e \<le> upper" "64 + 12 * index + 12 \<le> lower" "lower \<le> ?u" "?u + ee_size e = upper"
      "lower + ee_total es \<le> ?u"
    using Cons.prems by auto
  have l1: "length d1 = length d" using fits Cons.prems by (simp add: d1_def)
  have b: "build_entry count lower index e upper d = (Inr ?u, d1)"
    unfolding d1_def by (rule build_entry_ok) (use Cons.prems fits in auto)
  obtain d' where d': "build_entries count lower (index + 1) es ?u d1 =
        (Inr (index + 1 + length es, ?u - ee_total es), d')"
      "\<forall>j < length es. entry_on d' leaf (?u - ee_total (take (Suc j) es)) (index + 1 + j) (ee_pair (es ! j))"
      "loop_frame (64 + 12 * (index + 1)) (64 + 12 * (index + 1 + length es)) (?u - ee_total es) ?u d1 d'"
    using Cons.IH [of "index + 1" ?u d1] Cons.prems fits l1 by auto
  have s1: "slice d1 (64 + 12 * index) 12 = entry_slot leaf ?u (ee_pair e)"
    "slice d1 ?u (ee_size e) = ee_key e @ ee_body e"
    using fits Cons.prems by (simp_all add: d1_def buf_simps)
  have on: "entry_on d' leaf ?u index (ee_pair e)"
    using s1 loop_frame_slice [OF d'(3), of "64 + 12 * index" 12] loop_frame_slice [OF d'(3), of ?u "ee_size e"]
      fits l1 d'(3) Cons.prems
    by (auto simp: entry_on_def loop_frame_def)
  have "entry_on d' leaf (upper - ee_total (take (Suc j) (e # es))) (index + j) (ee_pair ((e # es) ! j))"
    if "j < length (e # es)" for j
  proof (cases j)
    case 0
    with on show ?thesis by simp
  next
    case (Suc k)
    with d'(2) that show ?thesis by (simp add: diff_diff_eq add.assoc)
  qed
  moreover have "loop_frame (64 + 12 * index) (64 + 12 * (index + length (e # es)))
      (upper - ee_total (e # es)) upper d d'"
    using d'(3) l1 fits Cons.prems
    by (auto simp: loop_frame_def d1_def nth_put)
  ultimately show ?case
    using d'(1) by (intro exI [of _ d']) (simp add: sbind_Inr [of "build_entry count lower index e upper", OF b] diff_diff_eq add.assoc)
qed

lemma build_entries_full:
  assumes "\<forall>e \<in> set es. ee_ok leaf e" and "index + length es \<le> count" and "lower = 64 + 12 * count"
    and "upper < lower + ee_total es" and "lower \<le> upper" and "upper \<le> length d" and "length d \<le> U32_MAX"
  shows "\<exists>m d'. build_entries count lower index es upper d = (Inl m, d') \<and> capacity_error m"
  using assms
proof (induction es arbitrary: index upper d)
  case (Cons e es)
  let ?u = "upper - ee_size e"
  show ?case
  proof (cases "lower + ee_size e \<le> upper")
    case True
    define d1 where "d1 = put (put d ?u (ee_key e @ ee_body e)) (64 + 12 * index) (entry_slot leaf ?u (ee_pair e))"
    have b: "build_entry count lower index e upper d = (Inr ?u, d1)"
      unfolding d1_def by (rule build_entry_ok) (use Cons.prems True in auto)
    have "length d1 = length d" using True Cons.prems by (simp add: d1_def)
    then have "\<exists>m d'. build_entries count lower (index + 1) es ?u d1 = (Inl m, d') \<and> capacity_error m"
      using Cons.IH [of "index + 1" ?u d1] Cons.prems True by auto
    with b show ?thesis by (simp add: sbind_Inr)
  next
    case False
    then have "\<exists>m. build_entry count lower index e upper d = (Inl m, d) \<and> capacity_error m"
      by (intro build_entry_full) (use Cons.prems in auto)
    then show ?thesis by (auto simp: sbind_def)
  qed
qed simp

section \<open>Validation of a stacked heap\<close>

definition entry_end :: "bytes \<times> bytes \<Rightarrow> nat" where
  "entry_end e = length (fst e) + length (snd e)"

lemma rep_entry_length:
  assumes "rep_at data h v" and "i < length (pv_entries v)"
  shows "entry_length \<lparr>pr_data = data, pr_header = h\<rparr>
    \<lparr>sl_offset = off, sl_key_len = length (fst (pv_entries v ! i)),
     sl_payload_len = length (snd (pv_entries v ! i)) - (if pv_leaf v then 1 else 0), sl_head = head\<rparr> =
    Inr (entry_end (pv_entries v ! i))"
proof -
  let ?e = "pv_entries v ! i"
  have "?e \<in> set (pv_entries v)" using assms(2) by simp
  then have ok: "length (fst ?e) \<le> U16_MAX" "body_ok (pv_leaf v) (snd ?e)"
    using assms(1) by (auto simp: rep_at_def view_ok_def)
  show ?thesis
  proof (cases "pv_leaf v")
    case True
    with ok body_ok_length [OF ok(2)] rep_at_bounds(6) [OF assms(1)] show ?thesis
      by (auto simp: entry_length_def entry_end_def checked_add_usize_def)
  next
    case False
    then have "length (snd ?e) = 8" using ok(2) by (auto simp: body_ok_def)
    with False ok rep_at_bounds(6) [OF assms(1)] show ?thesis
      by (simp add: entry_length_def entry_end_def)
  qed
qed

lemma validate_entries_rep:
  assumes rep: "rep_at data h v"
    and on: "\<And>i. i < length (pv_entries v) \<Longrightarrow> entry_on data (pv_leaf v) (offs i) i (pv_entries v ! i) \<and> h_upper h \<le> offs i"
  shows "k \<le> length (pv_entries v) \<Longrightarrow>
     (case prev of None \<Rightarrow> True | Some x \<Rightarrow> k < length (pv_entries v) \<longrightarrow> x \<le> pv_keys v ! k) \<Longrightarrow>
     validate_entries \<lparr>pr_data = data, pr_header = h\<rparr> [k..<length (pv_entries v)] prev spans =
       Inr (spans @ map (\<lambda>i. (offs i, offs i + entry_end (pv_entries v ! i))) [k..<length (pv_entries v)])"
proof (induction "length (pv_entries v) - k" arbitrary: k prev spans)
  case (Suc m)
  then have k: "k < length (pv_entries v)" by simp
  let ?e = "pv_entries v ! k" and ?p = "\<lparr>pr_data = data, pr_header = h\<rparr>"
  have up: "[k..<length (pv_entries v)] = k # [Suc k..<length (pv_entries v)]"
    using k by (simp add: upt_conv_Cons)
  have b: "h_upper h \<le> offs k" "offs k + entry_end ?e \<le> length data" "length data < 2 ^ 64"
    using on [OF k] rep_at_bounds(5) [OF rep] by (auto simp: entry_on_def entry_end_def)
  have prev: "\<not> (case prev of None \<Rightarrow> False | Some x \<Rightarrow> x > pv_keys v ! k)"
    using Suc.prems(2) k by (auto split: option.splits)
  have payload: "(if h_kind h = Leaf then rbind (page_value ?p k) (\<lambda>_. Inr ()) else rbind (page_child ?p k) (\<lambda>_. Inr ())) = Inr ()"
    using rep_value [OF rep k] rep_child [OF rep k] rep_at_bounds(6) [OF rep] by (cases "pv_leaf v") auto
  have "Suc k < length (pv_entries v) \<longrightarrow> pv_keys v ! k \<le> pv_keys v ! Suc k"
    using sorted_wrt_nth_less [OF rep_sorted [OF rep], of k "Suc k"] by auto
  then have IH: "validate_entries ?p [Suc k..<length (pv_entries v)] (Some (pv_keys v ! k)) sp =
     Inr (sp @ map (\<lambda>i. (offs i, offs i + entry_end (pv_entries v ! i))) [Suc k..<length (pv_entries v)])" for sp
    using Suc.hyps(1) [of "Suc k" "Some (pv_keys v ! k)"] Suc.hyps(2) k by simp
  show ?case
    unfolding up validate_entries.simps
    using entry_on_slot [OF rep k conjunct1 [OF on [OF k]]] rep_entry_length [OF rep k] b prev payload
      rep_full_key [OF rep k] IH
    by simp
qed simp

lemma no_overlap:
  assumes "sorted_wrt (\<lambda>a b. snd a \<le> fst b) L" and "\<forall>a \<in> set L. fst a \<le> snd a"
  shows "sorted (L :: (nat \<times> nat) list) \<and> \<not> any_overlap L"
  using assms
proof (induction L rule: any_overlap.induct)
  case (1 a b rest)
  then show ?case by (auto simp: less_eq_prod_def intro: order_trans)
qed auto

lemma take_size_mono: "i \<le> j \<Longrightarrow> entries_size (take i es) \<le> entries_size (take j es)"
  by (metis entries_size_simps(3) le_add1 le_Suc_ex take_add)

lemma take_size_le: "entries_size (take i es) \<le> entries_size es"
  by (metis append_take_drop_id entries_size_simps(3) le_add1)

lemma take_Suc_size:
  "i < length es \<Longrightarrow> entries_size (take (Suc i) es) = entries_size (take i es) + entry_end (es ! i)"
  by (simp add: take_Suc_conv_app_nth entry_end_def)

lemma validate_full_stacked:
  assumes rep: "rep_at data h v"
    and on: "\<And>i. i < length (pv_entries v) \<Longrightarrow>
      entry_on data (pv_leaf v) (U - entries_size (take (Suc i) (pv_entries v))) i (pv_entries v ! i)"
    and U: "h_upper h = U - entries_size (pv_entries v)" "entries_size (pv_entries v) \<le> U"
    and high: "pv_high v \<noteq> None \<Longrightarrow> h_high_offset h = U"
  shows "validate_full \<lparr>pr_data = data, pr_header = h\<rparr> = Inr ()"
proof -
  let ?es = "pv_entries v"
  define offs where "offs = (\<lambda>i. U - entries_size (take (Suc i) ?es))"
  define sp where "sp = map (\<lambda>i. (offs i, offs i + entry_end (?es ! i))) [0..<length ?es]"
  define hi where "hi = (if pv_high v = None then [] else [(h_high_offset h, h_high_offset h + h_high_len h)])"
  have ends: "offs i + entry_end (?es ! i) = U - entries_size (take i ?es)" if "i < length ?es" for i
    using that U(2) take_Suc_size [OF that] take_size_le [of "Suc i" ?es] by (simp add: offs_def)
  have v: "validate_entries \<lparr>pr_data = data, pr_header = h\<rparr> [0..<length ?es] None [] = Inr sp"
    using validate_entries_rep [OF rep, of offs 0 None "[]"] on U(1)
    by (simp add: offs_def sp_def diff_le_mono2 take_size_le)
  have ij: "offs j + entry_end (?es ! j) \<le> offs i" if "i < j" "j < length ?es" for i j
    using ends [OF that(2)] take_size_mono [of "Suc i" j ?es] that by (simp add: offs_def diff_le_mono2)
  have "sorted_wrt (\<lambda>a b. snd b \<le> fst a) sp"
    using ij by (simp add: sorted_wrt_iff_nth_less sp_def)
  then have "sorted_wrt (\<lambda>a b. snd a \<le> fst b) (rev sp)" by (simp add: sorted_wrt_rev)
  then have chain: "sorted_wrt (\<lambda>a b. snd a \<le> fst b) (rev sp @ hi)"
    using ends high by (auto simp: sorted_wrt_append sp_def hi_def)
  have "\<forall>a \<in> set (rev sp @ hi). fst a \<le> snd a" by (auto simp: sp_def hi_def)
  with chain have no: "sorted (rev sp @ hi)" "\<not> any_overlap (rev sp @ hi)"
    using no_overlap by blast+
  have pos: "fst a < snd a" if "a \<in> set sp" for a
    using that rep by (fastforce simp: sp_def entry_end_def rep_at_def view_ok_def dest: body_ok_length nth_mem)
  have "sorted_wrt (\<lambda>a b. fst a < fst b) (rev sp @ hi)"
  proof (rule sorted_wrt_append [THEN iffD2], intro conjI ballI)
    show "sorted_wrt (\<lambda>a b. fst a < fst b) (rev sp)"
      by (rule sorted_wrt_mono_rel [of _ "\<lambda>a b. snd a \<le> fst b"])
        (use chain pos in \<open>auto simp: sorted_wrt_append intro: less_le_trans [OF pos]\<close>)
    show "sorted_wrt (\<lambda>a b. fst a < fst b) hi" by (simp add: hi_def)
    show "fst a < fst b" if "a \<in> set (rev sp)" "b \<in> set hi" for a b
      using chain pos [of a] that by (auto simp: sorted_wrt_append intro: less_le_trans)
  qed
  then have "distinct (rev sp @ hi)"
    by (metis distinct_map sorted_wrt_map strict_sorted_iff)
  then have "sort (sp @ hi) = rev sp @ hi"
    using no(1) by (intro sorted_distinct_set_unique) auto
  with no(2) have s: "\<not> any_overlap (sort (sp @ hi))" by simp
  have hh: "h_flags h AND FLAG_HIGH_FENCE \<noteq> 0 \<longleftrightarrow> pv_high v \<noteq> None"
    using rep_at_bounds(7) [OF rep] by (simp add: has_high_def)
  have "h_prefix_len h = 0" using rep by (simp add: rep_at_def view_at_def)
  then show ?thesis
    using v s hh rep_at_bounds(1) [OF rep]
    by (cases "pv_high v = None") (simp_all add: validate_full_def Let_def hi_def)
qed

section \<open>A built page represents its entries\<close>

definition page_fits :: "nat \<Rightarrow> PageView \<Rightarrow> bool" where
  "page_fits n v \<longleftrightarrow> 64 + 12 * length (pv_entries v) + heap_used v \<le> n"

text \<open>A page without garbage in its heap.\<close>

definition page_tight :: "bytes \<Rightarrow> PageView \<Rightarrow> bool" where
  "page_tight data v \<longleftrightarrow> (\<exists>h. rep_at data h v \<and> heap_used v + h_upper h = length data)"

lemma page_tight_rep: "page_tight data v \<Longrightarrow> page_rep data v"
  by (auto simp: page_tight_def page_rep_def)

definition high_size :: "(bytes \<times> PageId) option \<Rightarrow> nat" where
  "high_size high = (case high of None \<Rightarrow> 0 | Some (hi, r) \<Rightarrow> length hi)"

lemma heap_used_eq: "heap_used v = high_size (pv_high v) + entries_size (pv_entries v)"
  by (simp add: heap_used_def high_size_def)

lemma place_high_ok:
  assumes "high_size high \<le> n" and "n = length d"
  shows "\<exists>d'. place_high n (map_option fst high) d =
       (Inr (n - high_size high, if high = None then 0 else n - high_size high, high_size high,
             if high = None then 0 else FLAG_HIGH_FENCE), d') \<and>
     length d' = length d \<and> (\<forall>hi r. high = Some (hi, r) \<longrightarrow> slice d' (n - length hi) (length hi) = hi)"
proof (cases high)
  case (Some b)
  then obtain hi r where "high = Some (hi, r)" by (cases b) auto
  with assms show ?thesis
    by (simp add: place_high_def high_size_def checked_sub_usize_def buf_simps)
qed (simp add: place_high_def high_size_def)

lemma flag_high: "((if P then 0 else FLAG_HIGH_FENCE) AND FLAG_HIGH_FENCE \<noteq> (0 :: u8)) = (\<not> P)"
  by (simp add: FLAG_HIGH_FENCE_def)

lemma page_option_raw: "o1 \<noteq> Some NONE_PAGE \<Longrightarrow> page_option (page_raw o1) = o1"
  by (cases o1) (simp_all add: page_option_def page_raw_def)

lemma built_rep:
  assumes d: "length d = n" "76 \<le> n" "n \<le> U32_MAX"
    and v: "view_ok v" "page_fits n v"
    and ids: "map_option snd (pv_high v) \<noteq> Some NONE_PAGE" "pv_leftmost v \<noteq> Some NONE_PAGE"
    and hi: "\<forall>hi r. pv_high v = Some (hi, r) \<longrightarrow> slice d (n - length hi) (length hi) = hi"
    and U: "U = n - high_size (pv_high v)"
    and on: "\<And>i. i < length (pv_entries v) \<Longrightarrow>
      entry_on d (pv_leaf v) (U - entries_size (take (Suc i) (pv_entries v))) i (pv_entries v ! i)"
  defines "u \<equiv> U - entries_size (pv_entries v)"
  defines "d' \<equiv> put d 0 (header_bytes (if pv_leaf v then Leaf else Internal)
      (if pv_high v = None then 0 else FLAG_HIGH_FENCE) (length (pv_entries v)) (64 + 12 * length (pv_entries v)) u 0 0
      (if pv_high v = None then 0 else U) (high_size (pv_high v))
      (page_raw (map_option snd (pv_high v))) (page_raw (pv_leftmost v)))"
  shows "page_tight d' v" and "rbind (page_parse d') validate_full = Inr ()"
proof -
  let ?es = "pv_entries v" and ?hs = "high_size (pv_high v)"
  define h where "h = \<lparr>h_kind = (if pv_leaf v then Leaf else Internal),
     h_flags = (if pv_high v = None then 0 else FLAG_HIGH_FENCE), h_count = length ?es,
     h_lower = 64 + 12 * length ?es, h_upper = u, h_prefix_offset = 0, h_prefix_len = 0,
     h_high_offset = (if pv_high v = None then 0 else U), h_high_len = ?hs,
     h_right_sibling = page_option (page_raw (map_option snd (pv_high v))),
     h_leftmost_child = page_option (page_raw (pv_leftmost v))\<rparr>"
  have fit: "64 + 12 * length ?es + ?hs + entries_size ?es \<le> n"
    using v(2) by (simp add: page_fits_def heap_used_eq)
  have u: "u = n - ?hs - entries_size ?es" "64 + 12 * length ?es \<le> u" "u \<le> n" "u + entries_size ?es = U" "U \<le> n"
    using fit by (auto simp: u_def U)
  have l': "length d' = n" using d by (simp add: d'_def)
  have hs: "?hs = 0" if "pv_high v = None" using that by (simp add: high_size_def)
  have ha: "header_at d' h"
    unfolding d'_def h_def by (rule header_at_put) (use d u U fit in auto)
  have ho: "header_ok (length d') h"
    using l' u U fit flag_high [of "pv_high v = None"] page_option_raw [OF ids(1)] page_option_raw [OF ids(2)] hs
    by (auto simp: header_ok_def has_high_def h_def)
  have parse: "page_parse d' = Inr \<lparr>pr_data = d', pr_header = h\<rparr>"
    using ha ho by (simp add: page_parse_iff)
  have sl: "slice d' o1 m = slice d o1 m" if "52 \<le> o1" "o1 + m \<le> n" for o1 m
    using that d by (simp add: d'_def buf_simps)
  have on': "entry_on d' (pv_leaf v) (U - entries_size (take (Suc i) ?es)) i (?es ! i)" if i: "i < length ?es" for i
  proof -
    have "52 \<le> U - entries_size (take (Suc i) ?es)"
      using u take_size_le [of "Suc i" ?es] by linarith
    then show ?thesis
      using on [OF i] u i d l' by (auto simp: entry_on_def sl)
  qed
  have "view_at d' h v"
  proof -
    have "u \<le> U - entries_size (take (Suc i) ?es)" for i
      using u take_size_le [of "Suc i" ?es] by linarith
    then have "\<forall>i < length ?es. entry_at d' (pv_leaf v) u i (?es ! i)"
      using on' by (auto simp: entry_at_def)
    moreover have "high_at d' h (pv_high v)"
      using page_option_raw [OF ids(1)] hi u U fit d
      by (auto simp: high_at_def h_def high_size_def sl split: option.splits)
    moreover have "heap_used v + u \<le> length d'"
      using u fit l' by (simp add: heap_used_eq)
    ultimately show ?thesis
      using page_option_raw [OF ids(2)] by (simp add: view_at_def h_def)
  qed
  with parse v(1) have rep: "rep_at d' h v" by (simp add: rep_at_def)
  then show "page_tight d' v"
    using u fit l' by (auto simp: page_tight_def heap_used_eq h_def intro!: exI [of _ h])
  have "validate_full \<lparr>pr_data = d', pr_header = h\<rparr> = Inr ()"
    by (rule validate_full_stacked [OF rep on']) (use u in \<open>auto simp: h_def\<close>)
  with parse show "rbind (page_parse d') validate_full = Inr ()" by simp
qed

definition size_ok :: "nat \<Rightarrow> bool" where
  "size_ok n \<longleftrightarrow> 76 \<le> n \<and> n \<le> U32_MAX"

text \<open>The identifiers a page may hold: never the reserved one.\<close>

definition ids_ok :: "PageView \<Rightarrow> bool" where
  "ids_ok v \<longleftrightarrow> map_option snd (pv_high v) \<noteq> Some NONE_PAGE \<and> pv_leftmost v \<noteq> Some NONE_PAGE"

abbreviation build_view :: "nat \<Rightarrow> PageView \<Rightarrow> EncodedEntry list \<Rightarrow> PageError + bytes" where
  "build_view n v es \<equiv> build_page n (if pv_leaf v then Leaf else Internal) (pv_leftmost v)
     (map_option fst (pv_high v)) (map_option snd (pv_high v)) es (length es)"

lemma build_image_entries:
  assumes "size_ok n" and "length d = n" and "high_size (pv_high v) \<le> n"
    and "64 + 12 * length es \<le> n - high_size (pv_high v)"
  obtains d' where "length d' = n"
    "\<And>hi r. pv_high v = Some (hi, r) \<Longrightarrow> slice d' (n - length hi) (length hi) = hi"
    "build_image n kind leftmost (map_option fst (pv_high v)) right es (length es) d =
      sbind (build_entries (length es) (64 + 12 * length es) 0 es (n - high_size (pv_high v))) (\<lambda>(actual_count, upper).
       if actual_count \<noteq> length es then sfail (PageError ''entry iterator count disagrees with header'')
       else sbind (write_header kind (if pv_high v = None then 0 else FLAG_HIGH_FENCE) (length es)
              (64 + 12 * length es) upper 0 0 (if pv_high v = None then 0 else n - high_size (pv_high v))
              (high_size (pv_high v)) right leftmost) (\<lambda>_.
         sget (\<lambda>data. rbind (page_parse data) validate_full))) d'"
proof -
  obtain d' where d': "place_high n (map_option fst (pv_high v)) d =
       (Inr (n - high_size (pv_high v), if pv_high v = None then 0 else n - high_size (pv_high v),
             high_size (pv_high v), if pv_high v = None then 0 else FLAG_HIGH_FENCE), d')"
      "length d' = length d" "\<forall>hi r. pv_high v = Some (hi, r) \<longrightarrow> slice d' (n - length hi) (length hi) = hi"
    using place_high_ok [OF assms(3), of d] assms(2) by auto
  have "12 * length es < 2 ^ 64" using assms by (auto simp: size_ok_def)
  then show thesis
    using that [of d'] d' assms
    by (auto simp: build_image_def sbind_Inr [of "place_high n (map_option fst (pv_high v))", OF d'(1)]
        checked_mul_usize_def mult.commute [of _ 12] size_ok_def)
qed

lemma build_page_ok:
  assumes es: "\<forall>e \<in> set es. ee_ok (pv_leaf v) e" "map ee_pair es = pv_entries v"
    and v: "sorted_wrt (<) (pv_keys v)" "ids_ok v" "page_fits n v" and n: "size_ok n"
  shows "\<exists>data. build_view n v es = Inr data \<and> length data = n \<and> page_tight data v"
proof -
  let ?hs = "high_size (pv_high v)" and ?U = "n - high_size (pv_high v)"
  have fit: "64 + 12 * length es + ?hs + ee_total es \<le> n"
    using v(3) es(2) [symmetric] by (simp add: page_fits_def heap_used_eq)
  then have hs: "?hs \<le> n" and room: "64 + 12 * length es \<le> ?U"
      and sum: "64 + 12 * length es + ee_total es \<le> ?U" by auto
  have vo: "view_ok v"
    using es v(1) ee_ok_body by (auto simp: view_ok_def es(2) [symmetric] ee_pair_def ee_ok_def)
  obtain d1 where d1: "length d1 = n"
      "\<And>hi r. pv_high v = Some (hi, r) \<Longrightarrow> slice d1 (n - length hi) (length hi) = hi"
      "build_image n (if pv_leaf v then Leaf else Internal) (pv_leftmost v) (map_option fst (pv_high v))
         (map_option snd (pv_high v)) es (length es) (replicate n 0) =
      sbind (build_entries (length es) (64 + 12 * length es) 0 es ?U) (\<lambda>(actual_count, upper).
       if actual_count \<noteq> length es then sfail (PageError ''entry iterator count disagrees with header'')
       else sbind (write_header (if pv_leaf v then Leaf else Internal)
              (if pv_high v = None then 0 else FLAG_HIGH_FENCE) (length es)
              (64 + 12 * length es) upper 0 0 (if pv_high v = None then 0 else ?U)
              ?hs (map_option snd (pv_high v)) (pv_leftmost v)) (\<lambda>_.
         sget (\<lambda>data. rbind (page_parse data) validate_full))) d1"
    using build_image_entries [OF n length_replicate hs room, where x1 = 0] by blast
  have n': "n \<le> U32_MAX" "76 \<le> n" using n by (auto simp: size_ok_def)
  obtain d2 where d2: "build_entries (length es) (64 + 12 * length es) 0 es ?U d1 =
        (Inr (length es, ?U - ee_total es), d2)"
      "\<forall>j < length es. entry_on d2 (pv_leaf v) (?U - ee_total (take (Suc j) es)) j (ee_pair (es ! j))"
      "loop_frame 64 (64 + 12 * length es) (?U - ee_total es) ?U d1 d2"
    using build_entries_ok [OF es(1) _ refl sum, of 0 d1] d1(1) n' by auto
  have l2: "length d2 = n" using d2(3) d1(1) by (simp add: loop_frame_def)
  have hi: "slice d2 (n - length hi) (length hi) = hi" if "pv_high v = Some (hi, r)" for hi r
  proof -
    have "64 + 12 * length es \<le> n - length hi" "length hi \<le> n"
      using room hs that by (simp_all add: high_size_def)
    then show ?thesis
      using d1(2) [OF that] that d1(1) loop_frame_slice [OF d2(3), of "n - length hi" "length hi"]
      by (simp add: high_size_def)
  qed
  have on: "entry_on d2 (pv_leaf v) (?U - entries_size (take (Suc i) (pv_entries v))) i (pv_entries v ! i)"
    if "i < length (pv_entries v)" for i
    using d2(2) that by (simp add: es(2) [symmetric] take_map)
  have len: "length es = length (pv_entries v)" "ee_total es = entries_size (pv_entries v)"
    by (simp_all add: es(2) [symmetric])
  have ids: "map_option snd (pv_high v) \<noteq> Some NONE_PAGE" "pv_leftmost v \<noteq> Some NONE_PAGE"
    using v(2) by (simp_all add: ids_ok_def)
  define D where "D = put d2 0 (header_bytes (if pv_leaf v then Leaf else Internal)
      (if pv_high v = None then 0 else FLAG_HIGH_FENCE) (length (pv_entries v)) (64 + 12 * length (pv_entries v))
      (?U - entries_size (pv_entries v)) 0 0 (if pv_high v = None then 0 else ?U) ?hs
      (page_raw (map_option snd (pv_high v))) (page_raw (pv_leftmost v)))"
  have built: "page_tight D v" "rbind (page_parse D) validate_full = Inr ()"
    unfolding D_def using built_rep [OF l2 n'(2,1) vo v(3) ids _ refl on] hi by blast+
  have "build_image n (if pv_leaf v then Leaf else Internal) (pv_leftmost v) (map_option fst (pv_high v))
      (map_option snd (pv_high v)) es (length es) (replicate n 0) = (Inr (), D)"
    unfolding d1(3) sbind_Inr [of "build_entries (length es) (64 + 12 * length es) 0 es ?U", OF d2(1)] prod.case
    using built(2) n' l2
    by (simp add: sbind_write_header len D_def del: rbind_eq_Inr split del: if_split)
  then show ?thesis
    using built(1) n' l2 by (auto simp: build_page_def D_def)
qed

lemma build_page_full:
  assumes es: "\<forall>e \<in> set es. ee_ok (pv_leaf v) e" "map ee_pair es = pv_entries v"
    and v: "\<not> page_fits n v" "high_size (pv_high v) \<le> n" "64 + 12 * length es < 2 ^ 64" and n: "size_ok n"
  shows "\<exists>m. build_view n v es = Inl m \<and> capacity_error m"
proof -
  let ?hs = "high_size (pv_high v)" and ?U = "n - high_size (pv_high v)"
  have n': "n \<le> U32_MAX" "76 \<le> n" using n by (auto simp: size_ok_def)
  have fit: "n < 64 + 12 * length es + ?hs + ee_total es"
    using v(1) es(2) [symmetric] by (simp add: page_fits_def heap_used_eq)
  have "\<exists>m d'. build_image n (if pv_leaf v then Leaf else Internal) (pv_leftmost v)
      (map_option fst (pv_high v)) (map_option snd (pv_high v)) es (length es) (replicate n 0) = (Inl m, d') \<and>
      capacity_error m"
  proof (cases "64 + 12 * length es \<le> ?U")
    case True
    have sum: "?U < 64 + 12 * length es + ee_total es" using fit v(2) by linarith
    obtain d1 where d1: "length d1 = n"
      "build_image n (if pv_leaf v then Leaf else Internal) (pv_leftmost v) (map_option fst (pv_high v))
         (map_option snd (pv_high v)) es (length es) (replicate n 0) =
      sbind (build_entries (length es) (64 + 12 * length es) 0 es ?U) (\<lambda>(actual_count, upper).
       if actual_count \<noteq> length es then sfail (PageError ''entry iterator count disagrees with header'')
       else sbind (write_header (if pv_leaf v then Leaf else Internal)
              (if pv_high v = None then 0 else FLAG_HIGH_FENCE) (length es)
              (64 + 12 * length es) upper 0 0 (if pv_high v = None then 0 else ?U)
              ?hs (map_option snd (pv_high v)) (pv_leftmost v)) (\<lambda>_.
         sget (\<lambda>data. rbind (page_parse data) validate_full))) d1"
      using build_image_entries [OF n length_replicate v(2) True, where x1 = 0] by blast
    obtain m d' where "build_entries (length es) (64 + 12 * length es) 0 es ?U d1 = (Inl m, d')"
        "capacity_error m"
      using build_entries_full [OF es(1) _ refl sum True, of 0 d1] d1(1) n' by auto
    then show ?thesis unfolding d1(2) by (simp add: sbind_def)
  next
    case False
    obtain d' where d': "place_high n (map_option fst (pv_high v)) (replicate n 0) =
       (Inr (?U, if pv_high v = None then 0 else ?U, ?hs, if pv_high v = None then 0 else FLAG_HIGH_FENCE), d')"
      using place_high_ok [OF v(2), of "replicate n 0"] by auto
    with False v(3) show ?thesis
      by (simp add: build_image_def sbind_Inr [of "place_high n (map_option fst (pv_high v))", OF d'] checked_mul_usize_def mult.commute [of _ 12] capacity_error_def)
  qed
  then show ?thesis using n' by (auto simp: build_page_def split: option.splits)
qed

section \<open>Leaf and internal images\<close>

definition leaf_pair :: "LeafEntryOwned \<Rightarrow> bytes \<times> bytes" where
  "leaf_pair e = (le_key e, value_bytes (le_value e))"

definition int_pair :: "InternalEntryOwned \<Rightarrow> bytes \<times> bytes" where
  "int_pair e = (ine_key e, le_bytes 8 (ine_child e))"

definition leaf_view :: "(bytes \<times> PageId) option \<Rightarrow> LeafEntryOwned list \<Rightarrow> PageView" where
  "leaf_view high es = \<lparr>pv_high = high, pv_leftmost = None, pv_entries = map leaf_pair es\<rparr>"

definition int_view :: "(bytes \<times> PageId) option \<Rightarrow> PageId \<Rightarrow> InternalEntryOwned list \<Rightarrow> PageView" where
  "int_view high leftmost es =
     \<lparr>pv_high = high, pv_leftmost = Some leftmost, pv_entries = map int_pair es\<rparr>"

lemma view_sel [simp]:
  "pv_high (leaf_view high es) = high" "pv_leftmost (leaf_view high es) = None"
  "pv_entries (leaf_view high es) = map leaf_pair es"
  "pv_high (int_view high l cs) = high" "pv_leftmost (int_view high l cs) = Some l"
  "pv_entries (int_view high l cs) = map int_pair cs"
  by (simp_all add: leaf_view_def int_view_def)

lemma pair_fst [simp]: "fst (leaf_pair e) = le_key e" "fst (int_pair c) = ine_key c"
  by (simp_all add: leaf_pair_def int_pair_def)

lemma leaf_entry_pair [simp]: "leaf_entry (leaf_pair e) = e"
  by (simp add: leaf_entry_def leaf_pair_def)

lemma internal_entry_pair [simp]: "internal_entry (int_pair c) = c"
  by (simp add: internal_entry_def int_pair_def entry_child_def)

lemma entry_child_int_pair [simp]: "entry_child (int_pair c) = ine_child c"
  by (simp add: int_pair_def entry_child_def)

lemma map_entry_pair [simp]:
  "map (leaf_entry \<circ> leaf_pair) es = es" "map (internal_entry \<circ> int_pair) cs = cs"
  by (simp_all add: map_idI)

lemma leaf_view_complete:
  assumes "view_ok v" and "pv_leaf v"
  shows "v = leaf_view (pv_high v) (map leaf_entry (pv_entries v))"
proof -
  have "leaf_pair (leaf_entry e) = e" if "e \<in> set (pv_entries v)" for e
    using assms that by (cases e) (auto simp: view_ok_def body_ok_def leaf_pair_def leaf_entry_def)
  then show ?thesis using assms(2) by (cases v) (simp add: leaf_view_def map_idI)
qed

lemma int_view_complete:
  assumes "view_ok v" and "pv_leftmost v = Some l"
  shows "v = int_view (pv_high v) l (map internal_entry (pv_entries v))"
proof -
  have "int_pair (internal_entry e) = e" if "e \<in> set (pv_entries v)" for e
    using assms that
    by (cases e) (auto simp: view_ok_def body_ok_def int_pair_def internal_entry_def entry_child_def)
  then show ?thesis using assms(2) by (cases v) (simp add: int_view_def map_idI)
qed

definition leaf_ok :: "LeafEntryOwned \<Rightarrow> bool" where
  "leaf_ok e \<longleftrightarrow> length (le_key e) \<le> U16_MAX \<and> length (value_bytes (le_value e)) \<le> Suc U16_MAX"

definition int_ok :: "InternalEntryOwned \<Rightarrow> bool" where
  "int_ok c \<longleftrightarrow> length (ine_key c) \<le> U16_MAX \<and> ine_child c \<noteq> NONE_PAGE"

lemma view_ok_leaf:
  "view_ok (leaf_view high es) \<longleftrightarrow> sorted_wrt (<) (map le_key es) \<and> (\<forall>e \<in> set es. leaf_ok e)"
  by (auto simp: view_ok_def leaf_ok_def body_ok_def leaf_pair_def comp_def)

lemma view_ok_int:
  "view_ok (int_view high l cs) \<longleftrightarrow> sorted_wrt (<) (map ine_key cs) \<and> (\<forall>c \<in> set cs. int_ok c)"
  by (auto simp: view_ok_def int_ok_def body_ok_def int_pair_def comp_def)

lemma build_leaf_ok:
  assumes "view_ok (leaf_view high es)" and "ids_ok (leaf_view high es)"
    and "page_fits n (leaf_view high es)" and "size_ok n"
  shows "\<exists>data. build_leaf n (map_option fst high) (map_option snd high) es = Inr data \<and>
     length data = n \<and> page_tight data (leaf_view high es)"
  unfolding build_leaf_def
  using build_page_ok [of "map (\<lambda>entry. \<lparr>ee_key = le_key entry, ee_payload = EP_Leaf (le_value entry)\<rparr>) es"
      "leaf_view high es" n] assms
  by (auto simp: view_ok_leaf ee_ok_def ee_pair_def ee_body_def leaf_pair_def leaf_ok_def comp_def)

lemma build_leaf_full:
  assumes "view_ok (leaf_view high es)" and "\<not> page_fits n (leaf_view high es)"
    and "high_size high \<le> n" and "64 + 12 * length es < 2 ^ 64" and "size_ok n"
  shows "\<exists>m. build_leaf n (map_option fst high) (map_option snd high) es = Inl m \<and> capacity_error m"
  unfolding build_leaf_def
  using build_page_full [of "map (\<lambda>entry. \<lparr>ee_key = le_key entry, ee_payload = EP_Leaf (le_value entry)\<rparr>) es"
      "leaf_view high es" n] assms
  by (auto simp: view_ok_leaf ee_ok_def ee_pair_def ee_body_def leaf_pair_def leaf_ok_def comp_def)

lemma build_internal_ok:
  assumes "view_ok (int_view high l cs)" and "ids_ok (int_view high l cs)"
    and "page_fits n (int_view high l cs)" and "size_ok n"
  shows "\<exists>data. build_internal n (map_option fst high) (map_option snd high) l cs = Inr data \<and>
     length data = n \<and> page_tight data (int_view high l cs)"
  unfolding build_internal_def
  using build_page_ok [of "map (\<lambda>entry. \<lparr>ee_key = ine_key entry, ee_payload = EP_Child (ine_child entry)\<rparr>) cs"
      "int_view high l cs" n] assms
  by (auto simp: view_ok_int ee_ok_def ee_pair_def ee_body_def int_pair_def int_ok_def comp_def ids_ok_def)

lemma build_internal_full:
  assumes "view_ok (int_view high l cs)" and "l \<noteq> NONE_PAGE" and "\<not> page_fits n (int_view high l cs)"
    and "high_size high \<le> n" and "64 + 12 * length cs < 2 ^ 64" and "size_ok n"
  shows "\<exists>m. build_internal n (map_option fst high) (map_option snd high) l cs = Inl m \<and> capacity_error m"
  unfolding build_internal_def
  using build_page_full [of "map (\<lambda>entry. \<lparr>ee_key = ine_key entry, ee_payload = EP_Child (ine_child entry)\<rparr>) cs"
      "int_view high l cs" n] assms
  by (auto simp: view_ok_int ee_ok_def ee_pair_def ee_body_def int_pair_def int_ok_def comp_def)

section \<open>Compaction and free space\<close>

lemma rep_at_fits: "rep_at data h v \<Longrightarrow> page_fits (length data) v"
  using rep_at_bounds [of data h v] by (simp add: page_fits_def rep_at_def view_at_def)

lemma rep_at_ids:
  assumes "rep_at data h v"
  shows "ids_ok v"
  using rep_at_header(1) [OF assms] assms page_option_eq(2)
  unfolding ids_ok_def header_at_def rep_at_def view_at_def high_at_def
  by (metis (no_types, lifting))

lemma write_slice_all: "length r = length d \<Longrightarrow> write_slice 0 r d = (Inr (), r)"
  by (simp add: write_slice_def put_def)

lemma compact_ok:
  assumes "page_rep data v" and "size_ok (length data)"
  shows "\<exists>data'. compact data = (Inr (), data') \<and> length data' = length data \<and> page_tight data' v"
proof -
  obtain h where h: "page_parse data = Inr \<lparr>pr_data = data, pr_header = h\<rparr>" "rep_at data h v"
    using assms(1) by (rule page_repE)
  have vo: "view_ok v" using h(2) by (simp add: rep_at_def)
  note r = rep_high_fence [OF h(2)] rep_right_sibling [OF h(2)] rep_leftmost_child [OF h(2)] rep_is_leaf [OF h(2)]
  show ?thesis
  proof (cases "pv_leftmost v")
    case None
    let ?es = "map leaf_entry (pv_entries v)"
    have v: "v = leaf_view (pv_high v) ?es" using leaf_view_complete [OF vo None] .
    obtain d where "build_leaf (length data) (map_option fst (pv_high v)) (map_option snd (pv_high v)) ?es = Inr d"
        "length d = length data" "page_tight d v"
      using build_leaf_ok [of "pv_high v" ?es "length data"] vo rep_at_ids [OF h(2)] rep_at_fits [OF h(2)] assms(2)
      by (auto simp flip: v)
    with None r h show ?thesis
      by (simp add: compact_def rep_leaf_entries [OF h(2)] write_slice_all)
  next
    case (Some l)
    let ?es = "map internal_entry (pv_entries v)"
    have v: "v = int_view (pv_high v) l ?es" using int_view_complete [OF vo Some] .
    obtain d where "build_internal (length data) (map_option fst (pv_high v)) (map_option snd (pv_high v)) l ?es = Inr d"
        "length d = length data" "page_tight d v"
      using build_internal_ok [of "pv_high v" l ?es "length data"] vo rep_at_ids [OF h(2)] rep_at_fits [OF h(2)] assms(2)
      by (auto simp flip: v)
    with Some r h show ?thesis
      by (simp add: compact_def rep_internal_entries [OF h(2)] write_slice_all)
  qed
qed

definition room_for :: "bytes \<Rightarrow> nat \<Rightarrow> PageView \<Rightarrow> bool" where
  "room_for data entry_len v \<longleftrightarrow>
     (\<exists>h. rep_at data h v \<and> 64 + 12 * Suc (length (pv_entries v)) + entry_len \<le> h_upper h)"

lemma has_contiguous_space_rep:
  assumes "rep_at data h v"
  shows "has_contiguous_space data entry_len =
           Inr (64 + 12 * Suc (length (pv_entries v)) + entry_len \<le> h_upper h)"
proof -
  have "page_parse data = Inr \<lparr>pr_data = data, pr_header = h\<rparr>" using assms by (simp add: rep_at_def)
  then show ?thesis
    using rep_at_bounds [OF assms]
    by (auto simp: has_contiguous_space_def checked_sub_usize_def)
qed

lemma make_room_ok:
  assumes "page_rep data v" and "size_ok (length data)"
  shows "\<exists>data'. make_room entry_len data =
       (Inr (64 + 12 * Suc (length (pv_entries v)) + heap_used v + entry_len \<le> length data), data') \<and>
     length data' = length data \<and> page_rep data' v \<and>
     (64 + 12 * Suc (length (pv_entries v)) + heap_used v + entry_len \<le> length data \<longrightarrow> room_for data' entry_len v)"
proof -
  obtain h where h: "rep_at data h v" using assms(1) by (rule page_repE)
  have used: "heap_used v + h_upper h \<le> length data" using h by (simp add: rep_at_def view_at_def)
  show ?thesis
  proof (cases "64 + 12 * Suc (length (pv_entries v)) + entry_len \<le> h_upper h")
    case True
    with used h show ?thesis
      by (auto simp: make_room_def sbind_sget has_contiguous_space_rep [OF h] room_for_def page_rep_def)
  next
    case False
    obtain d where d: "compact data = (Inr (), d)" "length d = length data" "page_tight d v"
      using compact_ok [OF assms] by blast
    then obtain h' where h': "rep_at d h' v" "heap_used v + h_upper h' = length d" by (auto simp: page_tight_def)
    have "make_room entry_len data = (Inr (64 + 12 * Suc (length (pv_entries v)) + entry_len \<le> h_upper h'), d)"
      using False by (simp add: make_room_def sbind_sget has_contiguous_space_rep [OF h]
          sbind_Inr [of compact, OF d(1)] has_contiguous_space_rep [OF h'(1)])
    moreover have "(64 + 12 * Suc (length (pv_entries v)) + entry_len \<le> h_upper h') =
        (64 + 12 * Suc (length (pv_entries v)) + heap_used v + entry_len \<le> length data)"
      using h'(2) d(2) by auto
    ultimately show ?thesis using d h' by (auto simp: room_for_def page_rep_def)
  qed
qed

end
