(* ===== verification/Page_Insert.thy ===== *)
theory Page_Insert
  imports Page_Refine
begin

text \<open>
  Updates of a v4 page in place: an insertion puts the entry at the position the binary search
  gave, shifting the later slots up; a removal shifts them down and leaves the entry bytes behind
  as garbage.  Both represent the updated entry list.
\<close>

section \<open>Header updates\<close>

lemma header_at_counts:
  assumes "header_at d h" and "length d' = length d" and same: "\<And>i. i < 52 \<Longrightarrow> d' ! i = d ! i"
    and "c < 2 ^ 32" and "l < 2 ^ 32" and "u < 2 ^ 32"
  shows "header_at (put d' 8 (le_bytes 4 (of_nat c :: u32) @ le_bytes 4 (of_nat l :: u32) @ le_bytes 4 (of_nat u :: u32)))
    (h\<lparr>h_count := c, h_lower := l, h_upper := u\<rparr>)"
proof -
  let ?w = "le_bytes 4 (of_nat c :: u32) @ le_bytes 4 (of_nat l :: u32) @ le_bytes 4 (of_nat u :: u32)"
  have len: "64 \<le> length d'" "length d \<le> U32_MAX" using assms(1,2) by (auto simp: header_at_def)
  have old: "slice (put d' 8 ?w) o1 n = slice d o1 n" if "o1 + n \<le> 8 \<or> 20 \<le> o1" "o1 + n \<le> 52" for o1 n
  proof -
    have "slice (put d' 8 ?w) o1 n = slice d' o1 n" using that len by (intro slice_put_other) auto
    also have "\<dots> = slice d o1 n" using that len assms(2) by (intro slice_eqI) (auto simp: same)
    finally show ?thesis .
  qed
  have new: "slice (put d' 8 ?w) 8 4 = le_bytes 4 (of_nat c :: u32)"
    "slice (put d' 8 ?w) 12 4 = le_bytes 4 (of_nat l :: u32)"
    "slice (put d' 8 ?w) 16 4 = le_bytes 4 (of_nat u :: u32)"
    using len by (simp_all add: slice_put_inside) (simp_all add: slice_def)
  have "put d' 8 ?w ! 6 = d ! 6" "put d' 8 ?w ! 7 = d ! 7" using len by (simp_all add: nth_put same)
  then show ?thesis
    using assms len new old by (simp add: header_at_def unat_of_nat take_bit_nat_eq_self)
qed

lemma page_parse_counts:
  assumes rep: "rep_at d h v" and "length d' = length d" and "\<And>i. i < 52 \<Longrightarrow> d' ! i = d ! i"
    and l: "l = 64 + 12 * c" and u: "l \<le> u" "u \<le> length d"
    and D: "D = put d' 8 (le_bytes 4 (of_nat c :: u32) @ le_bytes 4 (of_nat l :: u32) @ le_bytes 4 (of_nat u :: u32))"
  shows "page_parse D = Inr \<lparr>pr_data = D, pr_header = h\<lparr>h_count := c, h_lower := l, h_upper := u\<rparr>\<rparr>"
proof -
  have b: "length d \<le> U32_MAX" "64 \<le> length d" using rep_at_bounds [OF rep] by auto
  have "header_at D (h\<lparr>h_count := c, h_lower := l, h_upper := u\<rparr>)"
    unfolding D by (rule header_at_counts [OF rep_at_header(1) [OF rep] assms(2,3)]) (use l u b in auto)
  moreover have "length D = length d" using b assms(2) by (simp add: D)
  ultimately show ?thesis
    using rep_at_header(2) [OF rep] l u by (simp add: page_parse_iff header_ok_def has_high_def)
qed

section \<open>Moving entries\<close>

lemma entry_at_moved:
  assumes "entry_at d leaf u i e" and "length d' = length d" and "u' \<le> u"
    and "slice d' (64 + 12 * j) 12 = slice d (64 + 12 * i) 12"
    and "\<And>k. u \<le> k \<Longrightarrow> k < length d \<Longrightarrow> d' ! k = d ! k"
  shows "entry_at d' leaf u' j e"
proof -
  obtain off where off: "u \<le> off" "entry_on d leaf off i e" using assms(1) by (auto simp: entry_at_def)
  have "slice d' off (length (fst e @ snd e)) = slice d off (length (fst e @ snd e))"
    by (rule slice_eqI) (use off assms(2,5) in \<open>auto simp: entry_on_def\<close>)
  with off assms show ?thesis by (auto simp: entry_at_def entry_on_def intro!: exI [of _ off])
qed

lemma high_at_moved:
  assumes "high_at d h high" and "header_ok (length d) h" and "length d' = length d" and "u' \<le> h_upper h"
    and "\<And>k. h_upper h \<le> k \<Longrightarrow> k < length d \<Longrightarrow> d' ! k = d ! k"
  shows "high_at d' (h\<lparr>h_count := c, h_lower := l, h_upper := u'\<rparr>) high"
proof (cases high)
  case (Some b)
  then obtain hi r where b: "high = Some (hi, r)" by (cases b) auto
  with assms(1,2) have f: "h_high_offset h + length hi \<le> length d" "h_upper h \<le> h_high_offset h"
    by (auto simp: high_at_def header_ok_def split: if_splits)
  then have "slice d' (h_high_offset h) (length hi) = slice d (h_high_offset h) (length hi)"
    by (intro slice_eqI) (use assms(3,5) in auto)
  with b assms(1,4) f show ?thesis by (simp add: high_at_def)
qed (use assms(1) in \<open>simp add: high_at_def\<close>)

definition insert_at :: "nat \<Rightarrow> 'a \<Rightarrow> 'a list \<Rightarrow> 'a list" where
  "insert_at i x xs = take i xs @ x # drop i xs"

lemma length_insert_at [simp]: "length (insert_at i x xs) = Suc (length xs)"
  by (cases "i \<le> length xs") (simp_all add: insert_at_def min_def)

lemma nth_insert_at:
  "i \<le> length xs \<Longrightarrow> j \<le> length xs \<Longrightarrow>
     insert_at i x xs ! j = (if j < i then xs ! j else if j = i then x else xs ! (j - 1))"
  by (auto simp: insert_at_def nth_append nth_Cons' min_def)

lemma entries_size_insert_at: "entries_size (insert_at i e es) = entries_size es + entry_end e"
proof -
  have "entries_size es = entries_size (take i es @ drop i es)" by simp
  then show ?thesis by (simp only: insert_at_def entries_size_simps) (simp add: entry_end_def)
qed

text \<open>The bytes both insertions leave, and the page they represent.\<close>

definition inserted :: "bool \<Rightarrow> nat \<Rightarrow> nat \<Rightarrow> nat \<Rightarrow> bytes \<times> bytes \<Rightarrow> bytes \<Rightarrow> bytes" where
  "inserted leaf i cnt upper e d =
     (let off = upper - entry_end e;
          d1 = put d (64 + 12 * Suc i) (slice d (64 + 12 * i) (12 * (cnt - i)));
          d2 = put (put d1 off (fst e @ snd e)) (64 + 12 * i) (entry_slot leaf off e)
      in put d2 8 (le_bytes 4 (of_nat (Suc cnt) :: u32) @ le_bytes 4 (of_nat (64 + 12 * Suc cnt) :: u32) @
           le_bytes 4 (of_nat off :: u32)))"

lemma inserted_rep:
  assumes rep: "rep_at d h v" and i: "i \<le> length (pv_entries v)"
    and room: "64 + 12 * Suc (length (pv_entries v)) + entry_end e \<le> h_upper h"
    and ok: "view_ok (v\<lparr>pv_entries := insert_at i e (pv_entries v)\<rparr>)"
  shows "page_rep (inserted (pv_leaf v) i (length (pv_entries v)) (h_upper h) e d)
           (v\<lparr>pv_entries := insert_at i e (pv_entries v)\<rparr>)"
    and "length (inserted (pv_leaf v) i (length (pv_entries v)) (h_upper h) e d) = length d"
proof -
  let ?es = "pv_entries v" and ?n = "length (pv_entries v)" and ?off = "h_upper h - entry_end e"
  let ?v = "v\<lparr>pv_entries := insert_at i e (pv_entries v)\<rparr>"
  note b = rep_at_bounds [OF rep]
  have e: "entry_end e = length (fst e @ snd e)" by (simp add: entry_end_def)
  define d1 where "d1 = put d (64 + 12 * Suc i) (slice d (64 + 12 * i) (12 * (?n - i)))"
  define d2 where "d2 = put (put d1 ?off (fst e @ snd e)) (64 + 12 * i) (entry_slot (pv_leaf v) ?off e)"
  define D where "D = put d2 8 (le_bytes 4 (of_nat (Suc ?n) :: u32) @
      le_bytes 4 (of_nat (64 + 12 * Suc ?n) :: u32) @ le_bytes 4 (of_nat ?off :: u32))"
  have off: "64 + 12 * Suc ?n \<le> ?off" "?off + entry_end e = h_upper h" using room by auto
  have ls: "length (slice d (64 + 12 * i) (12 * (?n - i))) = 12 * (?n - i)"
    using i b by (intro length_slice) auto
  have l1: "length d1 = length d" using ls i b off by (simp add: d1_def)
  have l2: "length d2 = length d" using l1 i b off e by (simp add: d2_def)
  have lD: "length D = length d" using l2 b by (simp add: D_def)
  have low: "d2 ! k = d ! k" if "k < 64 + 12 * i" for k
    using that i b off ls l1 e by (simp add: d2_def d1_def nth_put)
  have heap: "D ! k = d ! k" if "h_upper h \<le> k" "k < length d" for k
  proof -
    have "12 * i + 12 * (?n - i) = 12 * ?n" using i by (simp add: distrib_left [symmetric])
    then have "d1 ! k = d ! k"
      unfolding d1_def using that ls b off by (intro nth_put_other) auto
    moreover have "d2 ! k = put d1 ?off (fst e @ snd e) ! k"
      unfolding d2_def using that l1 i b off e by (intro nth_put_other) auto
    moreover have "put d1 ?off (fst e @ snd e) ! k = d1 ! k"
      using that l1 b off e by (intro nth_put_other) auto
    moreover have "D ! k = d2 ! k"
      unfolding D_def using that l2 b off by (intro nth_put_other) auto
    ultimately show ?thesis by simp
  qed
  have D1: "slice D (64 + 12 * j) 12 = slice d2 (64 + 12 * j) 12" if "j \<le> ?n" for j
    unfolding D_def by (rule slice_put_other) (use l2 b off that in auto)
  have slot_lt: "slice D (64 + 12 * j) 12 = slice d (64 + 12 * j) 12" if "j < i" for j
  proof -
    have "slice d2 (64 + 12 * j) 12 = slice d (64 + 12 * j) 12"
      by (rule slice_eqI) (use that i l2 b low in auto)
    with D1 [of j] that i show ?thesis by simp
  qed
  have slot_eq: "slice D (64 + 12 * i) 12 = entry_slot (pv_leaf v) ?off e"
    using D1 [OF i] l1 i b off e by (simp add: d2_def buf_simps)
  have slot_gt: "slice D (64 + 12 * j) 12 = slice d (64 + 12 * (j - 1)) 12" if j: "i < j" "j \<le> ?n" for j
  proof -
    have "slice d2 (64 + 12 * j) 12 = slice d1 (64 + 12 * j) 12"
      unfolding d2_def using l1 j i b off e by (simp add: slice_put_other)
    also have "\<dots> = slice (slice d (64 + 12 * i) (12 * (?n - i))) (64 + 12 * j - (64 + 12 * Suc i)) 12"
      unfolding d1_def by (rule slice_put_inside) (use ls j i b off in auto)
    also have "\<dots> = slice d (64 + 12 * i + (64 + 12 * j - (64 + 12 * Suc i))) 12"
      by (rule slice_slice) (use j in auto)
    also have "64 + 12 * i + (64 + 12 * j - (64 + 12 * Suc i)) = 64 + 12 * (j - 1)" using j by simp
    finally show ?thesis using D1 [of j] j by simp
  qed
  have body: "slice D ?off (length (fst e @ snd e)) = fst e @ snd e"
  proof -
    have "slice D ?off (length (fst e @ snd e)) = slice d2 ?off (length (fst e @ snd e))"
      unfolding D_def by (rule slice_put_other) (use l2 b off e in auto)
    also have "\<dots> = slice (put d1 ?off (fst e @ snd e)) ?off (length (fst e @ snd e))"
      unfolding d2_def by (rule slice_put_other) (use l1 i b off e in auto)
    also have "\<dots> = fst e @ snd e" by (rule slice_put_same) (use l1 b off e in auto)
    finally show ?thesis .
  qed
  have parse: "page_parse D = Inr \<lparr>pr_data = D,
      pr_header = h\<lparr>h_count := Suc ?n, h_lower := 64 + 12 * Suc ?n, h_upper := ?off\<rparr>\<rparr>"
    by (rule page_parse_counts [OF rep l2 _ refl _ _ D_def]) (use low off b in auto)
  have old: "entry_at d (pv_leaf v) (h_upper h) k (?es ! k)" if "k < ?n" for k
    using rep that by (simp add: rep_at_def view_at_def)
  have "entry_at D (pv_leaf v) ?off j (insert_at i e ?es ! j)" if j: "j < Suc ?n" for j
  proof -
    consider "j < i" | "j = i" | "i < j" by linarith
    then show ?thesis
    proof cases
      case 1
      then show ?thesis
        using entry_at_moved [OF old [of j] lD, of ?off j] slot_lt heap i j by (simp add: nth_insert_at)
    next
      case 2
      then show ?thesis
        using slot_eq body off b lD e i
        by (auto simp: nth_insert_at entry_at_def entry_on_def intro!: exI [of _ ?off])
    next
      case 3
      then show ?thesis
        using entry_at_moved [OF old [of "j - 1"] lD, of ?off j] slot_gt heap i j by (simp add: nth_insert_at)
    qed
  qed
  moreover have "high_at D (h\<lparr>h_count := Suc ?n, h_lower := 64 + 12 * Suc ?n, h_upper := ?off\<rparr>) (pv_high v)"
    by (rule high_at_moved [OF _ rep_at_header(2) [OF rep] lD]) (use rep heap in \<open>auto simp: rep_at_def view_at_def\<close>)
  moreover have "heap_used ?v + ?off \<le> length D"
    using rep off lD by (simp add: rep_at_def view_at_def heap_used_eq entries_size_insert_at)
  ultimately have "rep_at D (h\<lparr>h_count := Suc ?n, h_lower := 64 + 12 * Suc ?n, h_upper := ?off\<rparr>) ?v"
    using parse ok rep by (simp add: rep_at_def view_at_def)
  moreover have "D = inserted (pv_leaf v) i ?n (h_upper h) e d"
    by (simp add: inserted_def D_def d2_def d1_def Let_def)
  ultimately show "page_rep (inserted (pv_leaf v) i ?n (h_upper h) e d) ?v"
    and "length (inserted (pv_leaf v) i ?n (h_upper h) e d) = length d"
    using lD by (auto simp: page_rep_def)
qed

section \<open>Insertion\<close>

lemma sbind_open_slot:
  assumes rep: "rep_at d h v" and i: "i \<le> length (pv_entries v)"
    and room: "64 + 12 * Suc (length (pv_entries v)) \<le> h_upper h"
  shows "sbind (open_slot (64 + i * 12) (h_lower h)) f d =
     f () (put d (64 + 12 * Suc i) (slice d (64 + 12 * i) (12 * (length (pv_entries v) - i))))"
proof (cases "i = length (pv_entries v)")
  case True
  then show ?thesis using rep_at_bounds [OF rep] by (simp add: open_slot_def)
next
  case False
  then show ?thesis
    using i room rep_at_bounds [OF rep]
    by (simp add: open_slot_def buf_simps mult.commute [of i] diff_mult_distrib2)
qed

text \<open>The writes after the slots have moved.\<close>

lemma inserted_writes:
  assumes rep: "rep_at d h v" and i: "i \<le> length (pv_entries v)"
    and room: "64 + 12 * Suc (length (pv_entries v)) + entry_end e \<le> h_upper h"
    and len: "length (fst e) \<le> U16_MAX" "pl \<le> U16_MAX" "pl = length (snd e) - (if leaf then 1 else 0)"
  shows "sbind (write_slot i \<lparr>sl_offset = h_upper h - entry_end e, sl_key_len = length (fst e),
            sl_payload_len = pl, sl_head = key_head (fst e)\<rparr>) (\<lambda>_.
      sbind (write_u32 8 (of_nat (length (pv_entries v) + 1))) (\<lambda>_.
      sbind (write_u32 12 (of_nat (h_lower h + 12))) (\<lambda>_. write_u32 16 (of_nat (h_upper h - entry_end e)))))
      (put (put d (64 + 12 * Suc i) (slice d (64 + 12 * i) (12 * (length (pv_entries v) - i))))
         (h_upper h - entry_end e) (fst e @ snd e)) =
    (Inr (), inserted leaf i (length (pv_entries v)) (h_upper h) e d)"
proof -
  let ?n = "length (pv_entries v)" and ?off = "h_upper h - entry_end e"
  define d1 where "d1 = put d (64 + 12 * Suc i) (slice d (64 + 12 * i) (12 * (?n - i)))"
  note b = rep_at_bounds [OF rep]
  have off: "64 + 12 * Suc ?n \<le> ?off" "?off + length (fst e @ snd e) = h_upper h"
    using room by (auto simp: entry_end_def)
  have "length (slice d (64 + 12 * i) (12 * (?n - i))) = 12 * (?n - i)"
    using i b by (intro length_slice) auto
  then have l1: "length d1 = length d" using i b off by (simp add: d1_def)
  define off where "off = ?off"
  have lim: "off + length (fst e @ snd e) \<le> length d1" "off < 2 ^ 32" "length d1 < 2 ^ 64"
    using off(2) b l1 by (auto simp: off_def)
  have slot: "64 + 12 * i + 12 \<le> length d1" "76 \<le> length d1" using off(1) b l1 i by auto
  have lower: "h_lower h + 12 = 64 + 12 * Suc ?n" using b by simp
  show ?thesis
    unfolding d1_def [symmetric] inserted_def Let_def off_def [symmetric] entry_slot_def len(3) [symmetric]
      lower Suc_eq_plus1 [of ?n]
    using lim slot len l1 b by (simp add: sbind_write_slot buf_simps put_put_adjacent)
qed

lemma insert_slot_and_entry_ok:
  assumes rep: "rep_at d h v" and i: "i \<le> length (pv_entries v)"
    and room: "64 + 12 * Suc (length (pv_entries v)) + entry_end (k, t # p) \<le> h_upper h"
    and len: "length k \<le> U16_MAX" "length p \<le> U16_MAX"
  shows "insert_slot_and_entry i k t p d =
           (Inr (), inserted True i (length (pv_entries v)) (h_upper h) (k, t # p) d)"
proof -
  have parse: "page_parse d = Inr \<lparr>pr_data = d, pr_header = h\<rparr>" using rep by (simp add: rep_at_def)
  have open1: "sbind (open_slot (64 + i * 12) (h_lower h)) f d =
     f () (put d (64 + 12 * Suc i) (slice d (64 + 12 * i) (12 * (length (pv_entries v) - i))))"
    for f :: "unit \<Rightarrow> bytes \<Rightarrow> (PageError + unit) \<times> bytes"
    by (rule sbind_open_slot [OF rep i]) (use room in simp)
  let ?e = "(k, t # p)"
  have e: "entry_end ?e = length k + 1 + length p" by (simp add: entry_end_def)
  define off where "off = h_upper h - entry_end ?e"
  have off: "checked_sub_usize (h_upper h) (length k + 1 + length p) = Some off"
    "off + (length k + 1 + length p) = h_upper h"
    using room e by (auto simp: checked_sub_usize_def off_def)
  note b = rep_at_bounds [OF rep]
  have c: "(i > length (pv_entries v) \<or> length k > 65535 \<or> length p > 65535) = False" using i b(1) len by auto
  define d1 where "d1 = put d (64 + 12 * Suc i) (slice d (64 + 12 * i) (12 * (length (pv_entries v) - i)))"
  have l1: "length d1 = length d"
  proof -
    have "length (slice d (64 + 12 * i) (12 * (length (pv_entries v) - i))) = 12 * (length (pv_entries v) - i)"
      using i b by (intro length_slice) auto
    then show ?thesis using i b room by (simp add: d1_def)
  qed
  have "insert_slot_and_entry i k t p d =
      sbind (write_slice off k) (\<lambda>_. sbind (write_slice (off + length k) [t]) (\<lambda>_.
      sbind (write_slice (off + length k + 1) p) (\<lambda>_.
      sbind (write_slot i \<lparr>sl_offset = off, sl_key_len = length k, sl_payload_len = length p, sl_head = key_head k\<rparr>) (\<lambda>_.
      sbind (write_u32 8 (of_nat (length (pv_entries v) + 1))) (\<lambda>_.
      sbind (write_u32 12 (of_nat (h_lower h + 12))) (\<lambda>_. write_u32 16 (of_nat off))))))) d1"
    unfolding insert_slot_and_entry_def sbind_sget parse sum.case Let_def page_count_def PageRef.simps
      page_consts c if_False off ok_or_simps sbind_state_op open1 d1_def b(1) by (rule refl)
  also have "\<dots> = sbind (write_slot i \<lparr>sl_offset = off, sl_key_len = length k, sl_payload_len = length p, sl_head = key_head k\<rparr>) (\<lambda>_.
      sbind (write_u32 8 (of_nat (length (pv_entries v) + 1))) (\<lambda>_.
      sbind (write_u32 12 (of_nat (h_lower h + 12))) (\<lambda>_. write_u32 16 (of_nat off)))) (put d1 off (k @ t # p))"
    using off(2) l1 b(4) by (simp add: buf_simps put_put_adjacent)
  also have "\<dots> = (Inr (), inserted True i (length (pv_entries v)) (h_upper h) ?e d)"
    unfolding off_def d1_def
    by (rule inserted_writes [OF rep i room, of "length p" True, unfolded fst_conv snd_conv]) (use len in simp_all)
  finally show ?thesis .
qed

lemma insert_internal_slot_ok:
  assumes rep: "rep_at d h v" and i: "i \<le> length (pv_entries v)"
    and room: "64 + 12 * Suc (length (pv_entries v)) + entry_end (k, le_bytes 8 c) \<le> h_upper h"
    and len: "length k \<le> U16_MAX"
  shows "insert_internal_slot i k c d =
           (Inr (), inserted False i (length (pv_entries v)) (h_upper h) (k, le_bytes 8 c) d)"
proof -
  have parse: "page_parse d = Inr \<lparr>pr_data = d, pr_header = h\<rparr>" using rep by (simp add: rep_at_def)
  have open1: "sbind (open_slot (64 + i * 12) (h_lower h)) f d =
     f () (put d (64 + 12 * Suc i) (slice d (64 + 12 * i) (12 * (length (pv_entries v) - i))))"
    for f :: "unit \<Rightarrow> bytes \<Rightarrow> (PageError + unit) \<times> bytes"
    by (rule sbind_open_slot [OF rep i]) (use room in simp)
  let ?e = "(k, le_bytes 8 c)"
  have e: "entry_end ?e = length k + 8" by (simp add: entry_end_def)
  define off where "off = h_upper h - entry_end ?e"
  have off: "checked_sub_usize (h_upper h) (length k + 8) = Some off" "off + (length k + 8) = h_upper h"
    using room e by (auto simp: checked_sub_usize_def off_def)
  note b = rep_at_bounds [OF rep]
  have cond: "(i > length (pv_entries v) \<or> length k > 65535) = False" using i b(1) len by auto
  define d1 where "d1 = put d (64 + 12 * Suc i) (slice d (64 + 12 * i) (12 * (length (pv_entries v) - i)))"
  have l1: "length d1 = length d"
  proof -
    have "length (slice d (64 + 12 * i) (12 * (length (pv_entries v) - i))) = 12 * (length (pv_entries v) - i)"
      using i b by (intro length_slice) auto
    then show ?thesis using i b room by (simp add: d1_def)
  qed
  have "insert_internal_slot i k c d =
      sbind (write_slice off k) (\<lambda>_. sbind (write_slice (off + length k) (le_bytes 8 c)) (\<lambda>_.
      sbind (write_slot i \<lparr>sl_offset = off, sl_key_len = length k, sl_payload_len = 8, sl_head = key_head k\<rparr>) (\<lambda>_.
      sbind (write_u32 8 (of_nat (length (pv_entries v) + 1))) (\<lambda>_.
      sbind (write_u32 12 (of_nat (h_lower h + 12))) (\<lambda>_. write_u32 16 (of_nat off)))))) d1"
    unfolding insert_internal_slot_def sbind_sget parse sum.case Let_def page_count_def PageRef.simps
      page_consts cond if_False off ok_or_simps sbind_state_op open1 d1_def b(1) by (rule refl)
  also have "\<dots> = sbind (write_slot i \<lparr>sl_offset = off, sl_key_len = length k, sl_payload_len = 8, sl_head = key_head k\<rparr>) (\<lambda>_.
      sbind (write_u32 8 (of_nat (length (pv_entries v) + 1))) (\<lambda>_.
      sbind (write_u32 12 (of_nat (h_lower h + 12))) (\<lambda>_. write_u32 16 (of_nat off)))) (put d1 off (k @ le_bytes 8 c))"
    using off(2) l1 b(4) by (simp add: buf_simps put_put_adjacent)
  also have "\<dots> = (Inr (), inserted False i (length (pv_entries v)) (h_upper h) ?e d)"
    unfolding off_def d1_def
    by (rule inserted_writes [OF rep i room, of 8 False, unfolded fst_conv snd_conv]) (use len in simp_all)
  finally show ?thesis .
qed

section \<open>Searched insertion\<close>

lemma map_insert_at: "map f (insert_at i x xs) = insert_at i (f x) (map f xs)"
  by (simp add: insert_at_def take_map drop_map)

lemma set_insert_at: "set (insert_at i x xs) = insert x (set xs)"
  unfolding insert_at_def by (metis Un_insert_right append_take_drop_id list.simps(15) set_append)

lemma sorted_insert_at:
  assumes s: "sorted_wrt (<) ks" and f: "search_spec ks k = Inl i"
  shows "sorted_wrt (<) (insert_at i k ks)"
proof -
  have i: "i = lower_bound ks k" using f by (auto simp: search_spec_def Let_def split: if_splits)
  have "x < k" if "x \<in> set (take i ks)" for x
  proof -
    obtain m where "m < length (take i ks)" "x = take i ks ! m" using \<open>x \<in> set (take i ks)\<close> by (metis in_set_conv_nth)
    then show ?thesis using lower_bound_less [of m ks k] i by simp
  qed
  moreover have "k < x" if "x \<in> set (drop i ks)" for x
  proof -
    obtain m where m: "m < length (drop i ks)" "x = drop i ks ! m"
      using \<open>x \<in> set (drop i ks)\<close> by (metis in_set_conv_nth)
    define j where "j = i + m"
    have j: "i \<le> j" "j < length ks" "x = ks ! j" using m by (auto simp: j_def)
    then have "k \<le> x" using lower_bound_ge [OF strict_sorted_imp [OF s]] i by blast
    moreover have "x \<noteq> k"
      using search_spec_InlD [OF strict_sorted_imp [OF s] f] j by (metis nth_mem)
    ultimately show ?thesis by simp
  qed
  moreover have "sorted_wrt (<) (take i ks @ drop i ks)" using s by simp
  ultimately show ?thesis
    unfolding insert_at_def sorted_wrt_append by (auto intro: less_trans)
qed

lemma view_ok_insert:
  assumes "view_ok v" and "search_spec (pv_keys v) (fst e) = Inl i"
    and "length (fst e) \<le> U16_MAX" and "body_ok (pv_leaf v) (snd e)"
  shows "view_ok (v\<lparr>pv_entries := insert_at i e (pv_entries v)\<rparr>)"
  using assms sorted_insert_at [of "pv_keys v" "fst e" i]
  by (auto simp: view_ok_def map_insert_at set_insert_at)

definition fits_one_more :: "nat \<Rightarrow> PageView \<Rightarrow> bytes \<times> bytes \<Rightarrow> bool" where
  "fits_one_more n v e \<longleftrightarrow> 64 + 12 * Suc (length (pv_entries v)) + heap_used v + entry_end e \<le> n"

definition with_entry :: "PageView \<Rightarrow> bytes \<times> bytes \<Rightarrow> PageView" where
  "with_entry v e = v\<lparr>pv_entries := insert_at (lower_bound (pv_keys v) (fst e)) e (pv_entries v)\<rparr>"

lemma search_spec_cases:
  assumes "sorted_wrt (<) ks"
  shows "search_spec ks k = (if k \<in> set ks then Inr (lower_bound ks k) else Inl (lower_bound ks k))"
proof (cases "search_spec ks k")
  case (Inl i)
  then show ?thesis
    using search_spec_InlD [OF strict_sorted_imp [OF assms] Inl]
    by (auto simp: search_spec_def Let_def split: if_splits)
next
  case (Inr i)
  then show ?thesis
    using search_spec_InrD [OF Inr] by (auto simp: search_spec_def Let_def split: if_splits)
qed

text \<open>The answer and the page after an insertion of entry \<open>e\<close>, on every branch.\<close>

definition insert_spec :: "nat \<Rightarrow> PageView \<Rightarrow> bytes \<times> bytes \<Rightarrow> InsertResult \<times> PageView" where
  "insert_spec n v e =
     (case beyond v (fst e) of
        Some r \<Rightarrow> (Ins_FollowRight r, v)
      | None \<Rightarrow> if fst e \<in> set (pv_keys v) then (Ins_Duplicate, v)
          else if fits_one_more n v e then (Ins_Inserted, with_entry v e) else (Ins_Full, v))"

lemma try_insert_inline_rep:
  assumes page: "page_rep d v" and leaf: "pv_leaf v" and n: "size_ok (length d)"
    and len: "length k \<le> U16_MAX" "length p \<le> U16_MAX"
  shows "\<exists>d'. try_insert_inline k p d = (Inr (fst (insert_spec (length d) v (k, value_bytes (LV_Inline p)))), d') \<and>
     length d' = length d \<and> page_rep d' (snd (insert_spec (length d) v (k, value_bytes (LV_Inline p))))"
proof -
  let ?e = "(k, TAG_INLINE # p)"
  have vb: "value_bytes (LV_Inline p) = TAG_INLINE # p" by (simp add: value_bytes_def)
  obtain h where h: "page_parse d = Inr \<lparr>pr_data = d, pr_header = h\<rparr>" "rep_at d h v" using page by (rule page_repE)
  have vo: "view_ok v" using h(2) by (simp add: rep_at_def)
  have srt: "sorted_wrt (<) (pv_keys v)" using vo by (simp add: view_ok_def)
  have is_leaf: "page_is_leaf \<lparr>pr_data = d, pr_header = h\<rparr>" using rep_is_leaf [OF h(2)] leaf by simp
  show ?thesis
  proof (cases "beyond v k = None \<and> k \<notin> set (pv_keys v)")
    case False
    then show ?thesis
      using h is_leaf page rep_follow_right [OF h(2), of k] rep_search [OF h(2), of k] search_spec_cases [OF srt, of k]
      by (auto simp: try_insert_inline_def sbind_sget insert_spec_def split: option.splits)
  next
    case True
    let ?i = "lower_bound (pv_keys v) k"
    have sp: "search_spec (pv_keys v) k = Inl ?i" using search_spec_cases [OF srt, of k] True by simp
    have el: "Suc (length k + length p) = entry_end ?e" by (simp add: entry_end_def)
    have lim: "entry_end ?e < 2 ^ 64" using len by (simp add: entry_end_def)
    have step: "try_insert_inline k p d = sbind (make_room (entry_end ?e)) (\<lambda>fits.
             if \<not> fits then sreturn Ins_Full
             else sbind (insert_slot_and_entry ?i k TAG_INLINE p) (\<lambda>_. sreturn Ins_Inserted)) d"
      using True h is_leaf len rep_follow_right [OF h(2), of k] rep_search [OF h(2), of k] sp rep_prefix [OF h(2)] lim
      by (simp add: try_insert_inline_def sbind_sget starts_with_def Let_def checked_add_usize_def el cong: if_cong)
    obtain d1 where d1: "make_room (entry_end ?e) d = (Inr (fits_one_more (length d) v ?e), d1)"
        "length d1 = length d" "page_rep d1 v" "fits_one_more (length d) v ?e \<longrightarrow> room_for d1 (entry_end ?e) v"
      using make_room_ok [OF page n, of "entry_end ?e"] unfolding fits_one_more_def by blast
    show ?thesis
    proof (cases "fits_one_more (length d) v ?e")
      case False
      then show ?thesis
        using True d1 by (simp add: step sbind_Inr [of "make_room (entry_end ?e)", OF d1(1)] insert_spec_def vb)
    next
      case fits: True
      then obtain h1 where h1: "rep_at d1 h1 v"
          "64 + 12 * Suc (length (pv_entries v)) + entry_end ?e \<le> h_upper h1"
        using d1(4) by (auto simp: room_for_def)
      have i: "?i \<le> length (pv_entries v)" using lower_bound_le [of "pv_keys v" k] by simp
      have ok: "view_ok (v\<lparr>pv_entries := insert_at ?i ?e (pv_entries v)\<rparr>)"
        using view_ok_insert [OF vo, of ?e ?i] sp len leaf vb
        by (simp add: body_ok_def exI [of _ "LV_Inline p"])
      let ?D = "inserted (pv_leaf v) ?i (length (pv_entries v)) (h_upper h1) ?e d1"
      have ins: "insert_slot_and_entry ?i k TAG_INLINE p d1 = (Inr (), ?D)"
        using insert_slot_and_entry_ok [OF h1(1) i h1(2) len] leaf by simp
      then have "try_insert_inline k p d = (Inr Ins_Inserted, ?D)"
        using fits by (simp add: step sbind_Inr [of "make_room (entry_end ?e)", OF d1(1)]
            sbind_Inr [of "insert_slot_and_entry ?i k TAG_INLINE p", OF ins])
      then show ?thesis
        using inserted_rep [OF h1(1) i h1(2) ok] True fits d1(2)
        by (simp add: insert_spec_def with_entry_def vb)
    qed
  qed
qed

lemma try_insert_internal_rep:
  assumes page: "page_rep d v" and leaf: "\<not> pv_leaf v" and n: "size_ok (length d)"
    and len: "length k \<le> U16_MAX" "c \<noteq> NONE_PAGE"
  shows "\<exists>d'. try_insert_internal k c d = (Inr (fst (insert_spec (length d) v (k, le_bytes 8 c))), d') \<and>
     length d' = length d \<and> page_rep d' (snd (insert_spec (length d) v (k, le_bytes 8 c)))"
proof -
  let ?e = "(k, le_bytes 8 c)"
  obtain h where h: "page_parse d = Inr \<lparr>pr_data = d, pr_header = h\<rparr>" "rep_at d h v" using page by (rule page_repE)
  have vo: "view_ok v" using h(2) by (simp add: rep_at_def)
  have srt: "sorted_wrt (<) (pv_keys v)" using vo by (simp add: view_ok_def)
  have is_leaf: "\<not> page_is_leaf \<lparr>pr_data = d, pr_header = h\<rparr>" using rep_is_leaf [OF h(2)] leaf by simp
  show ?thesis
  proof (cases "beyond v k = None \<and> k \<notin> set (pv_keys v)")
    case False
    then show ?thesis
      using h is_leaf page len rep_follow_right [OF h(2), of k] rep_search [OF h(2), of k] search_spec_cases [OF srt, of k]
      by (auto simp: try_insert_internal_def sbind_sget insert_spec_def split: option.splits)
  next
    case True
    let ?i = "lower_bound (pv_keys v) k"
    have sp: "search_spec (pv_keys v) k = Inl ?i" using search_spec_cases [OF srt, of k] True by simp
    have el: "length k + 8 = entry_end ?e" by (simp add: entry_end_def)
    have lim: "entry_end ?e < 2 ^ 64" using len by (simp add: entry_end_def)
    have step: "try_insert_internal k c d = sbind (make_room (entry_end ?e)) (\<lambda>fits.
             if \<not> fits then sreturn Ins_Full
             else sbind (insert_internal_slot ?i k c) (\<lambda>_. sreturn Ins_Inserted)) d"
      using True h is_leaf len rep_follow_right [OF h(2), of k] rep_search [OF h(2), of k] sp rep_prefix [OF h(2)] lim
      by (simp add: try_insert_internal_def sbind_sget starts_with_def Let_def checked_add_usize_def el cong: if_cong)
    obtain d1 where d1: "make_room (entry_end ?e) d = (Inr (fits_one_more (length d) v ?e), d1)"
        "length d1 = length d" "page_rep d1 v" "fits_one_more (length d) v ?e \<longrightarrow> room_for d1 (entry_end ?e) v"
      using make_room_ok [OF page n, of "entry_end ?e"] unfolding fits_one_more_def by blast
    show ?thesis
    proof (cases "fits_one_more (length d) v ?e")
      case False
      then show ?thesis
        using True d1 by (simp add: step sbind_Inr [of "make_room (entry_end ?e)", OF d1(1)] insert_spec_def)
    next
      case fits: True
      then obtain h1 where h1: "rep_at d1 h1 v"
          "64 + 12 * Suc (length (pv_entries v)) + entry_end ?e \<le> h_upper h1"
        using d1(4) by (auto simp: room_for_def)
      have i: "?i \<le> length (pv_entries v)" using lower_bound_le [of "pv_keys v" k] by simp
      have ok: "view_ok (v\<lparr>pv_entries := insert_at ?i ?e (pv_entries v)\<rparr>)"
        using view_ok_insert [OF vo, of ?e ?i] sp len leaf
        by (auto simp: body_ok_def)
      let ?D = "inserted (pv_leaf v) ?i (length (pv_entries v)) (h_upper h1) ?e d1"
      have ins: "insert_internal_slot ?i k c d1 = (Inr (), ?D)"
        using insert_internal_slot_ok [OF h1(1) i h1(2) len(1)] leaf by auto
      then have "try_insert_internal k c d = (Inr Ins_Inserted, ?D)"
        using fits by (simp add: step sbind_Inr [of "make_room (entry_end ?e)", OF d1(1)]
            sbind_Inr [of "insert_internal_slot ?i k c", OF ins])
      then show ?thesis
        using inserted_rep [OF h1(1) i h1(2) ok] True fits d1(2)
        by (simp add: insert_spec_def with_entry_def)
    qed
  qed
qed

section \<open>Removal\<close>

definition remove_at :: "nat \<Rightarrow> 'a list \<Rightarrow> 'a list" where
  "remove_at i xs = take i xs @ drop (Suc i) xs"

lemma length_remove_at [simp]: "i < length xs \<Longrightarrow> length (remove_at i xs) = length xs - 1"
  by (simp add: remove_at_def min_def)

lemma nth_remove_at:
  "i < length xs \<Longrightarrow> j < length xs - 1 \<Longrightarrow> remove_at i xs ! j = (if j < i then xs ! j else xs ! Suc j)"
  by (auto simp: remove_at_def nth_append min_def)

lemma map_remove_at: "map f (remove_at i xs) = remove_at i (map f xs)"
  by (simp add: remove_at_def take_map drop_map)

lemma set_remove_at: "set (remove_at i xs) \<subseteq> set xs"
  by (auto simp: remove_at_def dest: in_set_takeD in_set_dropD)

lemma sorted_remove_at: "sorted_wrt P xs \<Longrightarrow> sorted_wrt P (remove_at i xs)"
proof -
  assume "sorted_wrt P xs"
  then have "sorted_wrt P (take i xs @ drop i xs)" by simp
  then show ?thesis
    unfolding remove_at_def sorted_wrt_append
    by (metis append_take_drop_id drop_Suc in_set_dropD drop_drop sorted_wrt_append plus_1_eq_Suc)
qed

lemma entries_size_remove_at: "entries_size (remove_at i es) \<le> entries_size es"
proof -
  have "entries_size es = entries_size (take i es @ drop i es)" by simp
  moreover have "entries_size (drop (Suc i) es) \<le> entries_size (drop i es)"
    by (metis append_take_drop_id drop_drop entries_size_simps(3) le_add2 plus_1_eq_Suc add.commute)
  ultimately show ?thesis by (simp only: remove_at_def entries_size_simps)
qed

definition without_entry :: "PageView \<Rightarrow> bytes \<Rightarrow> PageView" where
  "without_entry v k = v\<lparr>pv_entries := remove_at (lower_bound (pv_keys v) k) (pv_entries v)\<rparr>"

definition remove_spec :: "PageView \<Rightarrow> bytes \<Rightarrow> RemoveResult \<times> PageView" where
  "remove_spec v k =
     (case beyond v k of
        Some r \<Rightarrow> (Rem_FollowRight r, v)
      | None \<Rightarrow> if k \<in> set (pv_keys v) then (Rem_Removed, without_entry v k) else (Rem_Missing, v))"

lemma put_same_tail:
  assumes "o1 + length a + length b \<le> length d" and "slice d (o1 + length a) (length b) = b"
  shows "put d o1 (a @ b) = put d o1 a"
proof (rule nth_equalityI)
  fix j assume "j < length (put d o1 (a @ b))"
  then have j: "j < length d" using assms(1) by simp
  have "d ! j = b ! (j - (o1 + length a))" if "o1 + length a \<le> j" "j < o1 + length a + length b"
    using that assms nth_slice [of "j - (o1 + length a)" "length b" "o1 + length a" d] by simp
  then show "put d o1 (a @ b) ! j = put d o1 a ! j"
    using assms(1) j by (auto simp: nth_put nth_append)
qed (use assms in simp)

definition removed :: "nat \<Rightarrow> nat \<Rightarrow> bytes \<Rightarrow> bytes" where
  "removed i cnt d =
     (let d1 = put d (64 + 12 * i) (slice d (64 + 12 * Suc i) (12 * (cnt - Suc i)));
          d2 = put d1 (64 + 12 * (cnt - 1)) (replicate 12 0)
      in put d2 8 (le_bytes 4 (of_nat (cnt - 1) :: u32) @ le_bytes 4 (of_nat (64 + 12 * (cnt - 1)) :: u32)))"

lemma removed_rep:
  assumes rep: "rep_at d h v" and i: "i < length (pv_entries v)"
  shows "page_rep (removed i (length (pv_entries v)) d) (v\<lparr>pv_entries := remove_at i (pv_entries v)\<rparr>)"
    and "length (removed i (length (pv_entries v)) d) = length d"
proof -
  let ?es = "pv_entries v" and ?n = "length (pv_entries v)"
  let ?v = "v\<lparr>pv_entries := remove_at i (pv_entries v)\<rparr>"
  note b = rep_at_bounds [OF rep]
  define d1 where "d1 = put d (64 + 12 * i) (slice d (64 + 12 * Suc i) (12 * (?n - Suc i)))"
  define d2 where "d2 = put d1 (64 + 12 * (?n - 1)) (replicate 12 0)"
  define D where "D = put d2 8 (le_bytes 4 (of_nat (?n - 1) :: u32) @
      le_bytes 4 (of_nat (64 + 12 * (?n - 1)) :: u32) @ le_bytes 4 (of_nat (h_upper h) :: u32))"
  have ls: "length (slice d (64 + 12 * Suc i) (12 * (?n - Suc i))) = 12 * (?n - Suc i)"
    using i b by (intro length_slice) auto
  have n12: "12 * Suc i + 12 * (?n - Suc i) = 12 * ?n" "12 * (?n - 1) + 12 = 12 * ?n"
    using i by (auto simp: diff_mult_distrib2)
  have l1: "length d1 = length d" using ls n12 b by (simp add: d1_def)
  have l2: "length d2 = length d" using l1 n12 b by (simp add: d2_def)
  have lD: "length D = length d" using l2 b by (simp add: D_def)
  have low: "d2 ! k = d ! k" if "k < 64" for k
    using that ls l1 n12 b by (simp add: d2_def d1_def nth_put)
  have heap: "D ! k = d ! k" if "h_upper h \<le> k" "k < length d" for k
  proof -
    have "d1 ! k = d ! k" unfolding d1_def using that ls n12 b by (intro nth_put_other) auto
    moreover have "d2 ! k = d1 ! k" unfolding d2_def using that l1 n12 b by (intro nth_put_other) auto
    moreover have "D ! k = d2 ! k" unfolding D_def using that l2 b by (intro nth_put_other) auto
    ultimately show ?thesis by simp
  qed
  have slots: "slice D (64 + 12 * j) 12 = slice d1 (64 + 12 * j) 12" if "j < ?n - 1" for j
  proof -
    have j: "12 * j + 12 \<le> 12 * (?n - 1)" using that by simp
    have "slice D (64 + 12 * j) 12 = slice d2 (64 + 12 * j) 12"
      unfolding D_def by (rule slice_put_other) (use l2 b j n12 in auto)
    also have "\<dots> = slice d1 (64 + 12 * j) 12"
      unfolding d2_def by (rule slice_put_other) (use l1 b j n12 in auto)
    finally show ?thesis .
  qed
  have slot_lt: "slice D (64 + 12 * j) 12 = slice d (64 + 12 * j) 12" if "j < i" for j
    using slots [of j] that i b ls n12 by (simp add: d1_def slice_put_other)
  have slot_ge: "slice D (64 + 12 * j) 12 = slice d (64 + 12 * Suc j) 12" if j: "i \<le> j" "j < ?n - 1" for j
  proof -
    have "slice d1 (64 + 12 * j) 12 = slice (slice d (64 + 12 * Suc i) (12 * (?n - Suc i))) (64 + 12 * j - (64 + 12 * i)) 12"
      unfolding d1_def by (rule slice_put_inside) (use ls j b n12 in auto)
    also have "\<dots> = slice d (64 + 12 * Suc i + (64 + 12 * j - (64 + 12 * i))) 12"
      by (rule slice_slice) (use j in auto)
    also have "64 + 12 * Suc i + (64 + 12 * j - (64 + 12 * i)) = 64 + 12 * Suc j" using j by simp
    finally show ?thesis using slots [OF j(2)] by simp
  qed
  have parse: "page_parse D = Inr \<lparr>pr_data = D,
      pr_header = h\<lparr>h_count := ?n - 1, h_lower := 64 + 12 * (?n - 1), h_upper := h_upper h\<rparr>\<rparr>"
    by (rule page_parse_counts [OF rep l2 _ refl _ _ D_def]) (use low n12 b in auto)
  have old: "entry_at d (pv_leaf v) (h_upper h) k (?es ! k)" if "k < ?n" for k
    using rep that by (simp add: rep_at_def view_at_def)
  have "entry_at D (pv_leaf v) (h_upper h) j (remove_at i ?es ! j)" if j: "j < ?n - 1" for j
  proof (cases "j < i")
    case True
    then show ?thesis
      using entry_at_moved [OF old [of j] lD, of "h_upper h" j] slot_lt heap i j by (simp add: nth_remove_at)
  next
    case False
    then show ?thesis
      using entry_at_moved [OF old [of "Suc j"] lD, of "h_upper h" j] slot_ge heap i j by (simp add: nth_remove_at)
  qed
  moreover have "high_at D (h\<lparr>h_count := ?n - 1, h_lower := 64 + 12 * (?n - 1), h_upper := h_upper h\<rparr>) (pv_high v)"
    by (rule high_at_moved [OF _ rep_at_header(2) [OF rep] lD]) (use rep heap in \<open>auto simp: rep_at_def view_at_def\<close>)
  moreover have "heap_used ?v + h_upper h \<le> length D"
    using rep lD entries_size_remove_at [of i ?es] by (simp add: rep_at_def view_at_def heap_used_eq)
  moreover have "view_ok ?v"
    using rep sorted_remove_at [of "(<)" "pv_keys v" i] set_remove_at [of i ?es]
    by (auto simp: rep_at_def view_ok_def map_remove_at)
  ultimately have "rep_at D (h\<lparr>h_count := ?n - 1, h_lower := 64 + 12 * (?n - 1), h_upper := h_upper h\<rparr>) ?v"
    using parse rep i by (simp add: rep_at_def view_at_def)
  moreover have "D = removed i ?n d"
  proof -
    have "slice d2 16 4 = slice d 16 4" by (rule slice_eqI) (use l2 b low in auto)
    moreover have "slice d 16 4 = le_bytes 4 (of_nat (h_upper h) :: u32)"
    proof -
      have "unat (of_le_bytes (slice d 16 4) :: u32) = h_upper h"
        using rep_at_header(1) [OF rep] by (simp add: header_at_def)
      then have "of_nat (h_upper h) = (of_le_bytes (slice d 16 4) :: u32)" by (metis word_eq_of_nat)
      then show ?thesis using b by (simp add: length_slice)
    qed
    ultimately have "D = put d2 8 ((le_bytes 4 (of_nat (?n - 1) :: u32) @ le_bytes 4 (of_nat (64 + 12 * (?n - 1)) :: u32)))"
      unfolding D_def append_assoc [symmetric] by (intro put_same_tail) (use l2 b in auto)
    then show ?thesis by (simp add: removed_def d2_def d1_def Let_def)
  qed
  ultimately show "page_rep (removed i ?n d) ?v" and "length (removed i ?n d) = length d"
    using lD by (auto simp: page_rep_def)
qed

lemma remove_leaf_rep:
  assumes page: "page_rep d v" and leaf: "pv_leaf v"
  shows "\<exists>d'. remove_leaf k d = (Inr (fst (remove_spec v k)), d') \<and>
     length d' = length d \<and> page_rep d' (snd (remove_spec v k))"
proof -
  obtain h where h: "page_parse d = Inr \<lparr>pr_data = d, pr_header = h\<rparr>" "rep_at d h v" using page by (rule page_repE)
  have srt: "sorted_wrt (<) (pv_keys v)" using rep_sorted [OF h(2)] .
  have is_leaf: "page_is_leaf \<lparr>pr_data = d, pr_header = h\<rparr>" using rep_is_leaf [OF h(2)] leaf by simp
  note b = rep_at_bounds [OF h(2)]
  show ?thesis
  proof (cases "beyond v k = None \<and> k \<in> set (pv_keys v)")
    case False
    then show ?thesis
      using h is_leaf page rep_follow_right [OF h(2), of k] rep_search [OF h(2), of k] search_spec_cases [OF srt, of k]
      by (auto simp: remove_leaf_def sbind_sget remove_spec_def split: option.splits)
  next
    case True
    let ?i = "lower_bound (pv_keys v) k" and ?n = "length (pv_entries v)"
    have sp: "search_spec (pv_keys v) k = Inr ?i" using search_spec_cases [OF srt, of k] True by simp
    then have i: "?i < ?n" using search_spec_InrD [OF sp] by simp
    define d1 where "d1 = put d (64 + 12 * ?i) (slice d (64 + 12 * Suc ?i) (12 * (?n - Suc ?i)))"
    have ls: "length (slice d (64 + 12 * Suc ?i) (12 * (?n - Suc ?i))) = 12 * (?n - Suc ?i)"
      using i b by (intro length_slice) auto
    have l1: "length d1 = length d" "length d < 2 ^ 64" using ls i b by (simp_all add: d1_def)
    have move: "sbind (close_slot (64 + ?i * 12) (64 + ?n * 12)) f d = f () d1"
      for f :: "unit \<Rightarrow> bytes \<Rightarrow> (PageError + RemoveResult) \<times> bytes"
    proof (cases "Suc ?i = ?n")
      case True
      then have "\<not> 64 + ?i * 12 + 12 < 64 + ?n * 12" by simp
      with True show ?thesis by (simp add: d1_def close_slot_def)
    next
      case False
      with i have "Suc ?i < ?n" by simp
      then show ?thesis
        using b by (simp add: d1_def close_slot_def buf_simps mult.commute [of _ 12] diff_mult_distrib2)
    qed
    have "remove_leaf k d = sbind (write_slice (64 + ?n * 12 - 12) (replicate 12 0)) (\<lambda>_.
         sbind (write_u32 8 (of_nat (?n - 1))) (\<lambda>_.
         sbind (write_u32 12 (of_nat (64 + (?n - 1) * 12))) (\<lambda>_. sreturn Rem_Removed))) d1"
      unfolding remove_leaf_def sbind_sget h(1) sum.case Let_def page_consts
      using is_leaf True rep_follow_right [OF h(2), of k] rep_search [OF h(2), of k] sp b(1) move
      by (simp add: page_count_def)
    also have "\<dots> = (Inr Rem_Removed, removed ?i ?n d)"
    proof -
      have "64 + ?n * 12 - 12 = 64 + 12 * (?n - 1)" using i by simp
      then show ?thesis
        unfolding removed_def Let_def d1_def [symmetric]
        using l1 b i by (simp add: buf_simps put_put_adjacent mult.commute [of _ 12])
    qed
    finally show ?thesis
      using removed_rep [OF h(2) i] True by (simp add: remove_spec_def without_entry_def)
  qed
qed

end
