(* ===== verification/Page_Split.thy ===== *)
theory Page_Split
  imports Page_Insert
begin

text \<open>
  The split point of a full page: the first candidate whose two halves differ least in size.  Both
  halves are non-empty.
\<close>

definition cost_sum :: "(nat \<Rightarrow> nat) \<Rightarrow> nat \<Rightarrow> nat" where
  "cost_sum cost n = sum_list (map cost [0..<n])"

definition imbalance :: "(nat \<Rightarrow> nat) \<Rightarrow> nat \<Rightarrow> nat \<Rightarrow> nat" where
  "imbalance cost n c = abs_diff (cost_sum cost c) (cost_sum cost n - cost_sum cost c)"

lemma cost_sum_Suc [simp]: "cost_sum cost (Suc n) = cost_sum cost n + cost n"
  by (simp add: cost_sum_def)

lemma cost_sum_0 [simp]: "cost_sum cost 0 = 0"
  by (simp add: cost_sum_def)

lemma cost_sum_mono: "m \<le> n \<Longrightarrow> cost_sum cost m \<le> cost_sum cost n"
  by (induction n) (auto simp: le_Suc_eq)

lemma split_total_ok:
  "acc + sum_list (map cost is) < 2 ^ 64 \<Longrightarrow> split_total cost is acc = Inr (acc + sum_list (map cost is))"
proof (induction "is" arbitrary: acc)
  case (Cons i "is")
  then show ?case by (simp add: checked_add_usize_def add.assoc)
qed simp

lemma split_scan_ok:
  assumes "cost_sum cost n < 2 ^ 64"
  shows "1 \<le> c \<Longrightarrow> c \<le> n \<Longrightarrow> (c = 1 \<longrightarrow> best = 1 \<and> dist = USIZE_MAX) \<Longrightarrow>
    (1 < c \<longrightarrow> 1 \<le> best \<and> best < c \<and> dist = imbalance cost n best \<and>
       (\<forall>x. 1 \<le> x \<and> x < c \<longrightarrow> dist \<le> imbalance cost n x)) \<Longrightarrow> 1 < n \<Longrightarrow>
    \<exists>s. split_scan cost (cost_sum cost n) [c..<n] (cost_sum cost (c - 1)) best dist = Inr s \<and>
       1 \<le> s \<and> s < n \<and> (\<forall>x. 1 \<le> x \<and> x < n \<longrightarrow> imbalance cost n s \<le> imbalance cost n x)"
proof (induction "n - c" arbitrary: c best dist)
  case 0
  then have c: "c = n" by simp
  then show ?case using 0 by (intro exI [of _ best]) auto
next
  case (Suc m)
  then have c: "c < n" by simp
  then have up: "[c..<n] = c # [Suc c..<n]" by (simp add: upt_conv_Cons)
  have sum: "cost_sum cost (c - 1) + cost (c - 1) = cost_sum cost c" using Suc.prems(1) by (cases c) auto
  have bound: "cost_sum cost c < 2 ^ 64" using cost_sum_mono [of c n cost] c assms by simp
  have scan: "split_scan cost (cost_sum cost n) [c..<n] (cost_sum cost (c - 1)) best dist =
     (if imbalance cost n c < dist
      then split_scan cost (cost_sum cost n) [Suc c..<n] (cost_sum cost c) c (imbalance cost n c)
      else split_scan cost (cost_sum cost n) [Suc c..<n] (cost_sum cost c) best dist)"
    unfolding up using bound
    by (simp add: sum [unfolded One_nat_def] checked_add_usize_def imbalance_def Let_def)
  have small: "imbalance cost n c \<le> USIZE_MAX"
    using assms bound by (auto simp: imbalance_def abs_diff_def USIZE_MAX_def)
  show ?case
  proof (cases "imbalance cost n c < dist")
    case True
    then show ?thesis
      using Suc.hyps(1) [of "Suc c" c "imbalance cost n c"] Suc.hyps(2) Suc.prems c scan
      by (fastforce simp: less_Suc_eq)
  next
    case False
    show ?thesis
    proof (cases "c = 1")
      case True
      with False Suc.prems small have "imbalance cost n 1 = USIZE_MAX" by auto
      then have "\<forall>x. 1 \<le> x \<and> x < Suc c \<longrightarrow> USIZE_MAX \<le> imbalance cost n x"
        using True by (auto simp: less_Suc_eq dest: le_antisym)
      then show ?thesis
        using Suc.hyps(1) [of "Suc c" 1 USIZE_MAX] Suc.hyps(2) Suc.prems c scan False True
          \<open>imbalance cost n 1 = USIZE_MAX\<close>
        by simp
    next
      case False': False
      then have "\<forall>x. 1 \<le> x \<and> x < Suc c \<longrightarrow> dist \<le> imbalance cost n x"
        using Suc.prems False by (auto simp: less_Suc_eq)
      then show ?thesis
        using Suc.hyps(1) [of "Suc c" best dist] Suc.hyps(2) Suc.prems c scan False False'
        by simp
    qed
  qed
qed

lemma choose_split_ok:
  assumes "2 \<le> n" and "cost_sum cost n < 2 ^ 64"
  shows "\<exists>s. choose_split n cost = Inr s \<and> 1 \<le> s \<and> s < n \<and>
     (\<forall>x. 1 \<le> x \<and> x < n \<longrightarrow> imbalance cost n s \<le> imbalance cost n x)"
proof -
  have "split_total cost [0..<n] 0 = Inr (cost_sum cost n)"
    using split_total_ok [of 0 cost "[0..<n]"] assms(2) by (simp add: cost_sum_def)
  then show ?thesis
    using split_scan_ok [OF assms(2), of 1 1 USIZE_MAX] assms(1) by (simp add: choose_split_def)
qed

lemma leaf_cost:
  "leaf_ok e \<Longrightarrow> leaf_entry_cost e = Inr (12 + length (le_key e) + length (value_bytes (le_value e)))"
  by (cases "le_value e") (auto simp: leaf_ok_def leaf_entry_cost_def value_bytes_def checked_add_usize_def)

lemma cost_sum_bound: "(\<And>i. i < n \<Longrightarrow> cost i \<le> B) \<Longrightarrow> cost_sum cost n \<le> n * B"
  by (induction n) (auto simp: add_mono add.commute)

lemma choose_leaf_split_ok:
  assumes "2 \<le> length es" and "length es < 2 ^ 32" and "\<forall>e \<in> set es. leaf_ok e"
  shows "\<exists>s. choose_leaf_split es = Inr s \<and> 1 \<le> s \<and> s < length es"
proof -
  let ?c = "\<lambda>index. case leaf_entry_cost (es ! index) of Inl _ \<Rightarrow> USIZE_MAX | Inr c \<Rightarrow> c"
  have "?c i \<le> 2 ^ 18" if "i < length es" for i
  proof -
    have "leaf_ok (es ! i)" using assms(3) that by simp
    then show ?thesis using leaf_cost [of "es ! i"] by (simp add: leaf_ok_def)
  qed
  then have "cost_sum ?c (length es) \<le> length es * 2 ^ 18" by (rule cost_sum_bound)
  also have "\<dots> < 2 ^ 64" using assms(2) by simp
  finally show ?thesis using choose_split_ok [OF assms(1), of ?c] by (auto simp: choose_leaf_split_def)
qed

lemma choose_internal_split_ok:
  assumes "2 \<le> length es" and "length es < 2 ^ 32" and "\<forall>e \<in> set es. int_ok e"
  shows "\<exists>s. choose_internal_split es = Inr s \<and> 1 \<le> s \<and> s < length es"
proof -
  let ?c = "\<lambda>index. SLOT_SIZE + length (ine_key (es ! index)) + 8"
  have "?c i \<le> 2 ^ 18" if "i < length es" for i
  proof -
    have "int_ok (es ! i)" using assms(3) that by simp
    then show ?thesis by (simp add: int_ok_def)
  qed
  then have "cost_sum ?c (length es) \<le> length es * 2 ^ 18" by (rule cost_sum_bound)
  also have "\<dots> < 2 ^ 64" using assms(2) by simp
  finally show ?thesis using choose_split_ok [OF assms(1), of ?c] by (auto simp: choose_internal_split_def)
qed

section \<open>Properties\<close>

text \<open>
  C10.  Building a leaf image and reading it back gives the same entries, the same high fence and the
  same right sibling: for every strictly sorted list of representable entries that fits the page.
\<close>
theorem page_build_roundtrip:
  assumes "view_ok (leaf_view high es)" and "ids_ok (leaf_view high es)"
    and "page_fits n (leaf_view high es)" and "size_ok n"
  shows "\<exists>data p. build_leaf n (map_option fst high) (map_option snd high) es = Inr data \<and>
     length data = n \<and> page_parse data = Inr p \<and> leaf_entries_owned p = Inr es \<and>
     high_fence p = Inr (map_option fst high) \<and> right_sibling p = map_option snd high"
proof -
  obtain data where d: "build_leaf n (map_option fst high) (map_option snd high) es = Inr data"
      "length data = n" "page_tight data (leaf_view high es)"
    using build_leaf_ok [OF assms] by blast
  then obtain h where "page_parse data = Inr \<lparr>pr_data = data, pr_header = h\<rparr>" "rep_at data h (leaf_view high es)"
    using page_repE [OF page_tight_rep] by blast
  with d show ?thesis
    using rep_leaf_entries [of data h "leaf_view high es"] rep_high_fence [of data h "leaf_view high es"]
      rep_right_sibling [of data h "leaf_view high es"]
    by auto
qed

definition demo_entries :: "LeafEntryOwned list" where
  "demo_entries = [\<lparr>le_key = [1], le_value = LV_Inline [7, 7]\<rparr>, \<lparr>le_key = [1, 0], le_value = LV_Tombstone\<rparr>]"

theorem page_build_roundtrip_witness:
  "\<exists>data p. build_leaf 128 (Some [9]) (Some 5) demo_entries = Inr data \<and> length data = 128 \<and>
     page_parse data = Inr p \<and> leaf_entries_owned p = Inr demo_entries \<and>
     high_fence p = Inr (Some [9]) \<and> right_sibling p = Some 5"
  using page_build_roundtrip [of "Some ([9], 5)" demo_entries 128]
  by (simp add: demo_entries_def view_ok_leaf leaf_ok_def value_bytes_def ids_ok_def NONE_PAGE_def
      page_fits_def heap_used_def size_ok_def leaf_pair_def)



text \<open>Updates of one leaf page by calls, on the bytes and on the logical page.\<close>

datatype PageCall = Call_insert bytes bytes | Call_remove bytes

definition page_call :: "PageCall \<Rightarrow> bytes \<Rightarrow> (PageError + InsertResult + RemoveResult) \<times> bytes" where
  "page_call c d =
     (case c of
        Call_insert k p \<Rightarrow> (case try_insert_inline k p d of (Inl e, d') \<Rightarrow> (Inl e, d') | (Inr r, d') \<Rightarrow> (Inr (Inl r), d'))
      | Call_remove k \<Rightarrow> (case remove_leaf k d of (Inl e, d') \<Rightarrow> (Inl e, d') | (Inr r, d') \<Rightarrow> (Inr (Inr r), d')))"

definition page_call_spec :: "nat \<Rightarrow> PageCall \<Rightarrow> PageView \<Rightarrow> (InsertResult + RemoveResult) \<times> PageView" where
  "page_call_spec n c v =
     (case c of
        Call_insert k p \<Rightarrow> map_prod Inl id (insert_spec n v (k, value_bytes (LV_Inline p)))
      | Call_remove k \<Rightarrow> map_prod Inr id (remove_spec v k))"

primrec page_run :: "PageCall list \<Rightarrow> bytes \<Rightarrow> (PageError + InsertResult + RemoveResult) list \<times> bytes" where
  "page_run [] d = ([], d)"
| "page_run (c # cs) d = (let (r, d1) = page_call c d; (rs, d2) = page_run cs d1 in (r # rs, d2))"

primrec page_run_spec :: "nat \<Rightarrow> PageCall list \<Rightarrow> PageView \<Rightarrow> (InsertResult + RemoveResult) list \<times> PageView" where
  "page_run_spec n [] v = ([], v)"
| "page_run_spec n (c # cs) v =
     (let (r, v1) = page_call_spec n c v; (rs, v2) = page_run_spec n cs v1 in (r # rs, v2))"

primrec call_ok :: "PageCall \<Rightarrow> bool" where
  "call_ok (Call_insert k p) = (length k \<le> U16_MAX \<and> length p \<le> U16_MAX)"
| "call_ok (Call_remove k) = True"

lemma spec_leaf: "pv_leaf v \<Longrightarrow> pv_leaf (snd (page_call_spec n c v))"
  by (cases c) (auto simp: page_call_spec_def insert_spec_def remove_spec_def with_entry_def
      without_entry_def split: option.splits)

lemma page_call_rep:
  assumes "page_rep d v" and "pv_leaf v" and "size_ok (length d)" and "call_ok c"
  shows "\<exists>d'. page_call c d = (Inr (fst (page_call_spec (length d) c v)), d') \<and>
     length d' = length d \<and> page_rep d' (snd (page_call_spec (length d) c v))"
proof (cases c)
  case (Call_insert k p)
  then show ?thesis
    using try_insert_inline_rep [OF assms(1-3), of k p] assms(4)
    by (auto simp: page_call_def page_call_spec_def)
next
  case (Call_remove k)
  then show ?thesis
    using remove_leaf_rep [OF assms(1,2), of k] by (auto simp: page_call_def page_call_spec_def)
qed

text \<open>
  C9.  Any sequence of insertions and removals on the bytes of a leaf answers what the logical page
  answers, and leaves bytes that represent the logical result: duplicates, keys beyond the fence,
  full pages (after compaction) and missing keys included.
\<close>
theorem page_updates_refine:
  assumes "page_rep d v" and "pv_leaf v" and "size_ok (length d)" and "list_all call_ok cs"
  shows "\<exists>d'. page_run cs d = (map Inr (fst (page_run_spec (length d) cs v)), d') \<and>
     length d' = length d \<and> page_rep d' (snd (page_run_spec (length d) cs v))"
  using assms
proof (induction cs arbitrary: d v)
  case (Cons c cs)
  obtain d1 where d1: "page_call c d = (Inr (fst (page_call_spec (length d) c v)), d1)"
      "length d1 = length d" "page_rep d1 (snd (page_call_spec (length d) c v))"
    using page_call_rep [of d v c] Cons.prems by auto
  with Cons.IH [OF d1(3) spec_leaf [OF Cons.prems(2)]] Cons.prems show ?case
    by (auto simp: Let_def case_prod_beta)
qed simp

theorem page_updates_refine_witness:
  "\<exists>d d'. empty_leaf 128 = Inr d \<and>
     page_run [Call_insert [2] [5], Call_insert [1] [6], Call_insert [2] [9], Call_remove [7], Call_remove [2]] d =
       ([Inr (Inl Ins_Inserted), Inr (Inl Ins_Inserted), Inr (Inl Ins_Duplicate), Inr (Inr Rem_Missing), Inr (Inr Rem_Removed)], d') \<and>
     page_rep d' (leaf_view None [\<lparr>le_key = [1], le_value = LV_Inline [6]\<rparr>])"
proof -
  obtain d where d: "empty_leaf 128 = Inr d" "length d = 128" "page_rep d (leaf_view None [])"
    using build_leaf_ok [of None "[]" 128] page_tight_rep
    by (auto simp: empty_leaf_def view_ok_leaf ids_ok_def page_fits_def heap_used_def size_ok_def)
  let ?cs = "[Call_insert [2] [5], Call_insert [1] [6], Call_insert [2] [9], Call_remove [7], Call_remove [2]]"
  have "page_run_spec 128 ?cs (leaf_view None []) =
     ([Inl Ins_Inserted, Inl Ins_Inserted, Inl Ins_Duplicate, Inr Rem_Missing, Inr Rem_Removed],
      leaf_view None [\<lparr>le_key = [1], le_value = LV_Inline [6]\<rparr>])"
    by code_simp
  moreover have "list_all call_ok ?cs" by simp
  ultimately show ?thesis
    using page_updates_refine [of d "leaf_view None []" ?cs] d by (auto simp: size_ok_def)
qed

text \<open>
  C37.  A full page is split where its halves differ least, and both halves keep at least one entry.
\<close>
theorem split_point_balanced:
  assumes "2 \<le> n" and "cost_sum cost n < 2 ^ 64"
  shows "\<exists>s. choose_split n cost = Inr s \<and> 1 \<le> s \<and> s < n \<and>
     (\<forall>x. 1 \<le> x \<and> x < n \<longrightarrow> imbalance cost n s \<le> imbalance cost n x)"
  by (rule choose_split_ok [OF assms])

definition demo_cost :: "nat \<Rightarrow> nat" where
  "demo_cost i = (if i = 0 then 5 else i)"

theorem split_point_balanced_witness:
  "\<exists>s. choose_split 3 demo_cost = Inr s \<and> 1 \<le> s \<and> s < 3 \<and> imbalance demo_cost 3 s \<le> imbalance demo_cost 3 1"
proof -
  have "cost_sum demo_cost 3 < 2 ^ 64"
    by (simp add: cost_sum_def demo_cost_def upt_rec)
  then obtain s where "choose_split 3 demo_cost = Inr s" "1 \<le> s" "s < 3"
      "\<forall>x. 1 \<le> x \<and> x < 3 \<longrightarrow> imbalance demo_cost 3 s \<le> imbalance demo_cost 3 x"
    using split_point_balanced [of 3 demo_cost] by auto
  then show ?thesis by (intro exI [of _ s] conjI) simp_all
qed

end
