(* ===== verification/Spec2Isabelle.thy ===== *)
theory Spec2Isabelle
  imports Mvcc Log Recovery Visibility Write_Intent Frame Undo_Store Admission Page_Dependency
    Translation Page_Split
begin

text \<open>
  A verification development of the transaction and storage kernel of OmenDB.

  \<^bold>\<open>The program.\<close>  The kernel lives in \<open>src/crates/seerdb/src/vnext\<close>.  A transaction
  (\<open>txn.rs\<close>) stages mutations, normalizes them (\<open>write_set.rs\<close>), takes write intents
  (\<open>write_intent.rs\<close>), and appends one commit decision to the logical log (\<open>log.rs\<close>).  The
  decision is then made visible in commit order (\<open>visibility.rs\<close>) through the transaction status
  table and the record headers of \<open>mvcc.rs\<close>; superseded versions go to the undo store
  (\<open>undo_store.rs\<close>).  After a crash the log is parsed and replayed (\<open>recovery.rs\<close>).  Commits are
  admitted and drained by \<open>runtime_admission.rs\<close>.  Pages are resident in frames with a packed
  atomic state (\<open>frame.rs\<close>), found through \<open>translation.rs\<close>, and written back only when
  \<open>page_dependency.rs\<close> permits.  Files live in a claimed directory (\<open>store.rs\<close>) published with
  \<open>src/crates/durable-fs\<close>.

  \<^bold>\<open>The theories.\<close>
  \<^item> \<open>Prelude\<close>, \<open>Sharded_Map\<close>, \<open>Ordered_Map\<close>, \<open>Frame_Stream\<close>: machine types, results, byte codecs
    (locale \<open>byte_codec\<close>), sharded hash maps, \<open>BTreeMap\<close> as a sorted association list, and files of
    self-delimiting frames (locale \<open>frame_stream\<close>).
  \<^item> \<open>Ids\<close>: \<open>id.rs\<close>, \<open>object.rs\<close> and the log position of \<open>format.rs\<close>.
  \<^item> \<open>Mvcc\<close>: the record codec is exact; the status table refines a map; decisions are final; one
    publication is atomic for every snapshot, and later commits never change a snapshot.
  \<^item> \<open>Log\<close>: the record codec is exact; the parser finds exactly the encoded records, and a torn tail
    is reported as incomplete and never as a record.
  \<^item> \<open>Write_Set\<close>, \<open>Txn\<close>: normalization is last-writer-wins and order independent per key; the overlay
    agrees with the final effects; the phase machine never leaves a decided outcome.
  \<^item> \<open>Write_Intent\<close>: intents are exclusive, a failed acquisition restores the table.
  \<^item> \<open>Recovery\<close>: the replay of a log emits exactly the committed transactions, with their effects.
  \<^item> \<open>Visibility\<close>: the frontier is contiguous, completion makes a commit visible, waits return.
  \<^item> \<open>Admission\<close>: a checkpoint runs with no commit in flight; the fence is terminal.
  \<^item> \<open>Durable_Fs\<close>, \<open>Store\<close>: a crash at any point of an atomic write shows the old or the new file;
    a created store opens with its identity; component claims are exclusive.
  \<^item> \<open>Undo_Store\<close>: the store is a list of records; reopening after any torn tail recovers it.
  \<^item> \<open>Frame\<close>, \<open>Translation\<close>, \<open>Page_Dependency\<close>: the frame state machine, the resident-page table, and
    the write-ahead rule.
  \<^item> \<open>Byte_Buffer\<close>, \<open>Key_Order\<close>, \<open>Page_V4\<close>, \<open>Page_Build\<close>: byte slices and writes, the order of keys and
    key heads, and the readers and writers of \<open>btree/page_v4.rs\<close> on the bytes of a page.
  \<^item> \<open>Page_View\<close>, \<open>Page_Refine\<close>, \<open>Page_Insert\<close>, \<open>Page_Split\<close>: the logical page (fence, children, sorted
    entries) that a byte image represents; every reader answers for it, every writer keeps a
    representation of the updated logical page, and the capacity of a page is exact.

  \<^bold>\<open>Conventions.\<close>  A failing operation returns \<open>Inl\<close> of the error; a mutating operation returns the
  result and the new state.  \<open>usize\<close> is \<open>nat\<close> with the 64-bit limit written out where the source
  checks it.  The checksum function (\<open>crc32c\<close>) and the hasher are parameters.  Every file system
  call takes its outcome from an environment record, so each error path is a branch.  A wait on a
  condition variable is a list of the states found at the wake-ups.
\<close>

end
